(* ===== verification/Lwip_Prelude.thy ===== *)
theory Lwip_Prelude
  imports Main "HOL-Library.Word" "HOL-Library.Monad_Syntax"
begin

text \<open>
  The prelude of the development: the fixed-width integer types, the error codes of
  \<^verbatim>\<open>lwip/err.h\<close>, the memory model every component shares (pointers are a region
  and an offset, the contents of memory are a map from pointers to octets), the console on
  which a failing \<^verbatim>\<open>LWIP_ASSERT\<close> prints, and the generic lemmas on lists, options and
  words that the component proofs use through the collections declared here.
\<close>

unbundle bit_operations_syntax

named_theorems mem_simps \<open>rewrite rules for memory reads and writes\<close>
named_theorems layout_simps \<open>the configuration constants of the build\<close>
named_theorems word_nat \<open>from comparisons of machine words to natural numbers\<close>

section \<open>Integers of arch/cc.h\<close>

type_synonym u8 = "8 word"
type_synonym u16 = "16 word"
type_synonym u32 = "32 word"

text \<open>
  Where a component keeps offsets as natural numbers, the casts of the source are written
  out: \<open>u16c\<close> is the cast to \<^verbatim>\<open>u16_t\<close>, \<open>usub32\<close> a subtraction carried out in
  a 32-bit unsigned type.
\<close>

definition u16c :: "nat \<Rightarrow> nat" where
  "u16c n = n mod 2 ^ 16"

definition usub32 :: "nat \<Rightarrow> nat \<Rightarrow> nat" where
  "usub32 a b = nat ((int a - int b) mod 2 ^ 32)"

lemma u16c_id [simp]: "n < 65536 \<Longrightarrow> u16c n = n"
  by (simp add: u16c_def)

lemma usub32_ge [simp]: "b \<le> a \<Longrightarrow> a < 4294967296 \<Longrightarrow> usub32 a b = a - b"
  by (simp add: usub32_def nat_diff_distrib flip: of_nat_diff)

section \<open>Error codes of lwip/err.h\<close>

datatype err_t = ERR_OK | ERR_MEM | ERR_BUF | ERR_TIMEOUT | ERR_RTE | ERR_INPROGRESS
  | ERR_VAL | ERR_WOULDBLOCK | ERR_USE | ERR_ALREADY | ERR_ISCONN | ERR_CONN | ERR_IF
  | ERR_ABRT | ERR_RST | ERR_CLSD | ERR_ARG

section \<open>Memory\<close>

text \<open>
  A pointer is a region and an offset in it: the heap \<^verbatim>\<open>ram_heap\<close> of mem.c, one of
  the pools of memp.c, or memory the application or the linker placed elsewhere.
\<close>

datatype memp_t = MEMP_RAW_PCB | MEMP_UDP_PCB | MEMP_TCP_PCB | MEMP_TCP_PCB_LISTEN | MEMP_TCP_SEG
  | MEMP_REASSDATA | MEMP_FRAG_PBUF | MEMP_SYS_TIMEOUT | MEMP_PBUF | MEMP_PBUF_POOL

datatype region = Ram | Pool memp_t | Ext nat

type_synonym ptr = "region \<times> int"

type_synonym octets = "ptr \<Rightarrow> u8"

definition ptr_add :: "ptr \<Rightarrow> int \<Rightarrow> ptr" where
  "ptr_add p k = (fst p, snd p + k)"

definition mem_read :: "octets \<Rightarrow> ptr \<Rightarrow> nat \<Rightarrow> u8 list" where
  "mem_read m p n = map (\<lambda>i. m (ptr_add p (int i))) [0..<n]"

definition mem_write :: "octets \<Rightarrow> ptr \<Rightarrow> u8 list \<Rightarrow> octets" where
  "mem_write m p xs = (\<lambda>q. if fst q = fst p \<and> snd p \<le> snd q \<and> snd q < snd p + int (length xs)
     then xs ! nat (snd q - snd p) else m q)"

text \<open>
  The part of the global state all components have: the contents of memory and the
  messages printed by failed assertions, the newest first. In this build
  \<^verbatim>\<open>mch_abort\<close> is an empty macro (mch.h), so an assertion that fails prints its
  message and execution goes on; \<open>LWIP_ASSERT\<close> does exactly that.
\<close>

record env =
  octet :: octets
  diag :: "string list"

definition LWIP_ASSERT :: "string \<Rightarrow> bool \<Rightarrow> 'a env_scheme \<Rightarrow> 'a env_scheme" where
  "LWIP_ASSERT msg P s = (if P then s else s\<lparr>diag := msg # diag s\<rparr>)"

lemma LWIP_ASSERT_true [simp]: "P \<Longrightarrow> LWIP_ASSERT msg P s = s"
  by (simp add: LWIP_ASSERT_def)

lemma length_mem_read [simp]: "length (mem_read m p n) = n"
  by (simp add: mem_read_def)

lemma mem_read_0 [simp]: "mem_read m p 0 = []"
  by (simp add: mem_read_def)

lemma ptr_add_0 [simp]: "ptr_add p 0 = p"
  by (simp add: ptr_add_def)

lemma ptr_add_add [simp]: "ptr_add (ptr_add p a) b = ptr_add p (a + b)"
  by (simp add: ptr_add_def)

lemma fst_ptr_add [simp]: "fst (ptr_add p k) = fst p"
  by (simp add: ptr_add_def)

lemma snd_ptr_add [simp]: "snd (ptr_add p k) = snd p + k"
  by (simp add: ptr_add_def)

lemma nth_mem_read [simp]: "i < n \<Longrightarrow> mem_read m p n ! i = m (ptr_add p (int i))"
  by (simp add: mem_read_def)

lemma mem_read_add:
  "mem_read m p (a + b) = mem_read m p a @ mem_read m (ptr_add p (int a)) b"
  by (rule nth_equalityI) (auto simp: nth_append)

lemma take_mem_read: "k \<le> n \<Longrightarrow> take k (mem_read m p n) = mem_read m p k"
  by (rule nth_equalityI) auto

lemma drop_mem_read:
  "k \<le> n \<Longrightarrow> drop k (mem_read m p n) = mem_read m (ptr_add p (int k)) (n - k)"
  by (rule nth_equalityI) auto

lemma mem_write_Nil [simp]: "mem_write m p [] = m"
  by (auto simp: mem_write_def fun_eq_iff)

lemma mem_read_write_same [mem_simps]:
  "length xs = n \<Longrightarrow> mem_read (mem_write m p xs) p n = xs"
  by (rule nth_equalityI) (auto simp: mem_write_def)

text \<open>Two stretches of memory are apart when they lie in different regions or do not overlap.\<close>

definition apart :: "ptr \<Rightarrow> nat \<Rightarrow> ptr \<Rightarrow> nat \<Rightarrow> bool" where
  "apart p n q k \<longleftrightarrow> fst p \<noteq> fst q \<or> snd p + int n \<le> snd q \<or> snd q + int k \<le> snd p"

lemma apart_sym: "apart p n q k = apart q k p n"
  by (auto simp: apart_def)

lemma mem_read_write_apart [mem_simps]:
  "apart p n q (length xs) \<Longrightarrow> mem_read (mem_write m q xs) p n = mem_read m p n"
  by (rule nth_equalityI) (auto simp: mem_write_def apart_def)

lemma apart_sub:
  "apart p n q k \<Longrightarrow> 0 \<le> a \<Longrightarrow> a + int n' \<le> int n \<Longrightarrow> 0 \<le> b \<Longrightarrow> b + int k' \<le> int k
   \<Longrightarrow> apart (ptr_add p a) n' (ptr_add q b) k'"
  by (auto simp: apart_def)

section \<open>Lists\<close>

lemma in_set_split:
  assumes "x \<in> set xs"
  obtains as bs where "xs = as @ x # bs"
  using assms by (auto simp: in_set_conv_decomp)

lemma sum_list_map_cong:
  "(\<And>x. x \<in> set xs \<Longrightarrow> f x = g x) \<Longrightarrow> sum_list (map f xs) = sum_list (map g xs)"
  by (simp cong: map_cong)

section \<open>Words\<close>

lemmas word_nat_rules [word_nat] = word_less_nat_alt word_le_nat_alt word_unat_eq_iff

lemma unat_u16_less [simp]: "unat (x :: u16) < 65536"
  using unsigned_less [of x, where 'a = nat] by simp

lemma unat_u8_less [simp]: "unat (x :: u8) < 256"
  using unsigned_less [of x, where 'a = nat] by simp

lemma unat_of_nat16 [simp]: "n < 65536 \<Longrightarrow> unat (of_nat n :: u16) = n"
  by (simp add: unsigned_of_nat take_bit_nat_eq_self)

lemma unat_of_nat32 [simp]: "n < 4294967296 \<Longrightarrow> unat (of_nat n :: u32) = n"
  by (simp add: unsigned_of_nat take_bit_nat_eq_self)

lemma nat_int_diff [simp]: "nat (int a - int b) = a - b"
  by arith

lemma word_of_nat_unat [simp]: "word_of_nat (unat w) = (w :: 'a :: len word)"
  by simp

text \<open>Lengths stay natural numbers, and pointers stay whole, in simplification.\<close>

declare of_nat_unat [simp del] split_paired_All [simp del] split_paired_Ex [simp del]

end
