(* ===== verification/Allocator.thy ===== *)
theory Allocator
  imports Lwip_Prelude
begin

text \<open>
  The interface the rest of the stack relies on when it takes memory: an allocator hands out
  pieces of memory that are apart from each other and takes them back. The heap of mem.c and
  the pools of memp.c are its two providers. What follows from the laws is proved here once: a
  client that gives back only what it was given keeps the allocator intact, all it holds stays
  valid, and once it has given back everything the allocator is as it was.
\<close>

text \<open>The steps of a client: a request served, a request refused, a piece given back.\<close>

inductive client_step ::
  "('r \<Rightarrow> 's \<Rightarrow> ('p option \<times> 's) option) \<Rightarrow> ('p \<Rightarrow> 's \<Rightarrow> 's option) \<Rightarrow>
   's \<times> 'p set \<Rightarrow> 's \<times> 'p set \<Rightarrow> bool" for alloc free where
  served: "alloc r s = Some (Some a, s') \<Longrightarrow> client_step alloc free (s, L) (s', insert a L)"
| refused: "alloc r s = Some (None, s') \<Longrightarrow> client_step alloc free (s, L) (s', L)"
| given_back: "a \<in> L \<Longrightarrow> free a s = Some s' \<Longrightarrow> client_step alloc free (s, L) (s', L - {a})"

definition holds :: "('p \<Rightarrow> nat option) \<Rightarrow> 'p set \<Rightarrow> ('p \<Rightarrow> nat option) \<Rightarrow> bool" where
  "holds m0 L m \<longleftrightarrow> L \<inter> dom m0 = {} \<and> L \<subseteq> dom m \<and> (\<forall>a. a \<notin> L \<longrightarrow> m a = m0 a)"

locale allocator =
  fixes alloc :: "'r \<Rightarrow> 's \<Rightarrow> ('p option \<times> 's) option"
    and free :: "'p \<Rightarrow> 's \<Rightarrow> 's option"
    and inv :: "'s \<Rightarrow> bool"
    and live :: "'s \<Rightarrow> 'p \<Rightarrow> nat option"
    and need :: "'r \<Rightarrow> nat"
    and addr :: "'p \<Rightarrow> ptr"
  assumes alloc_returns: "inv s \<Longrightarrow> \<exists>p s'. alloc r s = Some (p, s')"
    and alloc_inv: "inv s \<Longrightarrow> alloc r s = Some (p, s') \<Longrightarrow> inv s'"
    and alloc_none: "inv s \<Longrightarrow> alloc r s = Some (None, s') \<Longrightarrow> live s' = live s"
    and alloc_some: "inv s \<Longrightarrow> alloc r s = Some (Some a, s') \<Longrightarrow>
      live s a = None \<and> (\<exists>n. need r \<le> n \<and> live s' = (live s)(a \<mapsto> n))"
    and free_live: "inv s \<Longrightarrow> live s a = Some n \<Longrightarrow>
      \<exists>s'. free a s = Some s' \<and> inv s' \<and> live s' = (live s)(a := None)"
    and live_apart: "inv s \<Longrightarrow> live s a = Some n \<Longrightarrow> live s b = Some m \<Longrightarrow> a \<noteq> b \<Longrightarrow>
      apart (addr a) n (addr b) m"
begin

lemma client_step_keeps:
  assumes "client_step alloc free (s, L) (s', L')" "inv s" "holds m0 L (live s)"
  shows "inv s' \<and> holds m0 L' (live s')"
  using assms(1)
proof cases
  case (served r a)
  have "m0 a = None"
    using alloc_some [OF assms(2) served(2)] assms(3) by (cases "a \<in> L") (auto simp: holds_def)
  with served alloc_some [OF assms(2) served(2)] alloc_inv [OF assms(2) served(2)] assms(3)
  show ?thesis by (auto simp: holds_def)
next
  case (refused r)
  with alloc_none [OF assms(2) refused(2)] alloc_inv [OF assms(2) refused(2)] assms(3)
  show ?thesis by simp
next
  case (given_back a)
  then obtain n where "live s a = Some n" using assms(3) by (auto simp: holds_def)
  moreover have "m0 a = None" using given_back assms(3) by (auto simp: holds_def dom_def)
  ultimately show ?thesis using free_live [OF assms(2), of a n] given_back assms(3)
    by (auto simp: holds_def)
qed

lemma client_run_keeps:
  assumes "(client_step alloc free)\<^sup>*\<^sup>* (s, L) (s', L')" "inv s" "holds m0 L (live s)"
  shows "inv s' \<and> holds m0 L' (live s')"
  using assms(1)
proof (induction rule: rtranclp_induct2)
  case refl
  with assms show ?case by simp
next
  case step
  then show ?case using client_step_keeps by blast
qed

lemma client_run:
  assumes "(client_step alloc free)\<^sup>*\<^sup>* (s, {}) (s', L)" "inv s"
  shows "inv s'" "L \<subseteq> dom (live s')" "\<And>a. a \<notin> L \<Longrightarrow> live s' a = live s a" "L = {} \<Longrightarrow> live s' = live s"
  using client_run_keeps [OF assms(1), of "live s"] assms(2) by (auto simp: holds_def)

lemma run_apart:
  assumes "(client_step alloc free)\<^sup>*\<^sup>* (s, {}) (s', L)" "inv s" "a \<in> L" "b \<in> dom (live s')" "a \<noteq> b"
  shows "apart (addr a) (the (live s' a)) (addr b) (the (live s' b))"
  using client_run(1,2) [OF assms(1,2)] assms(3-5) live_apart [of s' a _ b] by auto

end

end
