(* ===== verification/Mem.thy ===== *)
theory Mem
  imports Allocator
begin

text \<open>
  The heap of \<^verbatim>\<open>lwip/src/core/mem.c\<close> (the implementation chosen by this build:
  no pools, no libc malloc, no overflow or sanity checks, no access from other contexts).
  The headers \<^verbatim>\<open>struct mem\<close> that mem.c keeps inside \<^verbatim>\<open>ram\<close> are a map from
  offsets to headers; a pointer handed out is an offset into \<^verbatim>\<open>ram\<close>. The theory holds
  the operations, the well-formedness invariant of the block list, and the proofs that every
  operation keeps it and does what its contract says.
\<close>

section \<open>Configuration\<close>

definition MEM_ALIGNMENT :: nat where "MEM_ALIGNMENT = 1"

definition LWIP_MEM_ALIGN_SIZE :: "nat \<Rightarrow> nat" where
  "LWIP_MEM_ALIGN_SIZE n = (n + MEM_ALIGNMENT - 1) div MEM_ALIGNMENT * MEM_ALIGNMENT"

definition MEM_SIZE_ALIGNED :: nat where "MEM_SIZE_ALIGNED = LWIP_MEM_ALIGN_SIZE 16000"

definition MIN_SIZE_ALIGNED :: nat where "MIN_SIZE_ALIGNED = LWIP_MEM_ALIGN_SIZE 12"

text \<open>\<^verbatim>\<open>sizeof(struct mem)\<close>: two \<^verbatim>\<open>u16_t\<close>, one \<^verbatim>\<open>u8_t\<close> and a padding octet.\<close>

definition SIZEOF_STRUCT_MEM :: nat where "SIZEOF_STRUCT_MEM = LWIP_MEM_ALIGN_SIZE 6"

lemma align_size_id [layout_simps, simp]: "LWIP_MEM_ALIGN_SIZE n = n"
  by (simp add: LWIP_MEM_ALIGN_SIZE_def MEM_ALIGNMENT_def)

lemmas mem_consts [layout_simps] = MEM_SIZE_ALIGNED_def MIN_SIZE_ALIGNED_def SIZEOF_STRUCT_MEM_def

section \<open>State\<close>

record mem_hdr =
  m_next :: nat
  m_prev :: nat
  m_used :: nat

text \<open>
  The static variables of mem.c and the counters \<^verbatim>\<open>lwip_stats.mem\<close>. \<open>lfree\<close> and
  \<open>ram_end\<close> are pointers into \<^verbatim>\<open>ram\<close>, kept as offsets.
\<close>

record heap = env +
  ram :: "nat \<Rightarrow> mem_hdr"
  lfree :: nat
  ram_end :: nat
  mst_err :: nat
  mst_avail :: nat
  mst_used :: nat
  mst_max :: nat
  mst_illegal :: nat

definition set_next :: "(nat \<Rightarrow> mem_hdr) \<Rightarrow> nat \<Rightarrow> nat \<Rightarrow> (nat \<Rightarrow> mem_hdr)" where
  "set_next r o' v = r(o' := (r o')\<lparr>m_next := v\<rparr>)"

definition set_prev :: "(nat \<Rightarrow> mem_hdr) \<Rightarrow> nat \<Rightarrow> nat \<Rightarrow> (nat \<Rightarrow> mem_hdr)" where
  "set_prev r o' v = r(o' := (r o')\<lparr>m_prev := v\<rparr>)"

definition set_used :: "(nat \<Rightarrow> mem_hdr) \<Rightarrow> nat \<Rightarrow> nat \<Rightarrow> (nat \<Rightarrow> mem_hdr)" where
  "set_used r o' v = r(o' := (r o')\<lparr>m_used := v\<rparr>)"

definition MEM_STATS_INC_USED :: "nat \<Rightarrow> 'a heap_scheme \<Rightarrow> 'a heap_scheme" where
  "MEM_STATS_INC_USED y s = (let u = u16c (mst_used s + y)
     in s\<lparr>mst_used := u, mst_max := (if mst_max s < u then u else mst_max s)\<rparr>)"

definition MEM_STATS_DEC_USED :: "nat \<Rightarrow> 'a heap_scheme \<Rightarrow> 'a heap_scheme" where
  "MEM_STATS_DEC_USED y s = s\<lparr>mst_used := u16c (usub32 (mst_used s) y)\<rparr>"

definition MEM_STATS_INC_err :: "'a heap_scheme \<Rightarrow> 'a heap_scheme" where
  "MEM_STATS_INC_err s = s\<lparr>mst_err := u16c (mst_err s + 1)\<rparr>"

definition MEM_STATS_INC_illegal :: "'a heap_scheme \<Rightarrow> 'a heap_scheme" where
  "MEM_STATS_INC_illegal s = s\<lparr>mst_illegal := u16c (mst_illegal s + 1)\<rparr>"

section \<open>Operations\<close>

definition mem_init :: "'a heap_scheme \<Rightarrow> 'a heap_scheme" where
  "mem_init s =
     (let r = ram s;
          r = r(0 := \<lparr>m_next = MEM_SIZE_ALIGNED, m_prev = 0, m_used = 0\<rparr>);
          r = r(MEM_SIZE_ALIGNED :=
                 \<lparr>m_next = MEM_SIZE_ALIGNED, m_prev = MEM_SIZE_ALIGNED, m_used = 1\<rparr>)
      in s\<lparr>ram := r, ram_end := MEM_SIZE_ALIGNED, lfree := 0, mst_avail := MEM_SIZE_ALIGNED\<rparr>)"

text \<open>
  Combine a block that has just been freed with its free neighbours: \<open>plug_next\<close> is the
  part of \<^verbatim>\<open>plug_holes\<close> that looks forward, \<open>plug_prev\<close> the one that looks back.
\<close>

definition plug_next :: "nat \<Rightarrow> 'a heap_scheme \<Rightarrow> 'a heap_scheme" where
  "plug_next mem s =
     (let nmem = m_next (ram s mem)
      in if mem \<noteq> nmem \<and> m_used (ram s nmem) = 0 \<and> nmem \<noteq> ram_end s then
           (let s = (if lfree s = nmem then s\<lparr>lfree := mem\<rparr> else s);
                r = set_next (ram s) mem (m_next (ram s nmem));
                r = (if m_next (r nmem) \<noteq> MEM_SIZE_ALIGNED
                     then set_prev r (m_next (r nmem)) mem else r)
            in s\<lparr>ram := r\<rparr>)
         else s)"

definition plug_prev :: "nat \<Rightarrow> 'a heap_scheme \<Rightarrow> 'a heap_scheme" where
  "plug_prev mem s =
     (let pmem = m_prev (ram s mem)
      in if pmem \<noteq> mem \<and> m_used (ram s pmem) = 0 then
           (let s = (if lfree s = mem then s\<lparr>lfree := pmem\<rparr> else s);
                r = set_next (ram s) pmem (m_next (ram s mem));
                r = (if m_next (r mem) \<noteq> MEM_SIZE_ALIGNED
                     then set_prev r (m_next (r mem)) pmem else r)
            in s\<lparr>ram := r\<rparr>)
         else s)"

definition plug_holes :: "nat \<Rightarrow> 'a heap_scheme \<Rightarrow> 'a heap_scheme" where
  "plug_holes mem s0 =
     (let s = LWIP_ASSERT ''plug_holes: mem < ram_end'' (mem < ram_end s0) s0;
          s = LWIP_ASSERT ''plug_holes: mem->used == 0'' (m_used (ram s mem) = 0) s;
          s = LWIP_ASSERT ''plug_holes: mem->next <= MEM_SIZE_ALIGNED''
                (m_next (ram s mem) \<le> MEM_SIZE_ALIGNED) s
      in plug_prev mem (plug_next mem s))"

definition mem_link_valid :: "nat \<Rightarrow> 'a heap_scheme \<Rightarrow> bool" where
  "mem_link_valid mem s =
     (let r = ram s; nmem = m_next (r mem); pmem = m_prev (r mem)
      in \<not> (nmem > MEM_SIZE_ALIGNED \<or> pmem > MEM_SIZE_ALIGNED \<or>
            (pmem \<noteq> mem \<and> m_next (r pmem) \<noteq> mem) \<or>
            (nmem \<noteq> ram_end s \<and> m_prev (r nmem) \<noteq> mem)))"

text \<open>
  A pointer given back is \<open>None\<close> (NULL) or an offset into \<^verbatim>\<open>ram\<close>, which may lie
  outside the heap. \<^verbatim>\<open>LWIP_MEM_ILLEGAL_FREE(msg)\<close> is an assertion that always fails.
\<close>

definition mem_free :: "int option \<Rightarrow> 'a heap_scheme \<Rightarrow> 'a heap_scheme" where
  "mem_free rmem s = (case rmem of None \<Rightarrow> s | Some p \<Rightarrow>
     if p - int SIZEOF_STRUCT_MEM < 0 \<or> p + int MIN_SIZE_ALIGNED > int (ram_end s) then
       MEM_STATS_INC_illegal (LWIP_ASSERT ''mem_free: illegal memory'' False s)
     else
       (let mem = nat (p - int SIZEOF_STRUCT_MEM) in
        if m_used (ram s mem) = 0 then
          MEM_STATS_INC_illegal (LWIP_ASSERT ''mem_free: illegal memory: double free'' False s)
        else if \<not> mem_link_valid mem s then
          MEM_STATS_INC_illegal
            (LWIP_ASSERT ''mem_free: illegal memory: non-linked: double free'' False s)
        else
          (let s = s\<lparr>ram := set_used (ram s) mem 0\<rparr>;
               s = (if mem < lfree s then s\<lparr>lfree := mem\<rparr> else s);
               s = MEM_STATS_DEC_USED (usub32 (m_next (ram s mem)) mem) s
           in plug_holes mem s)))"

text \<open>
  The search loop of \<^verbatim>\<open>mem_malloc\<close> from a given offset, and the loop that looks for the
  next free block. Both follow the \<open>next\<close> links, so on a corrupt list they may run forever:
  that is the value \<open>None\<close>.
\<close>

partial_function (option) mem_malloc_scan ::
  "(nat \<Rightarrow> mem_hdr) \<Rightarrow> nat \<Rightarrow> nat \<Rightarrow> nat option option" where
  "mem_malloc_scan r sz ptr =
     (if ptr < MEM_SIZE_ALIGNED - sz then
        (if m_used (r ptr) = 0 \<and> usub32 (m_next (r ptr)) (ptr + SIZEOF_STRUCT_MEM) \<ge> sz
         then Some (Some ptr)
         else mem_malloc_scan r sz (m_next (r ptr)))
      else Some None)"

partial_function (option) mem_lfree_scan ::
  "(nat \<Rightarrow> mem_hdr) \<Rightarrow> nat \<Rightarrow> nat \<Rightarrow> nat option" where
  "mem_lfree_scan r rend cur =
     (if m_used (r cur) \<noteq> 0 \<and> cur \<noteq> rend then mem_lfree_scan r rend (m_next (r cur))
      else Some cur)"

text \<open>What \<^verbatim>\<open>mem_malloc\<close> does with the block it found: split it or take it whole.\<close>

definition mem_malloc_take :: "nat \<Rightarrow> nat \<Rightarrow> 'a heap_scheme \<Rightarrow> 'a heap_scheme" where
  "mem_malloc_take sz ptr s =
     (if usub32 (m_next (ram s ptr)) (ptr + SIZEOF_STRUCT_MEM)
           \<ge> sz + SIZEOF_STRUCT_MEM + MIN_SIZE_ALIGNED then
        (let ptr2 = u16c (ptr + SIZEOF_STRUCT_MEM + sz);
             s = LWIP_ASSERT ''invalid next ptr'' (ptr2 \<noteq> MEM_SIZE_ALIGNED) s;
             r = set_used (ram s) ptr2 0;
             r = set_next r ptr2 (m_next (r ptr));
             r = set_prev r ptr2 ptr;
             r = set_next r ptr ptr2;
             r = set_used r ptr 1;
             r = (if m_next (r ptr2) \<noteq> MEM_SIZE_ALIGNED then set_prev r (m_next (r ptr2)) ptr2
                  else r)
         in MEM_STATS_INC_USED (sz + SIZEOF_STRUCT_MEM) (s\<lparr>ram := r\<rparr>))
      else
        (let s = s\<lparr>ram := set_used (ram s) ptr 1\<rparr>
         in MEM_STATS_INC_USED (usub32 (m_next (ram s ptr)) ptr) s))"

text \<open>The rest of the loop body: move \<open>lfree\<close> on, check, and return the memory.\<close>

definition mem_malloc_finish ::
  "nat \<Rightarrow> nat \<Rightarrow> 'a heap_scheme \<Rightarrow> (int option \<times> 'a heap_scheme) option" where
  "mem_malloc_finish sz ptr s1 = do {
     s2 \<leftarrow> (if ptr = lfree s1 then do {
                cur \<leftarrow> mem_lfree_scan (ram s1) (ram_end s1) (lfree s1);
                let s2 = s1\<lparr>lfree := cur\<rparr>;
                Some (LWIP_ASSERT ''mem_malloc: !lfree->used''
                  (cur = ram_end s2 \<or> m_used (ram s2 cur) = 0) s2)
              } else Some s1);
     let s3 = LWIP_ASSERT ''mem_malloc: allocated memory not above ram_end.''
       (ptr + SIZEOF_STRUCT_MEM + sz \<le> ram_end s2) s2;
     Some (Some (int ptr + int SIZEOF_STRUCT_MEM), s3)
   }"

definition mem_malloc :: "nat \<Rightarrow> 'a heap_scheme \<Rightarrow> (int option \<times> 'a heap_scheme) option" where
  "mem_malloc size_in s =
     (if size_in = 0 then Some (None, s)
      else
        (let sz = u16c (LWIP_MEM_ALIGN_SIZE size_in);
             sz = (if sz < MIN_SIZE_ALIGNED then MIN_SIZE_ALIGNED else sz)
         in if sz > MEM_SIZE_ALIGNED \<or> sz < size_in then Some (None, s)
            else do {
              found \<leftarrow> mem_malloc_scan (ram s) sz (lfree s);
              (case found of
                 None \<Rightarrow> Some (None, MEM_STATS_INC_err s)
               | Some ptr \<Rightarrow> mem_malloc_finish sz ptr (mem_malloc_take sz ptr s))
            }))"

text \<open>
  Shrink a block; the pointer returned is the one given, or NULL when it cannot be done. A
  pointer closer to the start of \<^verbatim>\<open>ram\<close> than a header has no header in the heap:
  the source reads in front of the array, which is \<open>None\<close> here. \<open>mem_trim_link\<close> is the
  sequence of writes both branches use to put a free block behind the shrunk one.
\<close>

definition mem_trim_link :: "(nat \<Rightarrow> mem_hdr) \<Rightarrow> nat \<Rightarrow> nat \<Rightarrow> nat \<Rightarrow> (nat \<Rightarrow> mem_hdr)" where
  "mem_trim_link r ptr ptr2 nxt =
     (let r = set_used r ptr2 0;
          r = set_next r ptr2 nxt;
          r = set_prev r ptr2 ptr;
          r = set_next r ptr ptr2
      in if m_next (r ptr2) \<noteq> MEM_SIZE_ALIGNED then set_prev r (m_next (r ptr2)) ptr2 else r)"

definition mem_trim_at :: "int \<Rightarrow> nat \<Rightarrow> nat \<Rightarrow> 'a heap_scheme \<Rightarrow> int option \<times> 'a heap_scheme" where
  "mem_trim_at rmem ptr newsize s0 =
     (let sz = u16c (usub32 (u16c (usub32 (m_next (ram s0 ptr)) ptr)) SIZEOF_STRUCT_MEM);
          s = LWIP_ASSERT ''mem_trim can only shrink memory'' (newsize \<le> sz) s0
      in if newsize > sz then (None, s)
         else if newsize = sz then (Some rmem, s)
         else
           (let mem2 = m_next (ram s ptr); ptr2 = u16c (ptr + SIZEOF_STRUCT_MEM + newsize)
            in if m_used (ram s mem2) = 0 then
                 (let s = LWIP_ASSERT ''invalid next ptr'' (m_next (ram s ptr) \<noteq> MEM_SIZE_ALIGNED) s;
                      nxt = m_next (ram s mem2);
                      s = (if lfree s = mem2 then s\<lparr>lfree := ptr2\<rparr> else s);
                      r = mem_trim_link (ram s) ptr ptr2 nxt
                  in (Some rmem, MEM_STATS_DEC_USED (sz - newsize) (s\<lparr>ram := r\<rparr>)))
               else if newsize + SIZEOF_STRUCT_MEM + MIN_SIZE_ALIGNED \<le> sz then
                 (let s = LWIP_ASSERT ''invalid next ptr'' (m_next (ram s ptr) \<noteq> MEM_SIZE_ALIGNED) s;
                      s = (if ptr2 < lfree s then s\<lparr>lfree := ptr2\<rparr> else s);
                      r = mem_trim_link (ram s) ptr ptr2 (m_next (ram s ptr))
                  in (Some rmem, MEM_STATS_DEC_USED (sz - newsize) (s\<lparr>ram := r\<rparr>)))
               else (Some rmem, s)))"

definition mem_trim :: "int \<Rightarrow> nat \<Rightarrow> 'a heap_scheme \<Rightarrow> (int option \<times> 'a heap_scheme) option" where
  "mem_trim rmem new_size s0 =
     (let newsize = u16c (LWIP_MEM_ALIGN_SIZE new_size);
          newsize = (if newsize < MIN_SIZE_ALIGNED then MIN_SIZE_ALIGNED else newsize)
      in if newsize > MEM_SIZE_ALIGNED \<or> newsize < new_size then Some (None, s0)
         else
           (let s = LWIP_ASSERT ''mem_trim: legal memory'' (0 \<le> rmem \<and> rmem < int (ram_end s0)) s0
            in if rmem < 0 \<or> rmem \<ge> int (ram_end s) then Some (Some rmem, MEM_STATS_INC_illegal s)
               else if rmem < int SIZEOF_STRUCT_MEM then None
               else Some (mem_trim_at rmem (u16c (nat (rmem - int SIZEOF_STRUCT_MEM))) newsize s)))"

definition mem_calloc :: "nat \<Rightarrow> nat \<Rightarrow> 'a heap_scheme \<Rightarrow> (int option \<times> 'a heap_scheme) option" where
  "mem_calloc count sz s =
     (let alloc_size = (count * sz) mod 2 ^ 32
      in if u16c alloc_size \<noteq> alloc_size then Some (None, s)
         else do {
           (p, s1) \<leftarrow> mem_malloc (u16c alloc_size) s;
           (case p of None \<Rightarrow> Some (None, s1)
            | Some a \<Rightarrow> Some (Some a, s1\<lparr>octet :=
                mem_write (octet s1) (Ram, a) (replicate alloc_size 0)\<rparr>))
         })"

section \<open>The block list\<close>

definition blk_ok :: "(nat \<Rightarrow> mem_hdr) \<Rightarrow> nat \<Rightarrow> nat \<Rightarrow> bool" where
  "blk_ok r p b \<longleftrightarrow> m_prev (r b) = p \<and> m_used (r b) \<le> 1 \<and>
     b + SIZEOF_STRUCT_MEM + MIN_SIZE_ALIGNED \<le> m_next (r b)"

fun seg :: "(nat \<Rightarrow> mem_hdr) \<Rightarrow> nat \<Rightarrow> nat \<Rightarrow> nat list \<Rightarrow> nat \<Rightarrow> nat \<Rightarrow> bool" where
  "seg r p b [] q e \<longleftrightarrow> q = p \<and> e = b"
| "seg r p b (x # xs) q e \<longleftrightarrow> x = b \<and> blk_ok r p b \<and> seg r b (m_next (r b)) xs q e"

lemma seg_append:
  "seg r p b (xs @ ys) q e \<longleftrightarrow> (\<exists>q' e'. seg r p b xs q' e' \<and> seg r q' e' ys q e)"
  by (induction xs arbitrary: p b) auto

lemma seg_bounds:
  "seg r p b xs q e \<Longrightarrow> b \<le> e \<and> (\<forall>x \<in> set xs. b \<le> x \<and> x + 18 \<le> e)"
  by (induction xs arbitrary: p b) (fastforce simp: blk_ok_def layout_simps)+

lemma seg_sorted: "seg r p b xs q e \<Longrightarrow> sorted_wrt (<) xs"
proof (induction xs arbitrary: p b)
  case (Cons x xs)
  then have "x < m_next (r b)" and s: "seg r b (m_next (r b)) xs q e"
    by (auto simp: blk_ok_def layout_simps)
  with Cons.IH [OF s] seg_bounds [OF s] show ?case by fastforce
qed simp

lemma seg_length: "seg r p b xs q e \<Longrightarrow> b + 18 * length xs \<le> e"
  by (induction xs arbitrary: p b) (fastforce simp: blk_ok_def layout_simps)+

lemma seg_cong:
  "\<lbrakk>\<And>x. x \<in> set xs \<Longrightarrow> r' x = r x\<rbrakk> \<Longrightarrow> seg r' p b xs q e = seg r p b xs q e"
  by (induction xs arbitrary: p b) (auto simp: blk_ok_def)

lemma seg_last: "seg r p b xs q e \<Longrightarrow> xs \<noteq> [] \<Longrightarrow> q = last xs \<and> m_next (r q) = e"
  by (induction xs arbitrary: p b) auto

lemma seg_next_in: "seg r p b xs q e \<Longrightarrow> x \<in> set xs \<Longrightarrow> m_next (r x) \<in> insert e (set xs)"
proof (induction xs arbitrary: p b)
  case (Cons y ys)
  then show ?case by (cases ys) auto
qed simp

text \<open>The list of blocks, found by following the links from offset 0.\<close>

fun walk :: "nat \<Rightarrow> (nat \<Rightarrow> mem_hdr) \<Rightarrow> nat \<Rightarrow> nat list" where
  "walk 0 r b = []"
| "walk (Suc n) r b = (if b < MEM_SIZE_ALIGNED then b # walk n r (m_next (r b)) else [])"

definition blocks :: "(nat \<Rightarrow> mem_hdr) \<Rightarrow> nat list" where
  "blocks r = walk MEM_SIZE_ALIGNED r 0"

lemma walk_seg: "seg r p b xs q MEM_SIZE_ALIGNED \<Longrightarrow> length xs < n \<Longrightarrow> walk n r b = xs"
proof (induction n arbitrary: p b xs)
  case (Suc n)
  show ?case
  proof (cases xs)
    case Nil
    with Suc.prems show ?thesis by simp
  next
    case (Cons y ys)
    from Suc.prems(1) have "y + 18 \<le> MEM_SIZE_ALIGNED" using seg_bounds Cons by fastforce
    with Suc.prems Cons show ?thesis by (auto intro: Suc.IH)
  qed
qed simp

lemma blocks_seg: "seg r 0 0 xs q MEM_SIZE_ALIGNED \<Longrightarrow> blocks r = xs"
  unfolding blocks_def using seg_length [of r 0 0 xs q MEM_SIZE_ALIGNED]
  by (intro walk_seg) (auto simp: layout_simps)

abbreviation used :: "(nat \<Rightarrow> mem_hdr) \<Rightarrow> nat \<Rightarrow> bool" where
  "used r b \<equiv> m_used (r b) \<noteq> 0"

abbreviation blk_len :: "(nat \<Rightarrow> mem_hdr) \<Rightarrow> nat \<Rightarrow> nat" where
  "blk_len r b \<equiv> m_next (r b) - b"

definition used_sum :: "(nat \<Rightarrow> mem_hdr) \<Rightarrow> nat list \<Rightarrow> nat" where
  "used_sum r xs = sum_list (map (blk_len r) (filter (used r) xs))"

definition first_free :: "(nat \<Rightarrow> mem_hdr) \<Rightarrow> nat list \<Rightarrow> nat" where
  "first_free r xs = (case dropWhile (used r) xs of [] \<Rightarrow> MEM_SIZE_ALIGNED | x # _ \<Rightarrow> x)"

definition no_free_pair :: "(nat \<Rightarrow> mem_hdr) \<Rightarrow> nat list \<Rightarrow> bool" where
  "no_free_pair r xs = successively (\<lambda>x y. used r x \<or> used r y) xs"

definition blist :: "(nat \<Rightarrow> mem_hdr) \<Rightarrow> nat list \<Rightarrow> bool" where
  "blist r xs \<longleftrightarrow> seg r 0 0 xs (last xs) MEM_SIZE_ALIGNED \<and> xs \<noteq> []"

definition heap_core :: "'a heap_scheme \<Rightarrow> nat list \<Rightarrow> bool" where
  "heap_core s xs \<longleftrightarrow>
     blist (ram s) xs \<and>
     mst_used s = used_sum (ram s) xs \<and>
     ram_end s = MEM_SIZE_ALIGNED \<and>
     ram s MEM_SIZE_ALIGNED = \<lparr>m_next = MEM_SIZE_ALIGNED, m_prev = MEM_SIZE_ALIGNED, m_used = 1\<rparr>"

definition heap_shape :: "'a heap_scheme \<Rightarrow> nat list \<Rightarrow> bool" where
  "heap_shape s xs \<longleftrightarrow>
     heap_core s xs \<and> no_free_pair (ram s) xs \<and> lfree s = first_free (ram s) xs"

definition heap_inv :: "'a heap_scheme \<Rightarrow> bool" where
  "heap_inv s \<longleftrightarrow> heap_shape s (blocks (ram s))"

lemma heap_shape_blocks: "heap_shape s xs \<Longrightarrow> blocks (ram s) = xs"
  by (auto simp: heap_shape_def heap_core_def blist_def dest: blocks_seg)

lemma heap_invI: "heap_shape s xs \<Longrightarrow> heap_inv s"
  by (simp add: heap_inv_def heap_shape_blocks)

lemma used_sum_append [simp]: "used_sum r (xs @ ys) = used_sum r xs + used_sum r ys"
  by (simp add: used_sum_def)

lemma used_sum_Nil [simp]: "used_sum r [] = 0"
  by (simp add: used_sum_def)

lemma used_sum_Cons [simp]:
  "used_sum r (x # xs) = (if used r x then blk_len r x else 0) + used_sum r xs"
  by (simp add: used_sum_def)

lemma used_sum_cong: "(\<And>x. x \<in> set xs \<Longrightarrow> m_used (r' x) = m_used (r x) \<and> m_next (r' x) = m_next (r x))
   \<Longrightarrow> used_sum r' xs = used_sum r xs"
  by (induction xs) auto

lemma used_sum_le: "seg r p b xs q e \<Longrightarrow> used_sum r xs \<le> e - b"
proof (induction xs arbitrary: p b)
  case (Cons x xs)
  then have s: "seg r b (m_next (r b)) xs q e" and x: "x = b" "b \<le> m_next (r b)"
    by (auto simp: blk_ok_def)
  from Cons.IH [OF s] x seg_bounds [OF s] show ?case by auto
qed simp

lemma first_free_append:
  "first_free r (xs @ ys) = (if \<forall>x \<in> set xs. used r x then first_free r ys else first_free r xs)"
  by (induction xs) (auto simp: first_free_def)

lemma first_free_Cons [simp]:
  "first_free r (x # xs) = (if used r x then first_free r xs else x)"
  by (simp add: first_free_def)

lemma first_free_Nil [simp]: "first_free r [] = MEM_SIZE_ALIGNED"
  by (simp add: first_free_def)

lemma first_free_cong: "(\<And>x. x \<in> set xs \<Longrightarrow> m_used (r' x) = m_used (r x))
   \<Longrightarrow> first_free r' xs = first_free r xs"
  by (induction xs) auto

lemma no_free_pair_simps [simp]:
  "no_free_pair r []" "no_free_pair r [x]"
  "no_free_pair r (x # y # zs) \<longleftrightarrow> (used r x \<or> used r y) \<and> no_free_pair r (y # zs)"
  by (auto simp: no_free_pair_def)

lemma no_free_pair_append:
  "no_free_pair r (xs @ ys) \<longleftrightarrow> no_free_pair r xs \<and> no_free_pair r ys \<and>
     (xs \<noteq> [] \<longrightarrow> ys \<noteq> [] \<longrightarrow> used r (last xs) \<or> used r (hd ys))"
  by (auto simp: no_free_pair_def successively_append_iff)

lemma no_free_pair_cong: "(\<And>x. x \<in> set xs \<Longrightarrow> m_used (r' x) = m_used (r x))
   \<Longrightarrow> no_free_pair r' xs = no_free_pair r xs"
  unfolding no_free_pair_def by (rule successively_cong) auto

lemma seg_reprev:
  assumes "seg r p b xs q e"
    and "\<And>x. x \<in> set xs \<Longrightarrow> r' x = (if x = b then (r x)\<lparr>m_prev := p'\<rparr> else r x)"
  shows "seg r' p' b xs (if xs = [] then p' else q) e"
proof (cases xs)
  case (Cons x ys)
  with assms(1) have s: "seg r b (m_next (r b)) ys q e" and b: "x = b" "blk_ok r p b" by auto
  from seg_bounds [OF s] b have "\<forall>y \<in> set ys. y \<noteq> b" by (fastforce simp: blk_ok_def layout_simps)
  with s assms(2) Cons have "seg r' b (m_next (r b)) ys q e" by (subst seg_cong [of _ r' r]) auto
  with assms(2) Cons b show ?thesis by (auto simp: blk_ok_def)
qed (use assms in auto)

text \<open>Splitting a block, and joining two neighbours, as changes of the block list.\<close>

definition split_upd :: "(nat \<Rightarrow> mem_hdr) \<Rightarrow> nat \<Rightarrow> nat \<Rightarrow> nat \<Rightarrow> (nat \<Rightarrow> mem_hdr)" where
  "split_upd r b b2 u =
     (let r1 = r(b := (r b)\<lparr>m_next := b2, m_used := u\<rparr>,
                 b2 := \<lparr>m_next = m_next (r b), m_prev = b, m_used = 0\<rparr>)
      in if m_next (r b) \<noteq> MEM_SIZE_ALIGNED then set_prev r1 (m_next (r b)) b2 else r1)"

definition join_upd :: "(nat \<Rightarrow> mem_hdr) \<Rightarrow> nat \<Rightarrow> nat \<Rightarrow> (nat \<Rightarrow> mem_hdr)" where
  "join_upd r b n =
     (let r1 = set_next r b (m_next (r n))
      in if m_next (r n) \<noteq> MEM_SIZE_ALIGNED then set_prev r1 (m_next (r n)) b else r1)"

lemma seg_split:
  assumes "seg r p o' (as @ b # bs) q MEM_SIZE_ALIGNED"
    and b2: "b + 18 \<le> b2" "b2 + 18 \<le> m_next (r b)" and u: "u \<le> 1"
  shows "seg (split_upd r b b2 u) p o' (as @ b # b2 # bs) (if bs = [] then b2 else q) MEM_SIZE_ALIGNED"
proof -
  let ?n = "m_next (r b)"
  from assms(1) obtain p' where as: "seg r p o' as p' b" and b: "blk_ok r p' b"
    and bs: "seg r b ?n bs q MEM_SIZE_ALIGNED"
    by (auto simp: seg_append)
  have lo: "\<forall>x \<in> set as. x < b" using seg_bounds [OF as] by fastforce
  have hi: "\<forall>x \<in> set bs. ?n \<le> x \<and> x < MEM_SIZE_ALIGNED" using seg_bounds [OF bs] by fastforce
  have "seg (split_upd r b b2 u) p o' as p' b"
    using as lo b2 by (subst seg_cong [of _ _ r]) (auto simp: split_upd_def set_prev_def Let_def)
  moreover have "seg (split_upd r b b2 u) b2 ?n bs (if bs = [] then b2 else q) MEM_SIZE_ALIGNED"
    using hi b2 by (intro seg_reprev [OF bs]) (auto simp: split_upd_def set_prev_def Let_def)
  moreover have "blk_ok (split_upd r b b2 u) p' b \<and> blk_ok (split_upd r b b2 u) b b2"
      "m_next (split_upd r b b2 u b) = b2" "m_next (split_upd r b b2 u b2) = ?n"
    using b b2 u by (auto simp: split_upd_def set_prev_def Let_def blk_ok_def layout_simps)
  ultimately show ?thesis by (auto simp: seg_append)
qed

lemma seg_join:
  assumes "seg r p o' (as @ b # n # bs) q MEM_SIZE_ALIGNED"
  shows "seg (join_upd r b n) p o' (as @ b # bs) (if bs = [] then b else q) MEM_SIZE_ALIGNED"
proof -
  let ?n = "m_next (r n)"
  from assms(1) obtain p' where as: "seg r p o' as p' b" and b: "blk_ok r p' b" "n = m_next (r b)"
    "blk_ok r b n" and bs: "seg r n ?n bs q MEM_SIZE_ALIGNED"
    by (auto simp: seg_append)
  then have ge: "b < n" "n < ?n" by (auto simp: blk_ok_def layout_simps)
  have lo: "\<forall>x \<in> set as. x < b" using seg_bounds [OF as] by fastforce
  have hi: "\<forall>x \<in> set bs. ?n \<le> x \<and> x < MEM_SIZE_ALIGNED" using seg_bounds [OF bs] by fastforce
  have "seg (join_upd r b n) p o' as p' b"
    using as lo ge by (subst seg_cong [of _ _ r]) (auto simp: join_upd_def set_next_def set_prev_def Let_def)
  moreover have "seg (join_upd r b n) b ?n bs (if bs = [] then b else q) MEM_SIZE_ALIGNED"
    using hi ge by (intro seg_reprev [OF bs]) (auto simp: join_upd_def set_next_def set_prev_def Let_def)
  moreover have "blk_ok (join_upd r b n) p' b" "m_next (join_upd r b n b) = ?n"
    using b ge by (auto simp: join_upd_def set_next_def set_prev_def Let_def blk_ok_def layout_simps)
  ultimately show ?thesis by (auto simp: seg_append)
qed

lemma split_upd_used: "m_used (split_upd r b b2 u x) = (if x = b2 then 0 else if x = b then u else m_used (r x))"
  by (auto simp: split_upd_def set_prev_def Let_def)

lemma split_upd_next: "b \<noteq> b2 \<Longrightarrow> m_next (split_upd r b b2 u x) = (if x = b2 then m_next (r b) else if x = b then b2 else m_next (r x))"
  by (auto simp: split_upd_def set_prev_def Let_def)

lemma join_upd_used: "m_used (join_upd r b n x) = m_used (r x)"
  by (auto simp: join_upd_def set_prev_def set_next_def Let_def)

lemma join_upd_next: "m_next (join_upd r b n x) = (if x = b then m_next (r n) else m_next (r x))"
  by (auto simp: join_upd_def set_prev_def set_next_def Let_def)

lemmas upd_fields = split_upd_used split_upd_next join_upd_used join_upd_next

lemma seg_set_used:
  "u \<le> 1 \<Longrightarrow> seg r p b xs q e \<Longrightarrow> seg (set_used r x u) p b xs q e"
  by (induction xs arbitrary: p b) (auto simp: blk_ok_def set_used_def)

text \<open>The offsets around one block of a well-formed heap.\<close>

lemma blist_at:
  assumes "blist r (as @ b # bs)"
  shows "\<forall>x \<in> set as. x + 18 \<le> b" "b + 18 \<le> m_next (r b)" "m_next (r b) \<le> MEM_SIZE_ALIGNED"
    "\<forall>x \<in> set bs. m_next (r b) \<le> x \<and> x + 18 \<le> MEM_SIZE_ALIGNED"
    "m_used (r b) \<le> 1"
    "m_prev (r b) = (if as = [] then 0 else last as)"
    "as = [] \<Longrightarrow> b = 0"
    "as \<noteq> [] \<Longrightarrow> m_next (r (last as)) = b"
    "m_next (r b) = (if bs = [] then MEM_SIZE_ALIGNED else hd bs)"
    "bs \<noteq> [] \<Longrightarrow> m_prev (r (hd bs)) = b"
proof -
  from assms obtain p' where as: "seg r 0 0 as p' b" and b: "blk_ok r p' b"
    and bs: "seg r b (m_next (r b)) bs (last (as @ b # bs)) MEM_SIZE_ALIGNED"
    by (auto simp: blist_def seg_append)
  from seg_bounds [OF as] show "\<forall>x \<in> set as. x + 18 \<le> b" by blast
  from b show "b + 18 \<le> m_next (r b)" "m_used (r b) \<le> 1"
    by (auto simp: blk_ok_def layout_simps)
  from seg_bounds [OF bs] show "m_next (r b) \<le> MEM_SIZE_ALIGNED"
    "\<forall>x \<in> set bs. m_next (r b) \<le> x \<and> x + 18 \<le> MEM_SIZE_ALIGNED" by blast+
  from as show "as = [] \<Longrightarrow> b = 0" by simp
  from seg_last [OF as] show "as \<noteq> [] \<Longrightarrow> m_next (r (last as)) = b" by auto
  from as seg_last [OF as] b show "m_prev (r b) = (if as = [] then 0 else last as)"
    by (auto simp: blk_ok_def)
  from bs show "m_next (r b) = (if bs = [] then MEM_SIZE_ALIGNED else hd bs)"
    "bs \<noteq> [] \<Longrightarrow> m_prev (r (hd bs)) = b"
    by (cases bs; auto simp: blk_ok_def)+
qed

lemma core_blist: "heap_core s xs \<Longrightarrow> blist (ram s) xs"
  by (simp add: heap_core_def)

lemmas core_at = blist_at [OF core_blist]

lemma core_used_le: "heap_core s xs \<Longrightarrow> used_sum (ram s) xs \<le> MEM_SIZE_ALIGNED"
  using used_sum_le [of "ram s" 0 0 xs "last xs" MEM_SIZE_ALIGNED] by (simp add: heap_core_def blist_def)

text \<open>The block \<^verbatim>\<open>mem_malloc\<close> looks for: the first free one that is large enough.\<close>

definition fits :: "(nat \<Rightarrow> mem_hdr) \<Rightarrow> nat \<Rightarrow> nat \<Rightarrow> bool" where
  "fits r sz b \<longleftrightarrow> \<not> used r b \<and> sz + SIZEOF_STRUCT_MEM \<le> blk_len r b"

lemma scan_seg:
  assumes "seg r p b xs q MEM_SIZE_ALIGNED"
  shows "mem_malloc_scan r sz b = Some (find (fits r sz) xs)"
  using assms
proof (induction xs arbitrary: p b)
  case Nil
  then show ?case by (subst mem_malloc_scan.simps) auto
next
  case (Cons x xs)
  then have s: "seg r b (m_next (r b)) xs q MEM_SIZE_ALIGNED" and b: "x = b" "b + 18 \<le> m_next (r b)"
    by (auto simp: blk_ok_def layout_simps)
  from seg_bounds [OF s] have n: "m_next (r b) \<le> MEM_SIZE_ALIGNED" by blast
  show ?case
  proof (cases "b < MEM_SIZE_ALIGNED - sz")
    case True
    have "usub32 (m_next (r b)) (b + SIZEOF_STRUCT_MEM) = m_next (r b) - (b + SIZEOF_STRUCT_MEM)"
      using b n by (intro usub32_ge) (auto simp: layout_simps)
    then have "m_used (r b) = 0 \<and> usub32 (m_next (r b)) (b + SIZEOF_STRUCT_MEM) \<ge> sz \<longleftrightarrow> fits r sz b"
      using b by (auto simp: fits_def layout_simps)
    with True show ?thesis using b Cons.IH [OF s]
      by (subst mem_malloc_scan.simps) (simp only: if_True if_False find.simps split: if_split, simp)
  next
    case False
    have "fits r sz y \<Longrightarrow> y \<notin> set (x # xs)" for y
    proof
      assume f: "fits r sz y" and "y \<in> set (x # xs)"
      with seg_next_in [OF Cons.prems] seg_bounds [OF Cons.prems]
      have "b \<le> y" "m_next (r y) \<le> MEM_SIZE_ALIGNED" by fastforce+
      with f False show False by (auto simp: fits_def layout_simps)
    qed
    then have "find (fits r sz) (x # xs) = None" by (auto simp: find_None_iff)
    with False show ?thesis by (subst mem_malloc_scan.simps) simp
  qed
qed

lemma first_free_in: "first_free r xs \<noteq> MEM_SIZE_ALIGNED \<Longrightarrow> first_free r xs \<in> set xs \<and> \<not> used r (first_free r xs)"
  by (induction xs) (auto split: if_splits)

lemma first_free_MEM:
  "seg r p b xs q MEM_SIZE_ALIGNED \<Longrightarrow> first_free r xs = MEM_SIZE_ALIGNED \<longleftrightarrow> (\<forall>x \<in> set xs. used r x)"
proof (induction xs arbitrary: p b)
  case (Cons x xs)
  from seg_bounds [OF Cons.prems] have "x \<noteq> MEM_SIZE_ALIGNED" by auto
  with Cons show ?case by auto
qed simp

lemma find_skip: "(\<And>x. x \<in> set as \<Longrightarrow> \<not> P x) \<Longrightarrow> find P (as @ bs) = find P bs"
  by (induction as) auto

lemma scan_from_lfree:
  assumes "heap_shape s xs"
  shows "mem_malloc_scan (ram s) sz (lfree s) = Some (find (fits (ram s) sz) xs)"
proof -
  from assms have s: "seg (ram s) 0 0 xs (last xs) MEM_SIZE_ALIGNED" and l: "lfree s = first_free (ram s) xs"
    by (auto simp: heap_shape_def heap_core_def blist_def)
  let ?as = "takeWhile (used (ram s)) xs" and ?bs = "dropWhile (used (ram s)) xs"
  from s obtain p b where bs: "seg (ram s) p b ?bs (last xs) MEM_SIZE_ALIGNED"
    by (subst (asm) takeWhile_dropWhile_id [symmetric, of _ "used (ram s)"]) (auto simp only: seg_append)
  then have "b = (case ?bs of [] \<Rightarrow> MEM_SIZE_ALIGNED | x # _ \<Rightarrow> x)"
    by (cases ?bs) (simp_all only: seg.simps list.case)
  then have "b = lfree s" using l by (simp only: first_free_def)
  with scan_seg [OF bs] have "mem_malloc_scan (ram s) sz (lfree s) = Some (find (fits (ram s) sz) ?bs)"
    by simp
  also have "find (fits (ram s) sz) ?bs = find (fits (ram s) sz) (?as @ ?bs)"
    by (rule find_skip [symmetric]) (auto dest: set_takeWhileD simp: fits_def)
  finally show ?thesis by simp
qed

lemma lfree_scan_seg:
  assumes "seg r p b xs q MEM_SIZE_ALIGNED" "m_used (r MEM_SIZE_ALIGNED) \<noteq> 0"
  shows "mem_lfree_scan r MEM_SIZE_ALIGNED b = Some (first_free r xs)"
  using assms
proof (induction xs arbitrary: p b)
  case Nil
  then show ?case by (subst mem_lfree_scan.simps) auto
next
  case (Cons x xs)
  with seg_bounds [OF Cons.prems(1)] have "b \<noteq> MEM_SIZE_ALIGNED" by auto
  with Cons show ?case by (subst mem_lfree_scan.simps) auto
qed



text \<open>
  The abstract view of the heap: the allocations that are live, as a map from the pointers
  handed out to the number of octets that belong to them.
\<close>

definition live_in :: "(nat \<Rightarrow> mem_hdr) \<Rightarrow> nat list \<Rightarrow> int \<Rightarrow> nat option" where
  "live_in r xs a = (let b = nat (a - int SIZEOF_STRUCT_MEM) in
     if int SIZEOF_STRUCT_MEM \<le> a \<and> b \<in> set xs \<and> used r b
     then Some (blk_len r b - SIZEOF_STRUCT_MEM) else None)"

definition live :: "'a heap_scheme \<Rightarrow> int \<Rightarrow> nat option" where
  "live s = live_in (ram s) (blocks (ram s))"

lemma live_shape: "heap_shape s xs \<Longrightarrow> live s = live_in (ram s) xs"
  by (simp add: live_def heap_shape_blocks)

lemma live_in_eqI:
  assumes "\<And>x. x \<noteq> b \<Longrightarrow> (x \<in> set xs' \<and> used r' x) = (x \<in> set xs \<and> used r x)"
    and "\<And>x. x \<noteq> b \<Longrightarrow> x \<in> set xs \<Longrightarrow> used r x \<Longrightarrow> m_next (r' x) = m_next (r x)"
  shows "live_in r' xs' = (live_in r xs)(int b + int SIZEOF_STRUCT_MEM :=
    (if b \<in> set xs' \<and> used r' b then Some (blk_len r' b - SIZEOF_STRUCT_MEM) else None))"
proof
  fix a
  let ?b = "nat (a - int SIZEOF_STRUCT_MEM)"
  show "live_in r' xs' a = ((live_in r xs)(int b + int SIZEOF_STRUCT_MEM :=
    (if b \<in> set xs' \<and> used r' b then Some (blk_len r' b - SIZEOF_STRUCT_MEM) else None))) a"
  proof (cases "?b = b \<and> int SIZEOF_STRUCT_MEM \<le> a")
    case True
    then have "a = int b + int SIZEOF_STRUCT_MEM" by auto
    then show ?thesis by (auto simp: live_in_def)
  next
    case False
    then have "a \<noteq> int b + int SIZEOF_STRUCT_MEM" by auto
    moreover have "live_in r' xs' a = live_in r xs a"
      using False assms [of ?b] unfolding live_in_def Let_def by (cases "int SIZEOF_STRUCT_MEM \<le> a") auto
    ultimately show ?thesis by simp
  qed
qed

text \<open>Everything a split of block \<open>b\<close> at \<open>b2\<close> does to the block list.\<close>

lemma split_list_ok:
  assumes bl: "blist r (as @ b # bs)" and b2: "b + 18 \<le> b2" "b2 + 18 \<le> m_next (r b)"
    and np: "no_free_pair r as" "no_free_pair r bs" "bs \<noteq> [] \<longrightarrow> used r (hd bs)"
    and r': "r' = split_upd r b b2 1"
  shows "blist r' (as @ b # b2 # bs)" "no_free_pair r' (as @ b # b2 # bs)" "used r' b"
    "used_sum r' (as @ b # b2 # bs) = used_sum r as + used_sum r bs + (b2 - b)"
    "live_in r' (as @ b # b2 # bs) = (live_in r (as @ b # bs))(int b + 6 \<mapsto> b2 - b - 6)"
    "first_free r' (as @ b # b2 # bs) = (if \<forall>x \<in> set as. used r x then b2 else first_free r as)"
    "\<And>x. x \<in> set as \<union> set bs \<Longrightarrow> m_used (r' x) = m_used (r x) \<and> m_next (r' x) = m_next (r x)"
    "r' MEM_SIZE_ALIGNED = r MEM_SIZE_ALIGNED"
proof -
  note f = blist_at [OF bl]
  have nz: "b \<noteq> b2" "b < b2" using b2 by auto
  show fs: "m_used (r' x) = m_used (r x) \<and> m_next (r' x) = m_next (r x)" if "x \<in> set as \<union> set bs" for x
    using that f(1,4) b2 by (force simp: upd_fields r')
  have hb: "used r' b" "\<not> used r' b2" "m_next (r' b) = b2" using nz by (auto simp: upd_fields r')
  then show "used r' b" by simp
  have cong: "no_free_pair r' as = no_free_pair r as" "no_free_pair r' bs = no_free_pair r bs"
    "used_sum r' as = used_sum r as" "used_sum r' bs = used_sum r bs" "first_free r' as = first_free r as"
    using fs by (auto intro!: no_free_pair_cong used_sum_cong first_free_cong)
  show "blist r' (as @ b # b2 # bs)"
    using seg_split [of r 0 0 as b bs "last (as @ b # bs)" b2 1] bl b2
    by (simp add: blist_def r' split: if_splits)
  show "no_free_pair r' (as @ b # b2 # bs)"
    using np fs hb cong by (cases bs) (auto simp: no_free_pair_append)
  show "used_sum r' (as @ b # b2 # bs) = used_sum r as + used_sum r bs + (b2 - b)"
    using cong hb by simp
  show "live_in r' (as @ b # b2 # bs) = (live_in r (as @ b # bs))(int b + 6 \<mapsto> b2 - b - 6)"
    by (subst live_in_eqI [of b _ r' "as @ b # bs" r]) (use fs hb in \<open>auto simp: layout_simps\<close>)
  show "first_free r' (as @ b # b2 # bs) = (if \<forall>x \<in> set as. used r x then b2 else first_free r as)"
    using fs cong hb by (auto simp: first_free_append)
  show "r' MEM_SIZE_ALIGNED = r MEM_SIZE_ALIGNED"
    using f(3) b2 by (auto simp: r' split_upd_def set_prev_def Let_def)
qed

lemma stats_inc_heap [simp]:
  "ram (MEM_STATS_INC_USED y s) = ram s" "lfree (MEM_STATS_INC_USED y s) = lfree s"
  "ram_end (MEM_STATS_INC_USED y s) = ram_end s" "mst_used (MEM_STATS_INC_USED y s) = u16c (mst_used s + y)"
  "octet (MEM_STATS_INC_USED y s) = octet s" "diag (MEM_STATS_INC_USED y s) = diag s"
  by (simp_all add: MEM_STATS_INC_USED_def Let_def)

lemma stats_dec_heap [simp]:
  "ram (MEM_STATS_DEC_USED y s) = ram s" "lfree (MEM_STATS_DEC_USED y s) = lfree s"
  "ram_end (MEM_STATS_DEC_USED y s) = ram_end s"
  "mst_used (MEM_STATS_DEC_USED y s) = u16c (usub32 (mst_used s) y)"
  "octet (MEM_STATS_DEC_USED y s) = octet s" "diag (MEM_STATS_DEC_USED y s) = diag s"
  by (simp_all add: MEM_STATS_DEC_USED_def)

lemma take_split_eq:
  assumes "heap_core s (as @ b # bs)" "sz + 24 \<le> blk_len (ram s) b" "12 \<le> sz"
  shows "mem_malloc_take sz b s =
    MEM_STATS_INC_USED (sz + SIZEOF_STRUCT_MEM) (s\<lparr>ram := split_upd (ram s) b (b + 6 + sz) 1\<rparr>)"
proof -
  note f = core_at [OF assms(1)]
  have "usub32 (m_next (ram s b)) (b + SIZEOF_STRUCT_MEM) = m_next (ram s b) - (b + 6)"
    using f by (subst usub32_ge) (auto simp: layout_simps)
  then have big: "sz + SIZEOF_STRUCT_MEM + MIN_SIZE_ALIGNED \<le> usub32 (m_next (ram s b)) (b + SIZEOF_STRUCT_MEM)"
    using assms(2) f(2) by (simp add: layout_simps)
  have p2: "u16c (b + SIZEOF_STRUCT_MEM + sz) = b + 6 + sz" "b + 6 + sz \<noteq> MEM_SIZE_ALIGNED"
    using f(2,3) assms(2) by (auto simp: layout_simps intro!: u16c_id)
  have n: "m_next (ram s b) \<noteq> b + 6 + sz" "m_next (ram s b) \<noteq> b" using assms(2,3) f(2) by auto
  show ?thesis
    using n by (simp add: mem_malloc_take_def Let_def big p2 del: u16c_id)
      (auto simp: split_upd_def set_used_def set_next_def set_prev_def Let_def fun_eq_iff
        intro!: arg_cong [where f = "MEM_STATS_INC_USED (sz + SIZEOF_STRUCT_MEM)"])
qed

lemma take_whole_eq:
  assumes "heap_core s (as @ b # bs)" "blk_len (ram s) b < sz + 24" "12 \<le> sz" "sz + 6 \<le> blk_len (ram s) b"
  shows "mem_malloc_take sz b s =
    MEM_STATS_INC_USED (blk_len (ram s) b) (s\<lparr>ram := set_used (ram s) b 1\<rparr>)"
proof -
  note f = core_at [OF assms(1)]
  have "usub32 (m_next (ram s b)) (b + SIZEOF_STRUCT_MEM) = m_next (ram s b) - (b + 6)"
    using f by (subst usub32_ge) (auto simp: layout_simps)
  moreover have "usub32 (m_next (set_used (ram s) b 1 b)) b = blk_len (ram s) b"
    using f by (subst usub32_ge) (auto simp: layout_simps set_used_def)
  ultimately show ?thesis using assms f
    by (auto simp: mem_malloc_take_def Let_def layout_simps)
qed

text \<open>The contract of the step that takes a block, whichever way it is done.\<close>

definition taken :: "nat \<Rightarrow> nat list \<Rightarrow> nat \<Rightarrow> nat list \<Rightarrow> 'a heap_scheme \<Rightarrow> 'a heap_scheme \<Rightarrow> bool" where
  "taken sz as b bs s s' \<longleftrightarrow> heap_core s' (as @ b # bs) \<and> no_free_pair (ram s') (as @ b # bs) \<and>
     used (ram s') b \<and> (\<forall>x \<in> set as. m_used (ram s' x) = m_used (ram s x)) \<and>
     (\<exists>len. sz \<le> len \<and> live_in (ram s') (as @ b # bs) = (live s)(int b + 6 \<mapsto> len) \<and> b + 6 + len \<le> MEM_SIZE_ALIGNED) \<and>
     lfree s' = lfree s \<and> octet s' = octet s \<and> diag s' = diag s"

lemma takenI:
  assumes "heap_core s (as @ b # bs)" and "y \<le> MEM_SIZE_ALIGNED"
    and "seg r 0 0 (as @ b # bs') (last (as @ b # bs')) MEM_SIZE_ALIGNED"
    and "no_free_pair r (as @ b # bs')"
    and "used_sum r (as @ b # bs') = used_sum (ram s) (as @ b # bs) + y"
    and "live_in r (as @ b # bs') = (live s)(int b + 6 \<mapsto> len)" "sz \<le> len" "b + 6 + len \<le> MEM_SIZE_ALIGNED"
    and "used r b" "\<And>x. x \<in> set as \<union> set bs \<Longrightarrow> m_used (r x) = m_used (ram s x) \<and> m_next (r x) = m_next (ram s x)"
    and "r MEM_SIZE_ALIGNED = ram s MEM_SIZE_ALIGNED"
  shows "taken sz as b bs' s (MEM_STATS_INC_USED y (s\<lparr>ram := r\<rparr>))"
proof -
  have "mst_used s + y < 65536"
    using core_used_le [OF assms(1)] assms(1,2) by (simp add: heap_core_def layout_simps)
  with assms show ?thesis by (auto simp: taken_def heap_core_def blist_def)
qed

lemma take_split_ok:
  assumes h: "heap_shape s (as @ b # bs)" and nu: "\<not> used (ram s) b"
    and sz: "sz + 24 \<le> blk_len (ram s) b" "12 \<le> sz"
  shows "taken sz as b ((b + 6 + sz) # bs) s (mem_malloc_take sz b s)"
proof -
  from h have c: "heap_core s (as @ b # bs)" by (simp add: heap_shape_def)
  note f = core_at [OF c]
  have np: "no_free_pair (ram s) as" "no_free_pair (ram s) bs" "bs \<noteq> [] \<longrightarrow> used (ram s) (hd bs)"
    using h nu by (cases bs; auto simp: heap_shape_def no_free_pair_append)+
  have b2: "b + 18 \<le> b + 6 + sz" "b + 6 + sz + 18 \<le> m_next (ram s b)" using sz f(2) by auto
  note sp = split_list_ok [OF core_blist [OF c] b2 np refl]
  show ?thesis
    unfolding take_split_eq [OF c sz] SIZEOF_STRUCT_MEM_def align_size_id
    using sp f(3) b2 nu by (intro takenI [OF c]) (auto simp: blist_def live_shape [OF h])
qed

lemma take_whole_ok:
  assumes h: "heap_shape s (as @ b # bs)" and "\<not> used (ram s) b" "blk_len (ram s) b < sz + 24" "12 \<le> sz"
    "sz + 6 \<le> blk_len (ram s) b"
  shows "taken sz as b bs s (mem_malloc_take sz b s)"
proof -
  let ?r = "set_used (ram s) b 1"
  from h have c: "heap_core s (as @ b # bs)" by (simp add: heap_shape_def)
  note f = core_at [OF c]
  have fs: "m_used (?r x) = m_used (ram s x) \<and> m_next (?r x) = m_next (ram s x)"
    if "x \<in> set as \<union> set bs" for x
    using that f(1,2,4) by (force simp: set_used_def)
  have hb: "used ?r b" "m_next (?r b) = m_next (ram s b)" by (auto simp: set_used_def)
  have sg: "seg ?r 0 0 (as @ b # bs) (last (as @ b # bs)) MEM_SIZE_ALIGNED"
    using c by (simp add: heap_core_def blist_def seg_set_used)
  have np: "no_free_pair ?r (as @ b # bs)"
  proof -
    have "no_free_pair ?r as = no_free_pair (ram s) as" "no_free_pair ?r bs = no_free_pair (ram s) bs"
      using fs by (auto intro!: no_free_pair_cong)
    then show ?thesis using h hb
      by (cases bs) (auto simp: no_free_pair_append heap_shape_def)
  qed
  have us: "used_sum ?r (as @ b # bs) = used_sum (ram s) (as @ b # bs) + blk_len (ram s) b"
  proof -
    have "used_sum ?r as = used_sum (ram s) as" "used_sum ?r bs = used_sum (ram s) bs"
      using fs by (auto intro!: used_sum_cong)
    then show ?thesis using assms(2) hb by simp
  qed
  have lv: "live_in ?r (as @ b # bs) = (live s)(int b + 6 \<mapsto> blk_len (ram s) b - 6)"
    unfolding live_shape [OF h]
    by (subst live_in_eqI [of b _ ?r "as @ b # bs" "ram s"]) (use fs hb in \<open>auto simp: layout_simps\<close>)
  have "?r MEM_SIZE_ALIGNED = ram s MEM_SIZE_ALIGNED" "blk_len (ram s) b \<le> MEM_SIZE_ALIGNED"
    "b + 6 + (blk_len (ram s) b - 6) \<le> MEM_SIZE_ALIGNED"
    using f(2,3) by (auto simp: set_used_def)
  with sg np us lv hb fs assms(5) show ?thesis
    unfolding take_whole_eq [OF c assms(3-5)] by (intro takenI [OF c]) auto
qed


abbreviation mem_request :: "nat \<Rightarrow> nat" where
  "mem_request n \<equiv> max n MIN_SIZE_ALIGNED"

lemma taken_first_free:
  assumes h: "heap_shape s (as @ b # bs)" and t: "taken sz as b bs' s s'" and fr: "\<not> used (ram s) b"
  shows "first_free (ram s') (as @ b # bs') = (if b = lfree s then first_free (ram s') bs' else lfree s)"
proof -
  from t have u: "used (ram s') b" and as: "\<forall>x \<in> set as. m_used (ram s' x) = m_used (ram s x)"
    by (auto simp: taken_def)
  from h have c: "heap_core s (as @ b # bs)" and l: "lfree s = first_free (ram s) (as @ b # bs)"
    by (auto simp: heap_shape_def)
  note f = core_at [OF c]
  show ?thesis
  proof (cases "\<forall>x \<in> set as. used (ram s) x")
    case True
    then show ?thesis using l u as fr by (auto simp: first_free_append)
  next
    case False
    then have eq: "lfree s = first_free (ram s) as" using l by (auto simp: first_free_append)
    also have "\<dots> = first_free (ram s') as" using as by (intro first_free_cong) auto
    finally have "lfree s = first_free (ram s') as" .
    moreover have "first_free (ram s) as \<in> set as"
      using False by (induction as) auto
    then have "lfree s < b" using eq f(1) by auto
    ultimately show ?thesis using False as by (auto simp: first_free_append)
  qed
qed

lemma taken_rescan:
  assumes "taken sz as b bs s s'"
  shows "mem_lfree_scan (ram s') (ram_end s') b = Some (first_free (ram s') bs)"
proof -
  from assms have c: "heap_core s' (as @ b # bs)" and u: "used (ram s') b" by (auto simp: taken_def)
  then obtain p q where "seg (ram s') p b (b # bs) q MEM_SIZE_ALIGNED"
    by (auto simp: heap_core_def blist_def seg_append)
  then show ?thesis using c u lfree_scan_seg [of "ram s'" p b "b # bs" q]
    by (auto simp: heap_core_def)
qed

lemma take_block:
  assumes h: "heap_shape s (as @ b # bs)" and "fits (ram s) sz b" "12 \<le> sz"
  obtains bs' where "taken sz as b bs' s (mem_malloc_take sz b s)"
  using take_split_ok [OF h, of sz] take_whole_ok [OF h, of sz] assms
  by (cases "sz + 24 \<le> blk_len (ram s) b") (auto simp: fits_def layout_simps)

lemma malloc_eq:
  assumes "0 < n" "n \<le> MEM_SIZE_ALIGNED"
  shows "mem_malloc n s = do {
    found \<leftarrow> mem_malloc_scan (ram s) (mem_request n) (lfree s);
    (case found of None \<Rightarrow> Some (None, MEM_STATS_INC_err s)
     | Some ptr \<Rightarrow> mem_malloc_finish (mem_request n) ptr (mem_malloc_take (mem_request n) ptr s)) }"
proof -
  have "u16c (LWIP_MEM_ALIGN_SIZE n) = n" using assms by (simp add: layout_simps)
  moreover have "(if n < MIN_SIZE_ALIGNED then MIN_SIZE_ALIGNED else n) = mem_request n" by auto
  moreover have "\<not> mem_request n > MEM_SIZE_ALIGNED" "\<not> mem_request n < n"
    using assms by (simp_all add: layout_simps)
  ultimately show ?thesis using assms by (simp only: mem_malloc_def Let_def) simp
qed

lemma malloc_found:
  assumes h: "heap_shape s (as @ b # bs)" and fit: "fits (ram s) (mem_request n) b"
    and fd: "find (fits (ram s) (mem_request n)) (as @ b # bs) = Some b" and n: "0 < n" "n \<le> MEM_SIZE_ALIGNED"
  obtains s' len where "mem_malloc n s = Some (Some (int b + 6), s')" "heap_inv s'"
    "live s' = (live s)(int b + 6 \<mapsto> len)" "mem_request n \<le> len" "b + 6 + len \<le> MEM_SIZE_ALIGNED"
    "octet s' = octet s" "diag s' = diag s"
proof -
  let ?sz = "mem_request n"
  obtain bs' where t: "taken ?sz as b bs' s (mem_malloc_take ?sz b s)"
    using take_block [OF h fit] by (auto simp: layout_simps)
  define s1 where "s1 = mem_malloc_take ?sz b s"
  let ?ff = "first_free (ram s1) (as @ b # bs')"
  have t1: "taken ?sz as b bs' s s1" using t by (simp add: s1_def)
  then obtain len where c1: "heap_core s1 (as @ b # bs')" and np: "no_free_pair (ram s1) (as @ b # bs')"
    and len: "?sz \<le> len" "b + 6 + len \<le> MEM_SIZE_ALIGNED"
    and lv: "live_in (ram s1) (as @ b # bs') = (live s)(int b + 6 \<mapsto> len)"
    and eqs: "lfree s1 = lfree s" "octet s1 = octet s" "diag s1 = diag s"
    by (auto simp: taken_def)
  have nu: "\<not> used (ram s) b" using fit by (simp add: fits_def)
  define s2 where "s2 = s1\<lparr>lfree := ?ff\<rparr>"
  have hs: "heap_shape s2 (as @ b # bs')"
    using c1 np by (simp add: heap_shape_def heap_core_def s2_def)
  have re: "ram_end s1 = MEM_SIZE_ALIGNED" using c1 by (simp add: heap_core_def)
  have asrt: "first_free (ram s1) bs' = MEM_SIZE_ALIGNED \<or> m_used (ram s1 (first_free (ram s1) bs')) = 0"
    using first_free_in [of "ram s1" bs'] by blast
  have fin: "mem_malloc_finish ?sz b s1 = Some (Some (int b + 6), s2)"
    using len asrt re eqs taken_rescan [OF t1] taken_first_free [OF h t1 nu]
    by (auto simp: mem_malloc_finish_def Let_def s2_def SIZEOF_STRUCT_MEM_def)
  have "mem_malloc n s = Some (Some (int b + 6), s2)"
    using fd scan_from_lfree [OF h, of ?sz] fin by (simp add: malloc_eq [OF n] s1_def)
  moreover have "live s2 = (live s)(int b + 6 \<mapsto> len)" using lv live_shape [OF hs] by (simp add: s2_def)
  ultimately show ?thesis using that heap_invI [OF hs] len eqs by (simp add: s2_def)
qed

lemma malloc_refused:
  assumes h: "heap_shape s xs" and "n = 0 \<or> n > MEM_SIZE_ALIGNED"
  shows "mem_malloc n s = Some (None, s)"
  using assms by (auto simp: mem_malloc_def Let_def u16c_def layout_simps)

lemma malloc_full:
  assumes h: "heap_shape s xs" and fd: "find (fits (ram s) (mem_request n)) xs = None"
    and n: "0 < n" "n \<le> MEM_SIZE_ALIGNED"
  shows "mem_malloc n s = Some (None, MEM_STATS_INC_err s)"
  using fd scan_from_lfree [OF h, of "mem_request n"] by (simp add: malloc_eq [OF n])

lemma heap_inv_frame:
  assumes "ram s' = ram s" "lfree s' = lfree s" "ram_end s' = ram_end s" "mst_used s' = mst_used s"
  shows "heap_inv s' = heap_inv s" "live s' = live s"
  using assms by (simp_all add: heap_inv_def heap_shape_def heap_core_def live_def)

lemma heap_inv_stats [simp]:
  "heap_inv (MEM_STATS_INC_err s) = heap_inv s" "live (MEM_STATS_INC_err s) = live s"
  "octet (MEM_STATS_INC_err s) = octet s" "diag (MEM_STATS_INC_err s) = diag s"
  "heap_inv (MEM_STATS_INC_illegal s) = heap_inv s" "live (MEM_STATS_INC_illegal s) = live s"
  "octet (MEM_STATS_INC_illegal s) = octet s" "diag (MEM_STATS_INC_illegal s) = diag s"
  by (simp_all add: MEM_STATS_INC_err_def MEM_STATS_INC_illegal_def heap_inv_def live_def heap_shape_def
      heap_core_def)

text \<open>
  The contract of \<^verbatim>\<open>mem_malloc\<close> on a well-formed heap: it returns, it prints
  nothing, it keeps the heap well-formed, and it fails exactly when no free block is large enough.
\<close>

lemma mem_malloc_ok:
  assumes "heap_inv s"
  shows "\<exists>p s'. mem_malloc n s = Some (p, s') \<and> heap_inv s' \<and> octet s' = octet s \<and> diag s' = diag s \<and>
    p = (if n = 0 then None
         else map_option (\<lambda>b. int b + 6) (find (fits (ram s) (mem_request n)) (blocks (ram s)))) \<and>
    (case p of None \<Rightarrow> live s' = live s
     | Some a \<Rightarrow> live s a = None \<and> (\<exists>len. n \<le> len \<and> live s' = (live s)(a \<mapsto> len)))"
proof -
  let ?xs = "blocks (ram s)" and ?P = "fits (ram s) (mem_request n)"
  from assms have h: "heap_shape s ?xs" by (simp add: heap_inv_def)
  have big: "\<not> ?P b" if "n > MEM_SIZE_ALIGNED" "b \<in> set ?xs" for b
  proof -
    from that(2) obtain as bs where "?xs = as @ b # bs" by (rule in_set_split)
    with h core_at(3) [of s as b bs] that(1) show ?thesis by (auto simp: heap_shape_def fits_def)
  qed
  consider "n = 0 \<or> n > MEM_SIZE_ALIGNED" | "0 < n" "n \<le> MEM_SIZE_ALIGNED" "find ?P ?xs = None"
    | b where "0 < n" "n \<le> MEM_SIZE_ALIGNED" "find ?P ?xs = Some b"
    by (cases "find ?P ?xs") force+
  then show ?thesis
  proof cases
    case 1
    then have "n \<noteq> 0 \<Longrightarrow> find ?P ?xs = None" using big by (auto simp: find_None_iff)
    with 1 malloc_refused [OF h, of n] assms show ?thesis by auto
  next
    case 2
    with malloc_full [OF h, of n] assms show ?thesis by auto
  next
    case 3
    then have "b \<in> set ?xs" and fit: "?P b" by (auto simp: find_Some_iff)
    then obtain as bs where xs: "?xs = as @ b # bs" by (auto elim: in_set_split)
    then obtain s' len where s': "mem_malloc n s = Some (Some (int b + 6), s')" "heap_inv s'"
      "live s' = (live s)(int b + 6 \<mapsto> len)" "mem_request n \<le> len" "octet s' = octet s" "diag s' = diag s"
      using malloc_found [of s as b bs n] h fit 3 by metis
    moreover have "live s (int b + 6) = None" using fit by (simp add: live_def live_in_def fits_def layout_simps)
    ultimately show ?thesis using 3 by auto
  qed
qed

lemma join_ok:
  assumes c: "heap_core s (as @ b # n # bs)" and "\<not> used (ram s) b" "\<not> used (ram s) n"
  shows "heap_core (s\<lparr>ram := join_upd (ram s) b n\<rparr>) (as @ b # bs)"
    "live_in (join_upd (ram s) b n) (as @ b # bs) = live_in (ram s) (as @ b # n # bs)"
    "first_free (join_upd (ram s) b n) (as @ b # bs) = first_free (ram s) (as @ b # n # bs)"
    "no_free_pair (join_upd (ram s) b n) xs = no_free_pair (ram s) xs"
proof -
  let ?r = "join_upd (ram s) b n"
  note f = core_at [OF c]
  have sg: "seg ?r 0 0 (as @ b # bs) (last (as @ b # bs)) MEM_SIZE_ALIGNED"
    using seg_join [of "ram s" 0 0 as b n bs "last (as @ b # n # bs)"] c
    by (simp add: heap_core_def blist_def split: if_splits)
  have us: "used_sum ?r (as @ b # bs) = used_sum (ram s) (as @ b # n # bs)"
  proof -
    have "b \<notin> set as \<union> set bs" using f(1,2,4) by force
    then have "used_sum ?r as = used_sum (ram s) as" "used_sum ?r bs = used_sum (ram s) bs"
      by (auto intro!: used_sum_cong simp: upd_fields)
    then show ?thesis using assms by (simp add: upd_fields)
  qed
  have "?r MEM_SIZE_ALIGNED = ram s MEM_SIZE_ALIGNED"
    using f(2,3) by (auto simp: join_upd_def set_next_def set_prev_def Let_def)
  with sg us c show "heap_core (s\<lparr>ram := ?r\<rparr>) (as @ b # bs)" by (simp add: heap_core_def blist_def)
  show "live_in ?r (as @ b # bs) = live_in (ram s) (as @ b # n # bs)"
  proof
    show "live_in ?r (as @ b # bs) a = live_in (ram s) (as @ b # n # bs) a" for a
      using assms(2,3) by (cases "nat (a - int SIZEOF_STRUCT_MEM) = b")
        (auto simp: live_in_def upd_fields Let_def)
  qed
  show "no_free_pair ?r xs = no_free_pair (ram s) xs" by (intro no_free_pair_cong) (simp add: upd_fields)
  have "first_free ?r as = first_free (ram s) as" by (intro first_free_cong) (simp add: upd_fields)
  then show "first_free ?r (as @ b # bs) = first_free (ram s) (as @ b # n # bs)"
    using assms(2) by (auto simp: first_free_append upd_fields)
qed

text \<open>What holds of a block that has just been marked free, before its neighbours are joined.\<close>

definition freed_at :: "'a heap_scheme \<Rightarrow> nat list \<Rightarrow> nat \<Rightarrow> nat list \<Rightarrow> bool" where
  "freed_at s as b bs \<longleftrightarrow> heap_core s (as @ b # bs) \<and> \<not> used (ram s) b \<and>
     lfree s = first_free (ram s) (as @ b # bs) \<and> no_free_pair (ram s) as \<and> no_free_pair (ram s) bs"

lemma plug_next_eq:
  assumes "m_next (ram s b) = n" "b \<noteq> n" "\<not> used (ram s) n" "n \<noteq> ram_end s" "lfree s \<noteq> n"
  shows "plug_next b s = s\<lparr>ram := join_upd (ram s) b n\<rparr>"
  using assms by (simp add: plug_next_def join_upd_def set_next_def Let_def)

lemma plug_prev_eq:
  assumes "m_prev (ram s b) = a" "a \<noteq> b" "\<not> used (ram s) a" "lfree s \<noteq> b"
  shows "plug_prev b s = s\<lparr>ram := join_upd (ram s) a b\<rparr>"
  using assms by (simp add: plug_prev_def join_upd_def set_next_def Let_def)

lemma first_free_upto:
  "\<not> used r b \<Longrightarrow> first_free r (as @ b # bs) \<in> insert b (set as)"
  "x \<in> set as \<Longrightarrow> \<not> used r x \<Longrightarrow> first_free r (as @ bs) \<in> set as"
  by (induction as) auto

lemma plug_next_ok:
  assumes "freed_at s as b bs"
  obtains bs' where "freed_at (plug_next b s) as b bs'" "bs' \<noteq> [] \<Longrightarrow> used (ram (plug_next b s)) (hd bs')"
    "live_in (ram (plug_next b s)) (as @ b # bs') = live_in (ram s) (as @ b # bs)"
    "octet (plug_next b s) = octet s" "diag (plug_next b s) = diag s"
proof -
  from assms have c: "heap_core s (as @ b # bs)" and nu: "\<not> used (ram s) b"
    and l: "lfree s = first_free (ram s) (as @ b # bs)" and np: "no_free_pair (ram s) as" "no_free_pair (ram s) bs"
    by (auto simp: freed_at_def)
  note f = core_at [OF c]
  have re: "ram_end s = MEM_SIZE_ALIGNED" "used (ram s) MEM_SIZE_ALIGNED" using c by (auto simp: heap_core_def)
  show ?thesis
  proof (cases "bs \<noteq> [] \<and> \<not> used (ram s) (hd bs)")
    case False
    then have "plug_next b s = s" using f(9) re by (auto simp: plug_next_def Let_def)
    with False assms that [of bs] show ?thesis by auto
  next
    case True
    then obtain n bs' where bs: "bs = n # bs'" and n: "\<not> used (ram s) n" by (cases bs) auto
    then have nn: "m_next (ram s b) = n" "b < n" "n \<noteq> ram_end s" using f(2,4,9) re by auto
    have "lfree s \<noteq> n"
      using first_free_upto(1) [of "ram s" b as bs] nu l nn(2) f(1) by fastforce
    then have "plug_next b s = s\<lparr>ram := join_upd (ram s) b n\<rparr>"
      using nn n by (intro plug_next_eq) auto
    moreover have "bs' \<noteq> [] \<Longrightarrow> used (ram s) (hd bs')" "no_free_pair (ram s) bs'"
      using np(2) bs n by (cases bs'; simp)+
    ultimately show ?thesis using that [of bs'] join_ok [OF c [unfolded bs] nu n] l np nu bs
      by (simp add: freed_at_def upd_fields)
  qed
qed

lemma plug_prev_ok:
  assumes "freed_at s as b bs" and hd: "bs \<noteq> [] \<Longrightarrow> used (ram s) (hd bs)"
  obtains xs where "heap_shape (plug_prev b s) xs"
    "live_in (ram (plug_prev b s)) xs = live_in (ram s) (as @ b # bs)"
    "octet (plug_prev b s) = octet s" "diag (plug_prev b s) = diag s"
proof -
  from assms have c: "heap_core s (as @ b # bs)" and nu: "\<not> used (ram s) b"
    and l: "lfree s = first_free (ram s) (as @ b # bs)" and np: "no_free_pair (ram s) as" "no_free_pair (ram s) bs"
    by (auto simp: freed_at_def)
  note f = core_at [OF c]
  have npb: "no_free_pair (ram s) (b # bs)" using np(2) hd by (cases bs) auto
  show ?thesis
  proof (cases "as \<noteq> [] \<and> \<not> used (ram s) (last as)")
    case False
    then have "plug_prev b s = s" using f(6,7) by (cases "as = []") (auto simp: plug_prev_def Let_def)
    moreover have "heap_shape s (as @ b # bs)"
      using c l np npb False by (auto simp: heap_shape_def no_free_pair_append)
    ultimately show ?thesis using that [of "as @ b # bs"] by simp
  next
    case True
    then obtain a as' where as: "as = as' @ [a]" and a: "\<not> used (ram s) a" by (cases as rule: rev_cases) auto
    then have pp: "m_prev (ram s b) = a" "a < b" using f(1,6) by auto
    have "lfree s \<noteq> b" 
      using first_free_upto(2) [of a as "ram s" "b # bs"] l a as f(1) by fastforce
    then have eq: "plug_prev b s = s\<lparr>ram := join_upd (ram s) a b\<rparr>"
      using pp a by (intro plug_prev_eq) auto
    have c': "heap_core s (as' @ a # b # bs)" using c as by simp
    have "no_free_pair (ram s) (as' @ a # bs)"
      using np hd as a by (cases bs) (auto simp: no_free_pair_append)
    then show ?thesis using that [of "as' @ a # bs"] join_ok [OF c' a nu] l as eq
      by (simp add: heap_shape_def)
  qed
qed

lemma plug_holes_eq:
  assumes "freed_at s as b bs"
  shows "plug_holes b s = plug_prev b (plug_next b s)"
proof -
  from assms have c: "heap_core s (as @ b # bs)" and nu: "m_used (ram s b) = 0" by (auto simp: freed_at_def)
  note f = core_at [OF c]
  have "b < ram_end s" "m_next (ram s b) \<le> MEM_SIZE_ALIGNED" using f(2,3) c by (auto simp: heap_core_def)
  with nu show ?thesis by (simp add: plug_holes_def Let_def)
qed

lemma plug_holes_ok:
  assumes "freed_at s as b bs"
  obtains xs where "heap_shape (plug_holes b s) xs"
    "live_in (ram (plug_holes b s)) xs = live_in (ram s) (as @ b # bs)"
    "octet (plug_holes b s) = octet s" "diag (plug_holes b s) = diag s"
proof -
  obtain bs' where 1: "freed_at (plug_next b s) as b bs'" "bs' \<noteq> [] \<Longrightarrow> used (ram (plug_next b s)) (hd bs')"
    "live_in (ram (plug_next b s)) (as @ b # bs') = live_in (ram s) (as @ b # bs)"
    "octet (plug_next b s) = octet s" "diag (plug_next b s) = diag s"
    using plug_next_ok [OF assms] by blast
  show ?thesis using plug_prev_ok [OF 1(1,2)] that 1(3-5) by (simp add: plug_holes_eq [OF assms]) metis
qed

text \<open>A pointer that is live has its block in the list.\<close>

lemma liveD:
  assumes "heap_inv s" "live s a = Some len"
  obtains as b bs where "heap_shape s (as @ b # bs)" "used (ram s) b" "a = int b + 6"
    "len = blk_len (ram s) b - 6"
proof -
  let ?b = "nat (a - int SIZEOF_STRUCT_MEM)"
  from assms(2) have b: "?b \<in> set (blocks (ram s))" "used (ram s) ?b" "6 \<le> a" "len = blk_len (ram s) ?b - 6"
    by (auto simp: live_def live_in_def Let_def layout_simps split: if_splits)
  then obtain as bs where "blocks (ram s) = as @ ?b # bs" by (auto elim: in_set_split)
  with assms(1) b show ?thesis by (intro that [of as ?b bs]) (auto simp: heap_inv_def layout_simps)
qed

lemma link_valid_at:
  assumes "heap_core s (as @ b # bs)"
  shows "mem_link_valid b s"
proof -
  note f = core_at [OF assms]
  have "ram_end s = MEM_SIZE_ALIGNED" using assms by (simp add: heap_core_def)
  moreover have "as \<noteq> [] \<Longrightarrow> last as + 18 \<le> b" using f(1) by simp
  ultimately show ?thesis using f(2,3,6,7,8,9,10)
    by (cases "as = []"; cases "bs = []") (auto simp: mem_link_valid_def Let_def)
qed

lemma mark_free:
  assumes h: "heap_shape s (as @ b # bs)" and u: "used (ram s) b"
    and s1: "s1 = MEM_STATS_DEC_USED (blk_len (ram s) b)
      (s\<lparr>ram := set_used (ram s) b 0, lfree := (if b < lfree s then b else lfree s)\<rparr>)"
  shows "freed_at s1 as b bs" "live_in (ram s1) (as @ b # bs) = (live s)(int b + 6 := None)"
proof -
  let ?r = "set_used (ram s) b 0"
  from h have c: "heap_core s (as @ b # bs)" and l: "lfree s = first_free (ram s) (as @ b # bs)"
    by (auto simp: heap_shape_def)
  note f = core_at [OF c]
  have fs: "m_used (?r x) = m_used (ram s x) \<and> m_next (?r x) = m_next (ram s x)"
    if "x \<in> set as \<union> set bs" for x
    using that f(1,2,4) by (force simp: set_used_def)
  have hb: "\<not> used ?r b" "m_next (?r b) = m_next (ram s b)" by (auto simp: set_used_def)
  have cong: "no_free_pair ?r as = no_free_pair (ram s) as" "no_free_pair ?r bs = no_free_pair (ram s) bs"
    "used_sum ?r as = used_sum (ram s) as" "used_sum ?r bs = used_sum (ram s) bs"
    "first_free ?r as = first_free (ram s) as" "first_free ?r bs = first_free (ram s) bs"
    using fs by (auto intro!: no_free_pair_cong used_sum_cong first_free_cong)
  have us: "used_sum ?r (as @ b # bs) = used_sum (ram s) (as @ b # bs) - blk_len (ram s) b"
    "blk_len (ram s) b \<le> used_sum (ram s) (as @ b # bs)" using cong u hb by auto
  have sg: "seg ?r 0 0 (as @ b # bs) (last (as @ b # bs)) MEM_SIZE_ALIGNED"
    using c by (simp add: heap_core_def blist_def seg_set_used)
  have "u16c (usub32 (mst_used s) (blk_len (ram s) b)) = mst_used s - blk_len (ram s) b"
    using us core_used_le [OF c] c by (auto simp: heap_core_def layout_simps)
  then have core: "heap_core s1 (as @ b # bs)"
    using c sg us f(2,3) by (auto simp: heap_core_def blist_def s1) (auto simp: set_used_def)
  have ff: "first_free ?r (as @ b # bs) = (if b < lfree s then b else lfree s)"
  proof (cases "\<forall>x \<in> set as. used (ram s) x")
    case True
    then have "lfree s = first_free (ram s) bs" using l u by (simp add: first_free_append)
    then have "b < lfree s" using first_free_in [of "ram s" bs] f(2,3,4)
      by (cases "lfree s = MEM_SIZE_ALIGNED") force+
    with True fs hb show ?thesis by (auto simp: first_free_append)
  next
    case False
    then have eq: "lfree s = first_free (ram s) as" using l by (auto simp: first_free_append)
    moreover have "first_free (ram s) (as @ []) \<in> set as" using False first_free_upto(2) by blast
    ultimately have "lfree s < b" using f(1) by force
    with False fs hb cong eq show ?thesis by (auto simp: first_free_append)
  qed
  show "freed_at s1 as b bs"
    using core ff hb cong h
    by (cases bs) (auto simp: freed_at_def s1 heap_shape_def no_free_pair_append)
  show "live_in (ram s1) (as @ b # bs) = (live s)(int b + 6 := None)"
    unfolding live_shape [OF h] s1
    by (simp, subst live_in_eqI [of b _ ?r "as @ b # bs" "ram s"]) (use fs hb in \<open>auto simp: layout_simps\<close>)
qed

lemma free_eq:
  assumes h: "heap_shape s (as @ b # bs)" and u: "used (ram s) b"
  shows "mem_free (Some (int b + 6)) s = plug_holes b (MEM_STATS_DEC_USED (blk_len (ram s) b)
      (s\<lparr>ram := set_used (ram s) b 0, lfree := (if b < lfree s then b else lfree s)\<rparr>))"
proof -
  from h have c: "heap_core s (as @ b # bs)" by (simp add: heap_shape_def)
  note f = core_at [OF c]
  have "usub32 (m_next (ram s b)) b = blk_len (ram s) b"
    using f(2,3) by (intro usub32_ge) (auto simp: layout_simps)
  moreover have "\<not> int b + 6 + int MIN_SIZE_ALIGNED > int (ram_end s)"
    using f(2,3) c by (auto simp: heap_core_def layout_simps)
  moreover have "m_next (set_used (ram s) b 0 b) = m_next (ram s b)" by (simp add: set_used_def)
  ultimately show ?thesis using u link_valid_at [OF c]
    by (cases "b < lfree s") (simp_all add: mem_free_def SIZEOF_STRUCT_MEM_def Let_def)
qed

lemma mem_free_ok:
  assumes "heap_inv s" "live s a = Some len"
  shows "heap_inv (mem_free (Some a) s)" "live (mem_free (Some a) s) = (live s)(a := None)"
    "octet (mem_free (Some a) s) = octet s" "diag (mem_free (Some a) s) = diag s"
proof -
  obtain as b bs where h: "heap_shape s (as @ b # bs)" and u: "used (ram s) b" and a: "a = int b + 6"
    by (rule liveD [OF assms])
  define s1 where "s1 = MEM_STATS_DEC_USED (blk_len (ram s) b)
      (s\<lparr>ram := set_used (ram s) b 0, lfree := (if b < lfree s then b else lfree s)\<rparr>)"
  have e: "mem_free (Some a) s = plug_holes b s1" and s1: "octet s1 = octet s" "diag s1 = diag s"
    by (simp_all add: a free_eq [OF h u] s1_def)
  obtain xs where x: "heap_shape (plug_holes b s1) xs"
    "live_in (ram (plug_holes b s1)) xs = (live s)(a := None)"
    "octet (plug_holes b s1) = octet s1" "diag (plug_holes b s1) = diag s1"
    using plug_holes_ok [OF mark_free(1) [OF h u s1_def]] mark_free(2) [OF h u s1_def] a by metis
  show "heap_inv (mem_free (Some a) s)" "live (mem_free (Some a) s) = (live s)(a := None)"
    "octet (mem_free (Some a) s) = octet s" "diag (mem_free (Some a) s) = diag s"
    using x s1 heap_invI [OF x(1)] live_shape [OF x(1)] by (simp_all add: e)
qed

text \<open>Giving back a pointer that is not live is noticed, reported and changes no block.\<close>

lemma free_illegal:
  assumes "heap_inv s" "int SIZEOF_STRUCT_MEM \<le> a" "nat (a - int SIZEOF_STRUCT_MEM) \<in> set (blocks (ram s))"
    "live s a = None"
  shows "mem_free (Some a) s =
    MEM_STATS_INC_illegal (LWIP_ASSERT ''mem_free: illegal memory: double free'' False s)"
proof -
  let ?b = "nat (a - int SIZEOF_STRUCT_MEM)"
  from assms have h: "heap_shape s (blocks (ram s))" by (simp add: heap_inv_def)
  from assms(3) obtain as bs where "blocks (ram s) = as @ ?b # bs" by (auto elim: in_set_split)
  with h have c: "heap_core s (as @ ?b # bs)" by (simp add: heap_shape_def)
  have "\<not> used (ram s) ?b"
    using assms by (auto simp: live_def live_in_def Let_def split: if_splits)
  then show ?thesis using core_at(2,3) [OF c] c assms(2)
    by (auto simp: mem_free_def Let_def heap_core_def MIN_SIZE_ALIGNED_def SIZEOF_STRUCT_MEM_def)
qed


text \<open>The contract of a trim of block \<open>b\<close> down to \<open>new\<close> octets.\<close>

definition trimmed :: "nat \<Rightarrow> nat \<Rightarrow> 'a heap_scheme \<Rightarrow> 'a heap_scheme \<Rightarrow> bool" where
  "trimmed b new s s' \<longleftrightarrow> heap_inv s' \<and> live s' = (live s)(int b + 6 \<mapsto> new) \<and> octet s' = octet s"

lemma trimmedI:
  assumes h: "heap_shape s (as @ b # bs)" and u: "used (ram s) b"
    and bl: "blist r (as @ b # bs')" and np: "no_free_pair r (as @ b # bs')"
    and us: "used_sum r (as @ b # bs') = used_sum (ram s) (as @ b # bs) - y"
      "y \<le> used_sum (ram s) (as @ b # bs)"
    and lv: "live_in r (as @ b # bs') = (live s)(int b + 6 \<mapsto> new)"
    and ff: "l = first_free r (as @ b # bs')" and e: "r MEM_SIZE_ALIGNED = ram s MEM_SIZE_ALIGNED"
  shows "trimmed b new s (MEM_STATS_DEC_USED y (s\<lparr>diag := d, lfree := l, ram := r\<rparr>))"
proof -
  let ?s = "MEM_STATS_DEC_USED y (s\<lparr>diag := d, lfree := l, ram := r\<rparr>)"
  from h have c: "heap_core s (as @ b # bs)" by (simp add: heap_shape_def)
  have "u16c (usub32 (mst_used s) y) = mst_used s - y"
    using us(2) core_used_le [OF c] c by (auto simp: heap_core_def layout_simps)
  then have "heap_shape ?s (as @ b # bs')"
    using c bl np us ff e by (simp add: heap_shape_def heap_core_def)
  then show ?thesis using lv by (simp add: trimmed_def heap_invI live_shape)
qed

lemma used_sum_ge: "x \<in> set xs \<Longrightarrow> used r x \<Longrightarrow> blk_len r x \<le> used_sum r xs"
  by (induction xs) auto

lemma join_blist:
  assumes "blist r (as @ b # n # bs)"
  shows "blist (join_upd r b n) (as @ b # bs)"
  using assms seg_join [of r 0 0 as b n bs "last (as @ b # n # bs)"]
  by (simp add: blist_def split: if_splits)

lemma first_free_before:
  assumes "blist r (as @ b # bs)" "\<not> (\<forall>x \<in> set as. used r x)"
  shows "first_free r (as @ ys) = first_free r as" "first_free r as < b"
proof -
  show "first_free r (as @ ys) = first_free r as" using assms(2) by (simp only: first_free_append if_False)
  have "first_free r (as @ []) \<in> set as" using assms(2) first_free_upto(2) by blast
  then show "first_free r as < b" using blist_at(1) [OF assms(1)] by force
qed

lemma trim_next_free:
  assumes h: "heap_shape s (as @ b # m # bs)" and u: "used (ram s) b" and m: "\<not> used (ram s) m"
    and new: "12 \<le> new" "b + 6 + new < m"
    and r: "r = split_upd (join_upd (ram s) b m) b (b + 6 + new) 1"
    and l: "l = (if lfree s = m then b + 6 + new else lfree s)"
  shows "trimmed b new s (MEM_STATS_DEC_USED (m - b - 6 - new) (s\<lparr>diag := d, lfree := l, ram := r\<rparr>))"
proof -
  from h have c: "heap_core s (as @ b # m # bs)" and l0: "lfree s = first_free (ram s) (as @ b # m # bs)"
    by (auto simp: heap_shape_def)
  note f = core_at [OF c]
  have c2: "heap_core s ((as @ [b]) @ m # bs)" using c by simp
  note f2 = core_at [OF c2]
  let ?r1 = "join_upd (ram s) b m"
  have bm: "m_next (ram s b) = m" using f(9) by simp
  have n1: "m_next (?r1 b) = m_next (ram s m)" by (simp add: upd_fields)
  have np: "no_free_pair ?r1 as" "no_free_pair ?r1 bs" "bs \<noteq> [] \<longrightarrow> used ?r1 (hd bs)"
    using h m by (cases bs; auto simp: heap_shape_def no_free_pair_append join_upd_used
      no_free_pair_cong [of _ ?r1 "ram s"])+
  have b2: "b + 18 \<le> b + 6 + new" "b + 6 + new + 18 \<le> m_next (?r1 b)"
    using new f2(2) n1 by auto
  note sp = split_list_ok [OF join_blist [OF core_blist [OF c]] b2 np r]
  have bn: "b \<notin> set as \<union> set bs" using f(1) f2(2,4) bm f(2) by force
  have cong: "used_sum ?r1 as = used_sum (ram s) as" "used_sum ?r1 bs = used_sum (ram s) bs"
    "first_free ?r1 as = first_free (ram s) as"
    using bn by (auto intro!: used_sum_cong first_free_cong simp: upd_fields)
  show ?thesis
  proof (rule trimmedI [OF h u sp(1,2)])
    show "used_sum r (as @ b # (b + 6 + new) # bs) =
        used_sum (ram s) (as @ b # m # bs) - (m - b - 6 - new)"
      using sp(4) cong u m bm new by simp
    show "m - b - 6 - new \<le> used_sum (ram s) (as @ b # m # bs)"
      using used_sum_ge [of b _ "ram s"] u bm by fastforce
    show "live_in r (as @ b # (b + 6 + new) # bs) = (live s)(int b + 6 \<mapsto> new)"
    proof -
      have "live_in ?r1 (as @ b # bs) = (live s)(int b + 6 \<mapsto> blk_len ?r1 b - 6)"
        unfolding live_shape [OF h] by (subst live_in_eqI [of b _ ?r1 "as @ b # m # bs" "ram s"])
          (use u m in \<open>auto simp: upd_fields layout_simps\<close>)
      then show ?thesis using sp(5) by simp
    qed
    show "l = first_free r (as @ b # (b + 6 + new) # bs)"
    proof (cases "\<forall>x \<in> set as. used (ram s) x")
      case True
      then show ?thesis using sp(6) l l0 u m by (simp add: first_free_append join_upd_used)
    next
      case False
      note before = first_free_before [OF core_blist [OF c] False]
      have "\<not> (\<forall>x \<in> set as. used ?r1 x)" using False by (simp add: join_upd_used)
      then have "first_free r (as @ b # (b + 6 + new) # bs) = first_free (ram s) as"
        using sp(6) cong(3) by (simp only: if_False)
      moreover have "l = first_free (ram s) as" using before(1) before(2) l l0 f(2) bm by simp
      ultimately show ?thesis by simp
    qed
    show "r MEM_SIZE_ALIGNED = ram s MEM_SIZE_ALIGNED"
      using sp(8) f2(2,3) f(2) bm by (auto simp: join_upd_def set_next_def set_prev_def Let_def)
  qed
qed

lemma trim_next_used:
  assumes h: "heap_shape s (as @ b # bs)" and u: "used (ram s) b"
    and nxt: "bs \<noteq> [] \<longrightarrow> used (ram s) (hd bs)"
    and new: "12 \<le> new" "new + 24 \<le> blk_len (ram s) b"
    and r: "r = split_upd (ram s) b (b + 6 + new) 1"
    and l: "l = (if b + 6 + new < lfree s then b + 6 + new else lfree s)"
  shows "trimmed b new s
    (MEM_STATS_DEC_USED (blk_len (ram s) b - 6 - new) (s\<lparr>diag := d, lfree := l, ram := r\<rparr>))"
proof -
  from h have c: "heap_core s (as @ b # bs)" and l0: "lfree s = first_free (ram s) (as @ b # bs)"
    by (auto simp: heap_shape_def)
  note f = core_at [OF c]
  have np: "no_free_pair (ram s) as" "no_free_pair (ram s) bs"
    using h by (cases bs; auto simp: heap_shape_def no_free_pair_append)+
  have b2: "b + 18 \<le> b + 6 + new" "b + 6 + new + 18 \<le> m_next (ram s b)" using new f(2) by auto
  note sp = split_list_ok [OF core_blist [OF c] b2 np nxt r]
  show ?thesis
  proof (rule trimmedI [OF h u sp(1,2)])
    show "used_sum r (as @ b # (b + 6 + new) # bs) =
        used_sum (ram s) (as @ b # bs) - (blk_len (ram s) b - 6 - new)"
      using sp(4) u new by simp
    show "blk_len (ram s) b - 6 - new \<le> used_sum (ram s) (as @ b # bs)"
      using used_sum_ge [of b "as @ b # bs" "ram s"] u by simp
    show "live_in r (as @ b # (b + 6 + new) # bs) = (live s)(int b + 6 \<mapsto> new)"
      using sp(5) live_shape [OF h] by simp
    show "l = first_free r (as @ b # (b + 6 + new) # bs)"
    proof (cases "\<forall>x \<in> set as. used (ram s) x")
      case True
      then have "lfree s = first_free (ram s) bs" using l0 u by (simp add: first_free_append)
      then have "b + 6 + new < lfree s" using first_free_in [of "ram s" bs] f(3,4) b2(2)
        by (cases "lfree s = MEM_SIZE_ALIGNED") force+
      with True l sp(6) show ?thesis by simp
    next
      case False
      note before = first_free_before [OF core_blist [OF c] False]
      with sp(6) False have "first_free r (as @ b # (b + 6 + new) # bs) = first_free (ram s) as"
        by (simp only: if_False)
      moreover have "l = first_free (ram s) as" using before(1) before(2) l l0 by simp
      ultimately show ?thesis by simp
    qed
    show "r MEM_SIZE_ALIGNED = ram s MEM_SIZE_ALIGNED" by (rule sp(8))
  qed
qed

lemma trim_size:
  assumes "heap_core s (as @ b # bs)"
  shows "u16c (usub32 (u16c (usub32 (m_next (ram s b)) b)) SIZEOF_STRUCT_MEM) = blk_len (ram s) b - 6"
proof -
  note f = core_at [OF assms]
  have "usub32 (m_next (ram s b)) b = blk_len (ram s) b"
    using f(2,3) by (intro usub32_ge) (auto simp: layout_simps)
  moreover have "u16c (blk_len (ram s) b) = blk_len (ram s) b" using f(3) by (simp add: layout_simps)
  moreover have "usub32 (blk_len (ram s) b) SIZEOF_STRUCT_MEM = blk_len (ram s) b - 6"
    using f(2,3) by (subst usub32_ge) (auto simp: layout_simps)
  moreover have "u16c (blk_len (ram s) b - 6) = blk_len (ram s) b - 6" using f(3) by (simp add: layout_simps)
  ultimately show ?thesis by simp
qed

text \<open>The header writes both branches of \<^verbatim>\<open>mem_trim\<close> do are a split.\<close>

lemma split_writes:
  assumes "m_used (r b) = 1" "b \<noteq> b2" "n \<noteq> b" "n \<noteq> b2" "n \<noteq> MEM_SIZE_ALIGNED \<longrightarrow> (\<exists>p. r' n = (r n)\<lparr>m_prev := p\<rparr>)"
    "r' b = (r b)\<lparr>m_next := n\<rparr>" "\<And>x. x \<noteq> b \<Longrightarrow> x \<noteq> n \<or> n = MEM_SIZE_ALIGNED \<Longrightarrow> r' x = r x"
  shows "mem_trim_link r b b2 n = split_upd r' b b2 1"
proof
  fix x
  show "mem_trim_link r b b2 n x = split_upd r' b b2 1 x"
    using assms by (cases "x = b"; cases "x = b2"; cases "x = n"; cases "n = MEM_SIZE_ALIGNED")
      (auto simp: mem_trim_link_def split_upd_def set_used_def set_next_def set_prev_def)
qed

lemma LWIP_ASSERT_upd: "LWIP_ASSERT msg P s = s\<lparr>diag := (if P then diag s else msg # diag s)\<rparr>"
  by (simp add: LWIP_ASSERT_def)

lemma trim_at_eq:
  assumes c: "heap_core s (as @ b # bs)" and n: "n = m_next (ram s b)" and new: "b + 6 + new < n"
  shows "mem_trim_at p b new s = (Some p,
    if m_used (ram s n) = 0 then
      MEM_STATS_DEC_USED (n - b - 6 - new) (s\<lparr>
        diag := (if n \<noteq> MEM_SIZE_ALIGNED then diag s else ''invalid next ptr'' # diag s),
        lfree := (if lfree s = n then b + 6 + new else lfree s),
        ram := mem_trim_link (ram s) b (b + 6 + new) (m_next (ram s n))\<rparr>)
    else if new + 24 \<le> n - b then
      MEM_STATS_DEC_USED (n - b - 6 - new) (s\<lparr>
        diag := (if n \<noteq> MEM_SIZE_ALIGNED then diag s else ''invalid next ptr'' # diag s),
        lfree := (if b + 6 + new < lfree s then b + 6 + new else lfree s),
        ram := mem_trim_link (ram s) b (b + 6 + new) n\<rparr>)
    else s)"
proof -
  note f = core_at [OF c]
  have sz: "u16c (usub32 (u16c (usub32 n b)) SIZEOF_STRUCT_MEM) = n - b - 6"
    using trim_size [OF c] n by simp
  have b2: "u16c (b + SIZEOF_STRUCT_MEM + new) = b + 6 + new" using f(2,3) n new by (auto simp: layout_simps)
  have le: "new \<le> n - b - 6" "\<not> n - b - 6 < new" "new \<noteq> n - b - 6" using new by auto
  have eq: "new + SIZEOF_STRUCT_MEM + MIN_SIZE_ALIGNED \<le> n - b - 6 \<longleftrightarrow> new + 24 \<le> n - b"
    using new by (auto simp: layout_simps)
  have a: "LWIP_ASSERT ''mem_trim can only shrink memory'' (new \<le> n - b - 6) s = s" using le by simp
  show ?thesis
    unfolding mem_trim_at_def n [symmetric] sz Let_def a if_not_P [OF le(2)] if_not_P [OF le(3)] b2
    unfolding n [symmetric] LWIP_ASSERT_upd
    using eq by (cases "m_used (ram s n) = 0"; cases "lfree s = n"; cases "b + 6 + new < lfree s")
      (simp_all add: n [symmetric])
qed

lemma trim_at_eq_free:
  assumes c: "heap_core s (as @ b # m # bs)" and u: "used (ram s) b" and m: "\<not> used (ram s) m"
    and new: "12 \<le> new" "b + 6 + new < m"
  shows "mem_trim_at p b new s = (Some p, MEM_STATS_DEC_USED (m - b - 6 - new)
    (s\<lparr>diag := diag s, lfree := (if lfree s = m then b + 6 + new else lfree s),
       ram := split_upd (join_upd (ram s) b m) b (b + 6 + new) 1\<rparr>))"
proof -
  note f = core_at [OF c]
  have c2: "heap_core s ((as @ [b]) @ m # bs)" using c by simp
  note f2 = core_at [OF c2]
  let ?n = "m_next (ram s m)" and ?b2 = "b + 6 + new"
  have bm: "m = m_next (ram s b)" using f(9) by simp
  have ne: "b \<noteq> ?b2" "?n \<noteq> b" "?n \<noteq> ?b2" "m \<noteq> b" "?n \<noteq> m" "m \<noteq> MEM_SIZE_ALIGNED" using f2(2,3) new by auto
  have "mem_trim_link (ram s) b ?b2 ?n = split_upd (join_upd (ram s) b m) b ?b2 1"
    using f(5) u ne by (intro split_writes) (auto simp: join_upd_def set_next_def set_prev_def Let_def)
  then show ?thesis using m ne(6) trim_at_eq [OF c bm new(2), of p] by simp
qed

lemma trim_at_eq_used:
  assumes c: "heap_core s (as @ b # bs)" and u: "used (ram s) b"
    and nxt: "bs \<noteq> [] \<longrightarrow> used (ram s) (hd bs)" and new: "12 \<le> new" "new + 24 \<le> blk_len (ram s) b"
  shows "mem_trim_at p b new s = (Some p, MEM_STATS_DEC_USED (blk_len (ram s) b - 6 - new)
    (s\<lparr>diag := (if bs \<noteq> [] then diag s else ''invalid next ptr'' # diag s),
       lfree := (if b + 6 + new < lfree s then b + 6 + new else lfree s),
       ram := split_upd (ram s) b (b + 6 + new) 1\<rparr>))"
proof -
  note f = core_at [OF c]
  let ?n = "m_next (ram s b)" and ?b2 = "b + 6 + new"
  have mu: "m_used (ram s ?n) \<noteq> 0" using c nxt f(9) by (auto simp: heap_core_def)
  have last: "?n \<noteq> MEM_SIZE_ALIGNED \<longleftrightarrow> bs \<noteq> []" using f(4,9) by (cases bs) auto
  have ne: "b \<noteq> ?b2" "?n \<noteq> b" "?n \<noteq> ?b2" "?b2 < ?n" using f(2,3) new by auto
  have "mem_trim_link (ram s) b ?b2 ?n = split_upd (ram s) b ?b2 1"
    using f(5) u ne by (intro split_writes) (auto intro: exI [of _ "m_prev (ram s ?n)"])
  then show ?thesis using mu new(2) trim_at_eq [OF c refl ne(4), of p] unfolding last by simp
qed

text \<open>
  The contract of \<^verbatim>\<open>mem_trim\<close>: a live block can be shrunk to any size up to its
  own; it keeps its pointer and at least the size asked for. An assertion message appears exactly
  when the block is the last one of the heap and its tail is large enough to be split off.
\<close>

lemma mem_trim_ok:
  assumes "heap_inv s" "live s a = Some len" "new \<le> len"
  shows "\<exists>s' len'. mem_trim a new s = Some (Some a, s') \<and> heap_inv s' \<and> octet s' = octet s \<and>
    live s' = (live s)(a \<mapsto> len') \<and> new \<le> len' \<and> len' \<le> len \<and>
    diag s' = (if a + int len = int MEM_SIZE_ALIGNED \<and> mem_request new + 18 \<le> len
       then ''invalid next ptr'' # diag s else diag s)"
proof -
  obtain as b bs where h: "heap_shape s (as @ b # bs)" and u: "used (ram s) b" and a: "a = int b + 6"
    and len: "len = blk_len (ram s) b - 6"
    by (rule liveD [OF assms(1,2)])
  from h have c: "heap_core s (as @ b # bs)" by (simp add: heap_shape_def)
  note f = core_at [OF c]
  let ?new = "mem_request new"
  have new: "12 \<le> ?new" "new \<le> ?new" "?new \<le> len" using assms(3) len f(2) by (auto simp: layout_simps)
  have small: "new < 65536" "?new \<le> MEM_SIZE_ALIGNED" "b < 65536" using new len f(2,3) by (auto simp: layout_simps)
  have "mem_trim a new s = Some (mem_trim_at a b ?new s)"
  proof -
    have "(if new < MIN_SIZE_ALIGNED then MIN_SIZE_ALIGNED else new) = ?new" by auto
    moreover have "0 \<le> a" "a < int (ram_end s)" "\<not> a < int SIZEOF_STRUCT_MEM" "nat (a - int SIZEOF_STRUCT_MEM) = b"
      using a f(2,3) c by (auto simp: heap_core_def layout_simps)
    moreover have "\<not> MEM_SIZE_ALIGNED < ?new" "\<not> ?new < new" using small(2) by (simp_all only: not_less max.cobounded1)
    ultimately show ?thesis using small(1,3)
      by (simp only: mem_trim_def Let_def align_size_id u16c_id) simp
  qed
  moreover consider "?new = len" | m bs' where "?new < len" "bs = m # bs'" "\<not> used (ram s) m"
    | "?new + 18 \<le> len" "bs \<noteq> [] \<longrightarrow> used (ram s) (hd bs)"
    | "?new < len" "len < ?new + 18" "bs \<noteq> [] \<longrightarrow> used (ram s) (hd bs)"
    using new(3) by (cases bs) fastforce+
  then have "\<exists>s' len'. mem_trim_at a b ?new s = (Some a, s') \<and> trimmed b len' s s' \<and> ?new \<le> len' \<and> len' \<le> len \<and>
    diag s' = (if a + int len = int MEM_SIZE_ALIGNED \<and> mem_request new + 18 \<le> len
       then ''invalid next ptr'' # diag s else diag s)"
  proof cases
    case 1
    then have "mem_trim_at a b ?new s = (Some a, s)"
      using trim_size [OF c] len by (simp add: mem_trim_at_def Let_def del: u16c_id usub32_ge)
    moreover have "trimmed b len s s" using assms(1,2) a by (auto simp: trimmed_def)
    ultimately show ?thesis using 1 by (intro exI [of _ s] exI [of _ len]) simp
  next
    case 2
    have m: "m = m_next (ram s b)" using 2 f(9) by simp
    have lt: "b + 6 + ?new < m" using 2(1) len f(2) m by linarith
    obtain s' where s': "mem_trim_at a b ?new s = (Some a, s')" "trimmed b ?new s s'" "diag s' = diag s"
      by (rule that [OF trim_at_eq_free [OF c [unfolded 2(2)] u 2(3) new(1) lt]
        trim_next_free [OF h [unfolded 2(2)] u 2(3) new(1) lt refl refl]]) simp
    moreover have "a + int len < int MEM_SIZE_ALIGNED" using a len f(2,4) m 2(2) by auto
    ultimately show ?thesis using new(3) by (intro exI [of _ s'] exI [of _ ?new]) simp
  next
    case 3
    have big: "?new + 24 \<le> blk_len (ram s) b" using 3(1) len by simp
    have last: "a + int len = int MEM_SIZE_ALIGNED \<longleftrightarrow> bs = []"
      using a len f(2,4,9) by (cases bs) auto
    obtain s' where s': "mem_trim_at a b ?new s = (Some a, s')" "trimmed b ?new s s'"
      "diag s' = (if bs \<noteq> [] then diag s else ''invalid next ptr'' # diag s)"
      by (rule that [OF trim_at_eq_used [OF c u 3(2) new(1) big]
        trim_next_used [OF h u 3(2) new(1) big refl refl]]) simp
    then show ?thesis using new(3) 3(1) last by (intro exI [of _ s'] exI [of _ ?new]) simp
  next
    case 4
    have "m_used (ram s (m_next (ram s b))) \<noteq> 0" using c 4(3) f(9) by (auto simp: heap_core_def)
    moreover have "\<not> ?new + 24 \<le> blk_len (ram s) b" "b + 6 + ?new < m_next (ram s b)"
      using 4(1,2) len f(2) by linarith+
    ultimately have "mem_trim_at a b ?new s = (Some a, s)"
      using trim_at_eq [OF c refl, of ?new a] by (simp only: if_False)
    moreover have "trimmed b len s s" using assms(1,2) a by (auto simp: trimmed_def)
    ultimately show ?thesis using 4(1,2) by (intro exI [of _ s] exI [of _ len]) simp
  qed
  ultimately show ?thesis using new(2) a by (fastforce simp: trimmed_def)
qed

section \<open>The heap is an allocator\<close>

lemma live_apart_heap:
  assumes "heap_inv s" "live s a = Some n" "live s b = Some m" "a \<noteq> b"
  shows "apart (Ram, a) n (Ram, b) m"
proof -
  have *: "a + int n \<le> b" if l: "live s a = Some n" "live s b = Some m" "a < b" for a b n m
  proof -
    obtain as x bs where x: "heap_shape s (as @ x # bs)" "used (ram s) x" "a = int x + 6" "n = blk_len (ram s) x - 6"
      by (rule liveD [OF assms(1) l(1)])
    then have c: "heap_core s (as @ x # bs)" by (simp add: heap_shape_def)
    from l(2) have y: "nat (b - 6) \<in> set (as @ x # bs)" "6 \<le> b"
      by (auto simp: live_shape [OF x(1)] live_in_def Let_def layout_simps split: if_splits)
    have "x < nat (b - 6)" using l(3) x(3) y(2) by linarith
    with core_at(1) [OF c] y(1) have "nat (b - 6) \<in> set bs" by auto
    then have "m_next (ram s x) \<le> nat (b - 6)" using core_at(4) [OF c] by blast
    with core_at(2) [OF c] x(3,4) y(2) show ?thesis by linarith
  qed
  show ?thesis using *[of a n b m] *[of b m a n] assms by (cases "a < b") (auto simp: apart_def)
qed

interpretation heap_alloc: allocator mem_malloc "\<lambda>a s. Some (mem_free (Some a) s)" heap_inv live
  "\<lambda>n. n" "\<lambda>a. (Ram, a)"
proof unfold_locales
  fix s :: "'a heap_scheme" and r p s' a n b m
  assume h: "heap_inv s"
  note m = mem_malloc_ok [OF h, of r]
  show "\<exists>p s'. mem_malloc r s = Some (p, s')" using m by blast
  show "heap_inv s'" if "mem_malloc r s = Some (p, s')" using m that by auto
  show "live s' = live s" if "mem_malloc r s = Some (None, s')" using m that by auto
  show "live s a = None \<and> (\<exists>n\<ge>r. live s' = (live s)(a \<mapsto> n))" if "mem_malloc r s = Some (Some a, s')"
    using m that by auto
  show "\<exists>s'. Some (mem_free (Some a) s) = Some s' \<and> heap_inv s' \<and> live s' = (live s)(a := None)"
    if "live s a = Some n" using mem_free_ok [OF h that] by simp
  show "apart (Ram, a) n (Ram, b) m" if "live s a = Some n" "live s b = Some m" "a \<noteq> b"
    using live_apart_heap [OF h that] .
qed

lemma mem_init_shape:
  assumes "mst_used s = 0"
  shows "heap_shape (mem_init s) [0]"
  using assms by (auto simp: heap_shape_def heap_core_def blist_def blk_ok_def mem_init_def Let_def layout_simps)

text \<open>The static variables as the startup code leaves them.\<close>

definition heap_zero :: heap where
  "heap_zero = \<lparr>octet = (\<lambda>_. 0), diag = [], ram = (\<lambda>_. \<lparr>m_next = 0, m_prev = 0, m_used = 0\<rparr>),
     lfree = 0, ram_end = 0, mst_err = 0, mst_avail = 0, mst_used = 0, mst_max = 0, mst_illegal = 0\<rparr>"

lemma heap_zero_init: "heap_inv (mem_init heap_zero)" "live (mem_init heap_zero) = Map.empty"
proof -
  have h: "heap_shape (mem_init heap_zero) [0]" by (rule mem_init_shape) (simp add: heap_zero_def)
  then show "heap_inv (mem_init heap_zero)" by (rule heap_invI)
  show "live (mem_init heap_zero) = Map.empty"
    unfolding live_shape [OF h] by (rule ext) (simp add: live_in_def mem_init_def Let_def layout_simps)
qed

text \<open>A well-formed heap in which nothing is live is one free block.\<close>

lemma heap_all_free:
  assumes "heap_inv s" "live s = Map.empty"
  shows "blocks (ram s) = [0] \<and> ram s 0 = \<lparr>m_next = MEM_SIZE_ALIGNED, m_prev = 0, m_used = 0\<rparr> \<and>
    lfree s = 0 \<and> mst_used s = 0"
proof -
  let ?xs = "blocks (ram s)"
  from assms(1) have h: "heap_shape s ?xs" by (simp add: heap_inv_def)
  have free: "\<not> used (ram s) b" if "b \<in> set ?xs" for b
    using fun_cong [OF assms(2), of "int b + int SIZEOF_STRUCT_MEM"] that
    by (auto simp: live_def live_in_def split: if_splits)
  from h have ne: "?xs \<noteq> []" by (auto simp: heap_shape_def heap_core_def blist_def)
  then obtain b bs where xs: "?xs = b # bs" by (cases ?xs) auto
  with h free have bs: "bs = []" by (cases bs) (auto simp: heap_shape_def)
  with xs h have c: "heap_core s ([] @ b # [])" by (simp add: heap_shape_def)
  from core_at(3,5,6,7,9) [OF c] free [of b] xs bs
  have "b = 0" "m_next (ram s 0) = MEM_SIZE_ALIGNED" "m_prev (ram s 0) = 0" "m_used (ram s 0) = 0" by auto
  moreover from this have "ram s 0 = \<lparr>m_next = MEM_SIZE_ALIGNED, m_prev = 0, m_used = 0\<rparr>" by simp
  moreover have "lfree s = first_free (ram s) [0]" "mst_used s = used_sum (ram s) [0]"
    using h xs bs \<open>b = 0\<close> by (auto simp: heap_shape_def heap_core_def)
  ultimately show ?thesis using xs bs by simp
qed

section \<open>Properties of the heap\<close>

text \<open>
  C1. On a well-formed heap \<^verbatim>\<open>mem_malloc\<close> returns, prints no assertion message and leaves
  the heap well-formed and the contents of memory alone. It is first fit: the result is the data
  area of the first free block that is large enough, NULL exactly when there is none. The memory
  returned was not in use, is at least as long as requested, and every other allocation is kept.
\<close>

theorem mem_malloc_first_fit:
  assumes "heap_inv s"
  shows "\<exists>p s'. mem_malloc n s = Some (p, s') \<and> heap_inv s' \<and> octet s' = octet s \<and> diag s' = diag s \<and>
    p = (if n = 0 then None
         else map_option (\<lambda>b. int b + int SIZEOF_STRUCT_MEM)
           (find (fits (ram s) (max n MIN_SIZE_ALIGNED)) (blocks (ram s)))) \<and>
    (case p of None \<Rightarrow> live s' = live s
     | Some a \<Rightarrow> live s a = None \<and> (\<exists>len. n \<le> len \<and> live s' = (live s)(a \<mapsto> len)))"
  using mem_malloc_ok [OF assms, of n] by (simp only: SIZEOF_STRUCT_MEM_def align_size_id of_nat_numeral)

theorem mem_malloc_first_fit_witness:
  "heap_inv (mem_init heap_zero) \<and>
   (\<exists>s'. mem_malloc 100 (mem_init heap_zero) = Some (Some 6, s') \<and> heap_inv s' \<and> (\<exists>len \<ge> 100. live s' = [6 \<mapsto> len]))"
proof -
  have h: "heap_shape (mem_init heap_zero) [0]" by (rule mem_init_shape) (simp add: heap_zero_def)
  have "fits (ram (mem_init heap_zero)) 100 0"
    by (simp add: fits_def mem_init_def Let_def layout_simps)
  then show ?thesis
    using mem_malloc_first_fit [OF heap_zero_init(1), of 100] heap_zero_init
    by (auto simp: heap_shape_blocks [OF h] layout_simps)
qed

text \<open>The heap after one request of 100 octets, used as the concrete state of the witnesses.\<close>

definition heap_100 :: heap where
  "heap_100 = (case mem_malloc 100 (mem_init heap_zero) of Some (_, s) \<Rightarrow> s | None \<Rightarrow> heap_zero)"

lemma heap_100_eq:
  "mem_malloc 100 (mem_init heap_zero) = Some (Some 6, heap_100)"
  "ram heap_100 0 = \<lparr>m_next = 106, m_prev = 0, m_used = 1\<rparr>"
  "ram heap_100 106 = \<lparr>m_next = 16000, m_prev = 0, m_used = 0\<rparr>"
  by (simp_all add: heap_100_def mem_init_def heap_zero_def malloc_eq mem_malloc_scan.simps mem_lfree_scan.simps
    mem_malloc_finish_def mem_malloc_take_def set_next_def set_prev_def set_used_def MEM_STATS_INC_USED_def
    Let_def layout_simps)

lemma walk_numeral [simp]:
  "walk (numeral k) r b = (if b < MEM_SIZE_ALIGNED then b # walk (pred_numeral k) r (m_next (r b)) else [])"
  by (simp add: numeral_eq_Suc)

lemma heap_100_ok: "heap_inv heap_100" "live heap_100 = [6 \<mapsto> 100]" "diag heap_100 = []"
proof -
  show "heap_inv heap_100" "diag heap_100 = []"
    using mem_malloc_ok [OF heap_zero_init(1), of 100] heap_100_eq(1)
    by (auto simp: mem_init_def heap_zero_def Let_def)
  have "blocks (ram heap_100) = [0, 106]"
    by (simp add: blocks_def layout_simps heap_100_eq)
  then show "live heap_100 = [6 \<mapsto> 100]"
    by (auto simp: live_def live_in_def heap_100_eq layout_simps fun_eq_iff Let_def)
qed

text \<open>
  C2. Giving back a live pointer removes exactly that allocation: no other allocation changes,
  the block is joined with its free neighbours so the heap is well-formed again, memory
  contents are kept and no assertion message is printed.
\<close>

theorem mem_free_live:
  assumes "heap_inv s" "live s a = Some len"
  shows "heap_inv (mem_free (Some a) s) \<and> live (mem_free (Some a) s) = (live s)(a := None) \<and>
    octet (mem_free (Some a) s) = octet s \<and> diag (mem_free (Some a) s) = diag s"
  using mem_free_ok [OF assms] by blast

theorem mem_free_live_witness:
  "live heap_100 6 = Some 100 \<and> live (mem_free (Some 6) heap_100) 6 = None \<and> heap_inv (mem_free (Some 6) heap_100)"
  using mem_free_live [of heap_100 6 100] heap_100_ok by simp

text \<open>
  C3. Giving back the same pointer twice, or any pointer to the data area of a free block, is
  detected: an assertion message is printed and counted, and the heap itself is unchanged.
\<close>

theorem mem_free_twice:
  assumes "heap_inv s" "int SIZEOF_STRUCT_MEM \<le> a" "nat (a - int SIZEOF_STRUCT_MEM) \<in> set (blocks (ram s))"
    and "live s a = None"
  shows "mem_free (Some a) s = s\<lparr>diag := ''mem_free: illegal memory: double free'' # diag s,
    mst_illegal := u16c (mst_illegal s + 1)\<rparr>"
  using free_illegal [OF assms] by (simp add: LWIP_ASSERT_def MEM_STATS_INC_illegal_def)

theorem mem_free_twice_witness:
  "diag (mem_free (Some 6) (mem_init heap_zero)) = [''mem_free: illegal memory: double free'']"
proof -
  have h: "heap_shape (mem_init heap_zero) [0]" by (rule mem_init_shape) (simp add: heap_zero_def)
  show ?thesis using mem_free_twice [of "mem_init heap_zero" 6] heap_zero_init
    by (simp add: heap_shape_blocks [OF h] layout_simps) (simp add: mem_init_def heap_zero_def)
qed

text \<open>
  C4. Start from the initialised heap and let a client make any sequence of requests, giving back
  only pointers it holds. Then the heap is well-formed, the client's pointers are exactly the
  live allocations, and once all have been given back the heap is one free block again with
  nothing counted as used: no leak and no fragmentation is left behind.
\<close>

theorem mem_client_no_leak:
  assumes "(client_step mem_malloc (\<lambda>a s. Some (mem_free (Some a) s)))\<^sup>*\<^sup>* (mem_init heap_zero, {}) (s, L)"
  shows "heap_inv s \<and> dom (live s) = L \<and>
    (\<forall>a b. a \<in> L \<and> b \<in> L \<and> a \<noteq> b \<longrightarrow> apart (Ram, a) (the (live s a)) (Ram, b) (the (live s b))) \<and>
    (L = {} \<longrightarrow> blocks (ram s) = [0] \<and> lfree s = 0 \<and> mst_used s = 0 \<and>
       ram s 0 = \<lparr>m_next = MEM_SIZE_ALIGNED, m_prev = 0, m_used = 0\<rparr>)"
proof -
  note r = heap_alloc.client_run [OF assms heap_zero_init(1)]
  have "x \<in> L" if "live s x \<noteq> None" for x using r(3) [of x] that heap_zero_init(2) by (cases "x \<in> L") auto
  then have d: "dom (live s) = L" using r(2) by (auto simp: dom_def)
  then have "L = {} \<Longrightarrow> live s = Map.empty" by simp
  with r d heap_all_free [OF r(1)] heap_alloc.run_apart [OF assms heap_zero_init(1)] show ?thesis by auto
qed

theorem mem_client_no_leak_witness:
  "mst_used (mem_free (Some 6) heap_100) = 0 \<and> blocks (ram (mem_free (Some 6) heap_100)) = [0]"
proof -
  let ?step = "client_step mem_malloc (\<lambda>a s. Some (mem_free (Some a) s))"
  have "?step (mem_init heap_zero, {}) (heap_100, insert 6 {})"
    by (rule client_step.served) (rule heap_100_eq)
  moreover have "?step (heap_100, insert 6 {}) (mem_free (Some 6) heap_100, insert 6 {} - {6})"
    by (rule client_step.given_back) auto
  ultimately have "?step\<^sup>*\<^sup>* (mem_init heap_zero, {}) (mem_free (Some 6) heap_100, {})"
    by (auto intro: converse_rtranclp_into_rtranclp)
  from mem_client_no_leak [OF this] show ?thesis by simp
qed


text \<open>The heap after one request that takes all of it.\<close>

definition heap_full :: heap where
  "heap_full = (case mem_malloc 15994 (mem_init heap_zero) of Some (_, s) \<Rightarrow> s | None \<Rightarrow> heap_zero)"

lemma heap_full_eq:
  "mem_malloc 15994 (mem_init heap_zero) = Some (Some 6, heap_full)"
  "ram heap_full 0 = \<lparr>m_next = 16000, m_prev = 0, m_used = 1\<rparr>"
  by (simp_all add: heap_full_def mem_init_def heap_zero_def malloc_eq mem_malloc_scan.simps mem_lfree_scan.simps
    mem_malloc_finish_def mem_malloc_take_def set_next_def set_prev_def set_used_def MEM_STATS_INC_USED_def
    Let_def layout_simps)

lemma heap_full_ok: "heap_inv heap_full" "live heap_full = [6 \<mapsto> 15994]" "diag heap_full = []"
proof -
  show "heap_inv heap_full" "diag heap_full = []"
    using mem_malloc_ok [OF heap_zero_init(1), of 15994] heap_full_eq(1)
    by (auto simp: mem_init_def heap_zero_def Let_def)
  have "blocks (ram heap_full) = [0]"
    by (simp add: blocks_def layout_simps heap_full_eq)
  then show "live heap_full = [6 \<mapsto> 15994]"
    by (auto simp: live_def live_in_def heap_full_eq layout_simps fun_eq_iff Let_def)
qed


end
