(* ===== verification/Memp.thy ===== *)
theory Memp
  imports Mem
begin

text \<open>
  The pools of \<^verbatim>\<open>lwip/src/core/memp.c\<close>: every pool is an array of elements of one size,
  the free ones linked from \<^verbatim>\<open>*desc->tab\<close>. The link of a free element lies in the
  element itself; it is kept here in a map of its own, \<open>mnext\<close>. The theory holds the
  operations, the invariant of the free lists, and the proof that the pools are an allocator.
\<close>

section \<open>State\<close>

text \<open>The descriptor of a pool: number and size of its elements. The sizes other than those of
  the two pbuf pools are the compiler's, so the descriptors are part of the state.\<close>

record memp_desc =
  d_num :: nat
  d_size :: nat

record pools = heap +
  memp_pools :: "memp_t \<Rightarrow> memp_desc"
  tab :: "memp_t \<Rightarrow> ptr option"
  mnext :: "ptr \<Rightarrow> ptr option"
  mps_avail :: "memp_t \<Rightarrow> nat"
  mps_used :: "memp_t \<Rightarrow> nat"
  mps_max :: "memp_t \<Rightarrow> nat"
  mps_err :: "memp_t \<Rightarrow> nat"

section \<open>Operations\<close>

definition memp_base :: "memp_t \<Rightarrow> ptr" where
  "memp_base t = (Pool t, 0)"

primrec memp_init_loop :: "nat \<Rightarrow> memp_t \<Rightarrow> ptr \<Rightarrow> 'a pools_scheme \<Rightarrow> 'a pools_scheme" where
  "memp_init_loop 0 t memp s = s"
| "memp_init_loop (Suc n) t memp s =
     (let s = s\<lparr>mnext := (mnext s)(memp := tab s t)\<rparr>;
          s = s\<lparr>tab := (tab s)(t := Some memp)\<rparr>
      in memp_init_loop n t (ptr_add memp (int (d_size (memp_pools s t)))) s)"

definition memp_init_pool :: "memp_t \<Rightarrow> 'a pools_scheme \<Rightarrow> 'a pools_scheme" where
  "memp_init_pool t s =
     (let s = s\<lparr>tab := (tab s)(t := None)\<rparr>;
          s = memp_init_loop (d_num (memp_pools s t)) t (memp_base t) s
      in s\<lparr>mps_avail := (mps_avail s)(t := d_num (memp_pools s t))\<rparr>)"

definition memp_pool_list :: "memp_t list" where
  "memp_pool_list = [MEMP_RAW_PCB, MEMP_UDP_PCB, MEMP_TCP_PCB, MEMP_TCP_PCB_LISTEN, MEMP_TCP_SEG,
     MEMP_REASSDATA, MEMP_FRAG_PBUF, MEMP_SYS_TIMEOUT, MEMP_PBUF, MEMP_PBUF_POOL]"

definition memp_init :: "'a pools_scheme \<Rightarrow> 'a pools_scheme" where
  "memp_init s = fold memp_init_pool memp_pool_list s"

definition do_memp_malloc_pool :: "memp_t \<Rightarrow> 'a pools_scheme \<Rightarrow> ptr option \<times> 'a pools_scheme" where
  "do_memp_malloc_pool t s = (case tab s t of
     Some memp \<Rightarrow>
       (let s = s\<lparr>tab := (tab s)(t := mnext s memp)\<rparr>;
            s = LWIP_ASSERT ''memp_malloc: memp properly aligned''
                  (snd memp mod int MEM_ALIGNMENT = 0) s;
            u = u16c (mps_used s t + 1);
            s = s\<lparr>mps_used := (mps_used s)(t := u)\<rparr>;
            s = (if u > mps_max s t then s\<lparr>mps_max := (mps_max s)(t := u)\<rparr> else s)
        in (Some memp, s))
   | None \<Rightarrow> (None, s\<lparr>mps_err := (mps_err s)(t := u16c (mps_err s t + 1))\<rparr>))"

text \<open>The type argument is a value of the enumeration, so the check \<^verbatim>\<open>type < MEMP_MAX\<close>
  always succeeds.\<close>

definition memp_malloc :: "memp_t \<Rightarrow> 'a pools_scheme \<Rightarrow> ptr option \<times> 'a pools_scheme" where
  "memp_malloc t s = do_memp_malloc_pool t s"

definition do_memp_free_pool :: "memp_t \<Rightarrow> ptr \<Rightarrow> 'a pools_scheme \<Rightarrow> 'a pools_scheme" where
  "do_memp_free_pool t mem s =
     (let s = LWIP_ASSERT ''memp_free: mem properly aligned'' (snd mem mod int MEM_ALIGNMENT = 0) s;
          s = s\<lparr>mps_used := (mps_used s)(t := u16c (usub32 (mps_used s t) 1))\<rparr>;
          s = s\<lparr>mnext := (mnext s)(mem := tab s t)\<rparr>
      in s\<lparr>tab := (tab s)(t := Some mem)\<rparr>)"

definition memp_free :: "memp_t \<Rightarrow> ptr option \<Rightarrow> 'a pools_scheme \<Rightarrow> 'a pools_scheme" where
  "memp_free t mem s = (case mem of None \<Rightarrow> s | Some p \<Rightarrow> do_memp_free_pool t p s)"

section \<open>The free lists\<close>

fun links :: "(ptr \<Rightarrow> ptr option) \<Rightarrow> ptr option \<Rightarrow> ptr list \<Rightarrow> bool" where
  "links n p [] \<longleftrightarrow> p = None"
| "links n p (x # xs) \<longleftrightarrow> p = Some x \<and> links n (n x) xs"

lemma links_unique: "links n p xs \<Longrightarrow> links n p ys \<Longrightarrow> xs = ys"
proof (induction xs arbitrary: p ys)
  case Nil
  then show ?case by (cases ys) auto
next
  case (Cons x xs)
  then show ?case by (cases ys) auto
qed

lemma links_upd: "x \<notin> set xs \<Longrightarrow> links (n(x := v)) p xs = links n p xs"
  by (induction xs arbitrary: p) auto

text \<open>The free list as a value, found by following the links.\<close>

fun chase :: "nat \<Rightarrow> (ptr \<Rightarrow> ptr option) \<Rightarrow> ptr option \<Rightarrow> ptr list" where
  "chase 0 n p = []"
| "chase (Suc k) n None = []"
| "chase (Suc k) n (Some x) = x # chase k n (n x)"

lemma chase_links: "links n p xs \<Longrightarrow> length xs \<le> k \<Longrightarrow> chase k n p = xs"
proof (induction xs arbitrary: p k)
  case Nil
  then show ?case by (cases k) auto
next
  case (Cons x xs)
  then show ?case by (cases k) auto
qed

definition elems :: "'a pools_scheme \<Rightarrow> memp_t \<Rightarrow> ptr set" where
  "elems s t = (\<lambda>i. (Pool t, int (i * d_size (memp_pools s t)))) ` {..<d_num (memp_pools s t)}"

definition free_list :: "'a pools_scheme \<Rightarrow> memp_t \<Rightarrow> ptr list" where
  "free_list s t = chase (d_num (memp_pools s t)) (mnext s) (tab s t)"

definition pool_ok :: "'a pools_scheme \<Rightarrow> memp_t \<Rightarrow> bool" where
  "pool_ok s t \<longleftrightarrow> links (mnext s) (tab s t) (free_list s t) \<and> distinct (free_list s t) \<and>
     set (free_list s t) \<subseteq> elems s t \<and>
     mps_used s t = d_num (memp_pools s t) - length (free_list s t) \<and>
     0 < d_size (memp_pools s t) \<and> d_num (memp_pools s t) < 65536"

definition pools_inv :: "'a pools_scheme \<Rightarrow> bool" where
  "pools_inv s \<longleftrightarrow> (\<forall>t. pool_ok s t)"

definition pool_live :: "'a pools_scheme \<Rightarrow> ptr \<Rightarrow> nat option" where
  "pool_live s p = (case fst p of Pool t \<Rightarrow>
       if p \<in> elems s t \<and> p \<notin> set (free_list s t) then Some (d_size (memp_pools s t)) else None
     | _ \<Rightarrow> None)"

lemma elems_card: "0 < d_size (memp_pools s t) \<Longrightarrow> card (elems s t) = d_num (memp_pools s t)"
  unfolding elems_def by (subst card_image) (auto simp: inj_on_def)

lemma elems_pool: "p \<in> elems s t \<Longrightarrow> fst p = Pool t"
  by (auto simp: elems_def)

lemma elems_frame: "memp_pools s' = memp_pools s \<Longrightarrow> elems s' t = elems s t"
  by (simp add: elems_def)

lemma finite_elems [simp]: "finite (elems s t)"
  by (simp add: elems_def)

lemma free_length:
  assumes "pool_ok s t"
  shows "length (free_list s t) \<le> d_num (memp_pools s t)"
  using assms card_mono [of "elems s t" "set (free_list s t)"] elems_card [of s t]
  by (auto simp: pool_ok_def distinct_card)

text \<open>The free list a state has when its links are known.\<close>

lemma free_listI:
  "links (mnext s) (tab s t) xs \<Longrightarrow> length xs \<le> d_num (memp_pools s t) \<Longrightarrow> free_list s t = xs"
  by (simp add: free_list_def chase_links)

lemma pool_okI:
  assumes "links (mnext s) (tab s t) xs" "distinct xs" "set xs \<subseteq> elems s t"
    "mps_used s t = d_num (memp_pools s t) - length xs" "0 < d_size (memp_pools s t)" "d_num (memp_pools s t) < 65536"
  shows "pool_ok s t \<and> free_list s t = xs"
proof -
  have "length xs \<le> d_num (memp_pools s t)"
    using assms card_mono [of "elems s t" "set xs"] elems_card [of s t] by (auto simp: distinct_card)
  with assms show ?thesis by (simp add: pool_ok_def free_listI)
qed

text \<open>An operation on one pool leaves the others alone.\<close>

lemma pool_ok_other:
  assumes "pool_ok s u" "tab s' u = tab s u" "memp_pools s' = memp_pools s" "mps_used s' u = mps_used s u"
    "\<And>p. fst p = Pool u \<Longrightarrow> mnext s' p = mnext s p"
  shows "pool_ok s' u \<and> free_list s' u = free_list s u"
proof -
  have el: "\<And>p. p \<in> set (free_list s u) \<Longrightarrow> fst p = Pool u"
    using assms(1) elems_pool by (fastforce simp: pool_ok_def)
  have "links (mnext s') p xs" if "links (mnext s) p xs" "\<forall>x \<in> set xs. fst x = Pool u" for p xs
    using that assms(5) by (induction xs arbitrary: p) auto
  then have "links (mnext s') (tab s' u) (free_list s u)"
    using assms(1,2) el by (simp add: pool_ok_def)
  then show ?thesis using assms by (intro pool_okI) (auto simp: pool_ok_def elems_frame [OF assms(3)])
qed

section \<open>The operations keep the free lists\<close>

lemma align_ok [simp]: "x mod int MEM_ALIGNMENT = 0"
  by (simp add: MEM_ALIGNMENT_def)

lemma malloc_pool_none:
  assumes "tab s t = None"
  shows "memp_malloc t s = (None, s\<lparr>mps_err := (mps_err s)(t := u16c (mps_err s t + 1))\<rparr>)"
  using assms by (simp add: memp_malloc_def do_memp_malloc_pool_def)

lemma memp_malloc_ok:
  assumes inv: "pools_inv s" and m: "memp_malloc t s = (p, s')"
  shows "pools_inv s' \<and> memp_pools s' = memp_pools s \<and>
    (case p of None \<Rightarrow> free_list s t = [] \<and> (\<forall>u. free_list s' u = free_list s u)
     | Some x \<Rightarrow> x \<in> elems s t \<and> free_list s t = x # free_list s' t \<and>
         (\<forall>u. u \<noteq> t \<longrightarrow> free_list s' u = free_list s u))"
proof (cases "tab s t")
  case None
  then have s': "p = None" "s' = s\<lparr>mps_err := (mps_err s)(t := u16c (mps_err s t + 1))\<rparr>"
    using m by (simp_all add: malloc_pool_none)
  have "pool_ok s t" using inv by (simp add: pools_inv_def)
  then have "free_list s t = []" using None by (cases "free_list s t") (auto simp: pool_ok_def)
  moreover have "pool_ok s' u \<and> free_list s' u = free_list s u" for u
    using inv by (intro pool_ok_other) (auto simp: s' pools_inv_def)
  ultimately show ?thesis by (simp add: s' pools_inv_def)
next
  case (Some x)
  then have s': "p = Some x" "tab s' = (tab s)(t := mnext s x)" "mnext s' = mnext s" "memp_pools s' = memp_pools s"
    "mps_used s' = (mps_used s)(t := u16c (mps_used s t + 1))"
    using m by (auto simp: memp_malloc_def do_memp_malloc_pool_def Let_def)
  have ok: "pool_ok s t" using inv by (simp add: pools_inv_def)
  then obtain xs where xs: "free_list s t = x # xs" using Some by (cases "free_list s t") (auto simp: pool_ok_def)
  have len: "length (x # xs) \<le> d_num (memp_pools s t)" using free_length [OF ok] xs by simp
  have "pool_ok s' t \<and> free_list s' t = xs"
    using ok xs len by (intro pool_okI) (auto simp: s' pool_ok_def elems_frame [OF s'(4)])
  moreover have "pool_ok s' u \<and> free_list s' u = free_list s u" if "u \<noteq> t" for u
    using inv that by (intro pool_ok_other) (auto simp: s' pools_inv_def)
  moreover have "x \<in> elems s t" using ok xs by (simp add: pool_ok_def)
  ultimately show ?thesis using xs by (auto simp: s' pools_inv_def) metis
qed

lemma memp_free_ok:
  assumes inv: "pools_inv s" and p: "p \<in> elems s t" "p \<notin> set (free_list s t)"
  shows "pools_inv (memp_free t (Some p) s) \<and> memp_pools (memp_free t (Some p) s) = memp_pools s \<and>
    free_list (memp_free t (Some p) s) t = p # free_list s t \<and>
    (\<forall>u. u \<noteq> t \<longrightarrow> free_list (memp_free t (Some p) s) u = free_list s u)"
proof -
  let ?s = "memp_free t (Some p) s"
  have s': "tab ?s = (tab s)(t := Some p)" "mnext ?s = (mnext s)(p := tab s t)" "memp_pools ?s = memp_pools s"
    "mps_used ?s = (mps_used s)(t := u16c (usub32 (mps_used s t) 1))"
    by (auto simp: memp_free_def do_memp_free_pool_def Let_def)
  have ok: "pool_ok s t" using inv by (simp add: pools_inv_def)
  have "card (insert p (set (free_list s t))) \<le> d_num (memp_pools s t)"
    using ok p card_mono [of "elems s t" "insert p (set (free_list s t))"] elems_card [of s t]
    by (auto simp: pool_ok_def)
  then have len: "Suc (length (free_list s t)) \<le> d_num (memp_pools s t)"
    using ok p by (simp add: pool_ok_def distinct_card)
  have u: "u16c (usub32 (mps_used s t) 1) = d_num (memp_pools s t) - Suc (length (free_list s t))"
    using ok len by (auto simp: pool_ok_def)
  have "pool_ok ?s t \<and> free_list ?s t = p # free_list s t"
    using ok p len u by (intro pool_okI) (auto simp: s' pool_ok_def elems_frame [OF s'(3)] links_upd)
  moreover have "pool_ok ?s u \<and> free_list ?s u = free_list s u" if "u \<noteq> t" for u
    using inv that p elems_pool [OF p(1)] by (intro pool_ok_other) (auto simp: s' pools_inv_def)
  ultimately show ?thesis by (auto simp: s'(3) pools_inv_def) metis
qed

lemma memp_init_loop_links:
  assumes "links (mnext s) (tab s t) xs" "\<forall>x \<in> set xs. fst x = Pool t \<and> snd x < snd b" "fst b = Pool t"
    and sz: "0 < d_size (memp_pools s t)"
  shows "links (mnext (memp_init_loop n t b s)) (tab (memp_init_loop n t b s) t)
    (rev (map (\<lambda>i. ptr_add b (int (i * d_size (memp_pools s t)))) [0..<n]) @ xs)"
  using assms
proof (induction n arbitrary: b s xs)
  case (Suc n)
  let ?k = "d_size (memp_pools s t)"
  let ?s = "s\<lparr>mnext := (mnext s)(b := tab s t), tab := (tab s)(t := Some b)\<rparr>"
  have l: "links (mnext ?s) (tab ?s t) (b # xs)" using Suc.prems(1,2) by (simp add: links_upd) (subst links_upd, auto)
  have IH: "links (mnext (memp_init_loop n t (ptr_add b (int ?k)) ?s)) (tab (memp_init_loop n t (ptr_add b (int ?k)) ?s) t)
    (rev (map (\<lambda>i. ptr_add (ptr_add b (int ?k)) (int (i * d_size (memp_pools ?s t)))) [0..<n]) @ b # xs)"
    using l Suc.prems by (intro Suc.IH) fastforce+
  have "rev (map (\<lambda>i. ptr_add b (int (i * ?k))) [0..<Suc n]) =
      rev (map (\<lambda>i. ptr_add (ptr_add b (int ?k)) (int (i * ?k))) [0..<n]) @ [b]"
    by (simp add: upt_conv_Cons map_Suc_upt [symmetric] algebra_simps del: upt_Suc)
  with IH show ?case by (simp add: Let_def)
qed simp

lemma memp_init_loop_frame:
  "fst b = Pool t \<Longrightarrow>
   memp_pools (memp_init_loop n t b s) = memp_pools s \<and> mps_used (memp_init_loop n t b s) = mps_used s \<and>
   (\<forall>u. u \<noteq> t \<longrightarrow> tab (memp_init_loop n t b s) u = tab s u) \<and>
   (\<forall>p. fst p \<noteq> Pool t \<longrightarrow> mnext (memp_init_loop n t b s) p = mnext s p)"
  by (induction n arbitrary: b s) (auto simp: Let_def)

definition pool_full :: "'a pools_scheme \<Rightarrow> memp_t \<Rightarrow> bool" where
  "pool_full s t \<longleftrightarrow> pool_ok s t \<and> set (free_list s t) = elems s t"

lemma memp_init_pool_ok:
  assumes "0 < d_size (memp_pools s t)" "d_num (memp_pools s t) < 65536" "mps_used s t = 0"
  shows "pool_full (memp_init_pool t s) t \<and> memp_pools (memp_init_pool t s) = memp_pools s \<and>
    mps_used (memp_init_pool t s) = mps_used s \<and>
    (\<forall>u. u \<noteq> t \<longrightarrow> pool_full s u \<longrightarrow> pool_full (memp_init_pool t s) u)"
proof -
  let ?k = "d_size (memp_pools s t)" and ?n = "d_num (memp_pools s t)"
  let ?s1 = "s\<lparr>tab := (tab s)(t := None)\<rparr>"
  define s2 where "s2 = memp_init_loop ?n t (memp_base t) ?s1"
  let ?s = "memp_init_pool t s"
  let ?xs = "rev (map (\<lambda>i. ptr_add (memp_base t) (int (i * ?k))) [0..<?n])"
  note fr = memp_init_loop_frame [of "memp_base t" t ?n ?s1]
  have b: "fst (memp_base t) = Pool t" by (simp add: memp_base_def)
  have s: "tab ?s = tab s2" "mnext ?s = mnext s2" "memp_pools ?s = memp_pools s" "mps_used ?s = mps_used s"
    using fr b by (auto simp: memp_init_pool_def Let_def s2_def)
  have l: "links (mnext ?s) (tab ?s t) ?xs"
    using memp_init_loop_links [of ?s1 t "[]" "memp_base t" ?n] assms(1) b by (simp add: s s2_def)
  have el: "set ?xs = elems ?s t" by (auto simp: elems_def s memp_base_def ptr_add_def)
  have "pool_ok ?s t \<and> free_list ?s t = ?xs"
    using assms l el by (intro pool_okI) (auto simp: s distinct_map inj_on_def ptr_add_def)
  then have "pool_full ?s t" using el by (simp add: pool_full_def)
  moreover have "pool_full ?s u" if "u \<noteq> t" "pool_full s u" for u
  proof -
    have "pool_ok ?s u \<and> free_list ?s u = free_list s u"
      using that fr b by (intro pool_ok_other) (auto simp: s s2_def pool_full_def)
    with that show ?thesis by (simp add: pool_full_def elems_frame [OF s(3)])
  qed
  ultimately show ?thesis by (simp add: s)
qed

lemma memp_init_fold:
  assumes "\<forall>t. 0 < d_size (memp_pools s t) \<and> d_num (memp_pools s t) < 65536 \<and> mps_used s t = 0"
  shows "memp_pools (fold memp_init_pool ts s) = memp_pools s \<and>
    (\<forall>t. t \<in> set ts \<or> pool_full s t \<longrightarrow> pool_full (fold memp_init_pool ts s) t)"
  using assms
proof (induction ts arbitrary: s)
  case (Cons t ts)
  note st = memp_init_pool_ok [of s t]
  have "memp_pools (fold memp_init_pool ts (memp_init_pool t s)) = memp_pools (memp_init_pool t s) \<and>
    (\<forall>u. u \<in> set ts \<or> pool_full (memp_init_pool t s) u \<longrightarrow> pool_full (fold memp_init_pool ts (memp_init_pool t s)) u)"
    using st Cons.prems by (intro Cons.IH) auto
  with st Cons.prems show ?case by auto
qed simp

lemma memp_init_ok:
  assumes "\<forall>t. 0 < d_size (memp_pools s t) \<and> d_num (memp_pools s t) < 65536 \<and> mps_used s t = 0"
  shows "memp_pools (memp_init s) = memp_pools s" "pool_full (memp_init s) t"
  using memp_init_fold [OF assms, of memp_pool_list]
  by (cases t; simp add: memp_init_def memp_pool_list_def)+

lemma memp_init_inv:
  assumes "\<forall>t. 0 < d_size (memp_pools s t) \<and> d_num (memp_pools s t) < 65536 \<and> mps_used s t = 0"
  shows "pools_inv (memp_init s)" "pool_live (memp_init s) = Map.empty"
  using memp_init_ok(2) [OF assms]
  by (auto simp: pools_inv_def pool_full_def pool_live_def fun_eq_iff split: region.splits)

section \<open>The pools are an allocator\<close>

definition memp_give_back :: "ptr \<Rightarrow> 'a pools_scheme \<Rightarrow> 'a pools_scheme option" where
  "memp_give_back p s = (case fst p of Pool t \<Rightarrow> Some (memp_free t (Some p) s) | _ \<Rightarrow> None)"

lemma pool_liveD:
  assumes "pool_live s p = Some n"
  obtains t where "fst p = Pool t" "p \<in> elems s t" "p \<notin> set (free_list s t)" "n = d_size (memp_pools s t)"
  using assms by (auto simp: pool_live_def split: region.splits if_splits)

lemma pool_live_apart:
  assumes "pool_live s a = Some n" "pool_live s b = Some m" "a \<noteq> b"
  shows "apart a n b m"
proof -
  obtain t where a: "fst a = Pool t" "a \<in> elems s t" "n = d_size (memp_pools s t)"
    using assms(1) by (rule pool_liveD)
  obtain u where b: "fst b = Pool u" "b \<in> elems s u" "m = d_size (memp_pools s u)"
    using assms(2) by (rule pool_liveD)
  show ?thesis
  proof (cases "t = u")
    case True
    with a b obtain i j where ij: "a = (Pool t, int (i * n))" "b = (Pool t, int (j * n))" "m = n"
      by (auto simp: elems_def)
    with assms(3) have "i \<noteq> j" by auto
    then have "Suc i \<le> j \<or> Suc j \<le> i" by auto
    then have "Suc i * n \<le> j * n \<or> Suc j * n \<le> i * n" by (metis mult_le_mono1)
    then show ?thesis unfolding ij apart_def by (simp add: int_ops) (metis add.commute of_nat_add of_nat_le_iff of_nat_mult)
  qed (use a b in \<open>auto simp: apart_def\<close>)
qed

lemma pool_live_take:
  assumes "memp_pools s' = memp_pools s" "a \<in> elems s r" "free_list s r = a # free_list s' r"
    "a \<notin> set (free_list s' r)" "\<forall>u. u \<noteq> r \<longrightarrow> free_list s' u = free_list s u"
  shows "pool_live s' = (pool_live s)(a \<mapsto> d_size (memp_pools s r))"
proof
  show "pool_live s' x = ((pool_live s)(a \<mapsto> d_size (memp_pools s r))) x" for x
  proof (cases "fst x")
    case (Pool u)
    then show ?thesis using assms elems_pool [OF assms(2)] elems_frame [OF assms(1)]
      by (cases "u = r") (auto simp: pool_live_def)
  qed (use assms elems_pool [OF assms(2)] in \<open>auto simp: pool_live_def\<close>)
qed

lemma pool_live_give:
  assumes "memp_pools s' = memp_pools s" "a \<in> elems s r" "free_list s' r = a # free_list s r"
    "\<forall>u. u \<noteq> r \<longrightarrow> free_list s' u = free_list s u"
  shows "pool_live s' = (pool_live s)(a := None)"
proof
  show "pool_live s' x = ((pool_live s)(a := None)) x" for x
  proof (cases "fst x")
    case (Pool u)
    then show ?thesis using assms elems_pool [OF assms(2)] elems_frame [OF assms(1)]
      by (cases "u = r") (auto simp: pool_live_def)
  qed (use assms elems_pool [OF assms(2)] in \<open>auto simp: pool_live_def\<close>)
qed

interpretation pool_alloc: allocator "\<lambda>t s. Some (memp_malloc t s)" memp_give_back
  "\<lambda>s. pools_inv s \<and> memp_pools s = D" pool_live "\<lambda>t. d_size (D t)" "\<lambda>p. p" for D :: "memp_t \<Rightarrow> memp_desc"
proof (unfold_locales, goal_cases)
  case (1 s r)
  then show ?case by (cases "memp_malloc r s") auto
next
  case (2 s r p s')
  then show ?case using memp_malloc_ok [of s r p s'] by auto
next
  case (3 s r s')
  then have k: "memp_pools s' = memp_pools s" "\<forall>u. free_list s' u = free_list s u"
    using memp_malloc_ok [of s r None s'] by auto
  then have "elems s' = elems s" by (intro ext elems_frame) simp
  with k show ?case by (auto simp: pool_live_def fun_eq_iff split: region.splits)
next
  case (4 s r a s')
  then have m: "pools_inv s" "memp_malloc r s = (Some a, s')" by auto
  note k = memp_malloc_ok [OF m]
  then have "a \<in> elems s r" by simp
  then have fst: "fst a = Pool r" by (rule elems_pool)
  have "a \<notin> set (free_list s' r)" using k m(1) by (auto simp: pools_inv_def pool_ok_def) (metis distinct.simps(2))
  moreover have el: "elems s' = elems s" using k by (intro ext elems_frame) simp
  ultimately have "pool_live s' = (pool_live s)(a \<mapsto> d_size (D r))"
    using pool_live_take [of s' s a r] k 4(1) by simp
  moreover have "pool_live s a = None" using k fst by (simp add: pool_live_def)
  ultimately show ?case by auto
next
  case (5 s a n)
  then obtain t where t: "fst a = Pool t" "a \<in> elems s t" "a \<notin> set (free_list s t)" "n = d_size (memp_pools s t)"
    using pool_liveD by metis
  note k = memp_free_ok [OF conjunct1 [OF 5(1)] t(2,3)]
  have "pool_live (memp_free t (Some a) s) = (pool_live s)(a := None)"
    using k t(2) by (intro pool_live_give) auto
  with k 5 t show ?case by (auto simp: memp_give_back_def)
next
  case (6 s a n b m)
  then show ?case using pool_live_apart by blast
qed

section \<open>Properties of the pools\<close>

text \<open>The static variables before \<^verbatim>\<open>memp_init\<close>, with the descriptors \<open>D\<close>.\<close>

definition pools_zero :: "(memp_t \<Rightarrow> memp_desc) \<Rightarrow> pools" where
  "pools_zero D = heap.extend heap_zero (pools.fields D (\<lambda>_. None) (\<lambda>_. None) (\<lambda>_. 0) (\<lambda>_. 0) (\<lambda>_. 0) (\<lambda>_. 0))"

lemma pools_zero_sel [simp]: "memp_pools (pools_zero D) = D" "mps_used (pools_zero D) t = 0"
  by (simp_all add: pools_zero_def heap.defs pools.defs)

lemma used_is_live:
  assumes "pool_ok s t"
  shows "mps_used s t = card {p \<in> dom (pool_live s). fst p = Pool t}"
proof -
  have "{p \<in> dom (pool_live s). fst p = Pool t} = elems s t - set (free_list s t)"
    by (auto simp: pool_live_def elems_def split: region.splits if_splits)
  also have "card \<dots> = d_num (memp_pools s t) - length (free_list s t)"
    using assms by (simp add: card_Diff_subset elems_card pool_ok_def distinct_card)
  finally show ?thesis using assms by (simp add: pool_ok_def)
qed

text \<open>
  C6. After \<^verbatim>\<open>memp_init\<close> and any sequence of requests by a client that gives back only
  elements it holds: the free lists are intact, the elements in use are exactly those the client
  holds, they do not overlap, the counter \<^verbatim>\<open>used\<close> of every pool is their number, and
  \<^verbatim>\<open>memp_malloc\<close> fails exactly when all elements of that pool are in use.
\<close>

theorem memp_client:
  assumes "\<forall>t. 0 < d_size (D t) \<and> d_num (D t) < 65536"
    and "(client_step (\<lambda>t s. Some (memp_malloc t s)) memp_give_back)\<^sup>*\<^sup>* (memp_init (pools_zero D), {}) (s, L)"
  shows "pools_inv s \<and> dom (pool_live s) = L \<and>
    (\<forall>a b. a \<in> L \<and> b \<in> L \<and> a \<noteq> b \<longrightarrow> apart a (the (pool_live s a)) b (the (pool_live s b))) \<and>
    (\<forall>t. mps_used s t = card {p \<in> L. fst p = Pool t} \<and>
         (fst (memp_malloc t s) = None \<longleftrightarrow> card {p \<in> L. fst p = Pool t} = d_num (D t)))"
proof -
  have i: "pools_inv (memp_init (pools_zero D)) \<and> memp_pools (memp_init (pools_zero D)) = D"
    "pool_live (memp_init (pools_zero D)) = Map.empty"
    using memp_init_inv [of "pools_zero D"] memp_init_ok(1) [of "pools_zero D"] assms(1) by auto
  note r = pool_alloc.client_run [OF assms(2) i(1)]
  have "x \<in> L" if "pool_live s x \<noteq> None" for x using r(3) [of x] that i(2) by (cases "x \<in> L") auto
  then have d: "dom (pool_live s) = L" using r(2) by (auto simp: dom_def)
  have ok: "pool_ok s t" and n: "memp_pools s t = D t" for t using r(1) by (auto simp: pools_inv_def)
  have used: "mps_used s t = card {p \<in> L. fst p = Pool t}" for t using used_is_live [OF ok] d by simp
  moreover have "fst (memp_malloc t s) = None \<longleftrightarrow> card {p \<in> L. fst p = Pool t} = d_num (D t)" for t
  proof -
    have "fst (memp_malloc t s) = None \<longleftrightarrow> free_list s t = []"
      using memp_malloc_ok [of s t "fst (memp_malloc t s)" "snd (memp_malloc t s)"] r(1) by (auto split: option.splits)
    moreover have "d_num (D t) = 0 \<Longrightarrow> free_list s t = []" using free_length [OF ok, of t] n by simp
    ultimately show ?thesis using used [of t] ok [of t] free_length [OF ok, of t] n [of t]
      by (cases "free_list s t") (auto simp: pool_ok_def)
  qed
  ultimately show ?thesis using r d pool_alloc.run_apart [OF assms(2) i(1)] by auto
qed

text \<open>Descriptors with one element of four octets each, for the witness.\<close>

definition desc_one :: "memp_t \<Rightarrow> memp_desc" where
  "desc_one t = \<lparr>d_num = 1, d_size = 4\<rparr>"

theorem memp_client_witness:
  "(\<exists>p s. memp_malloc MEMP_PBUF (memp_init (pools_zero desc_one)) = (Some p, s) \<and> mps_used s MEMP_PBUF = 1 \<and>
     fst (memp_malloc MEMP_PBUF s) = None)"
proof -
  let ?s0 = "memp_init (pools_zero desc_one)"
  have D: "\<forall>t. 0 < d_size (desc_one t) \<and> d_num (desc_one t) < 65536" by (simp add: desc_one_def)
  have one: "d_num (desc_one t) = 1" for t by (simp add: desc_one_def)
  have "fst (memp_malloc MEMP_PBUF ?s0) \<noteq> None"
    using memp_client [OF D rtranclp.rtrancl_refl] by (auto simp: one)
  then obtain p s where ps: "memp_malloc MEMP_PBUF ?s0 = (Some p, s)" by (cases "memp_malloc MEMP_PBUF ?s0") auto
  then have st: "client_step (\<lambda>t s. Some (memp_malloc t s)) memp_give_back (?s0, {}) (s, insert p {})"
    by (intro client_step.served) auto
  have "p \<in> elems ?s0 MEMP_PBUF"
    using memp_malloc_ok [OF _ ps] memp_init_inv [of "pools_zero desc_one"] D by simp
  then have "{q \<in> insert p {}. fst q = Pool MEMP_PBUF} = {p}" using elems_pool by auto
  moreover have "(client_step (\<lambda>t s. Some (memp_malloc t s)) memp_give_back)\<^sup>*\<^sup>* (?s0, {}) (s, insert p {})"
    using st by (rule r_into_rtranclp)
  ultimately show ?thesis using memp_client [OF D] ps by (fastforce simp: one)
qed

end
