(* ===== verification/Def_C.thy ===== *)
theory Def_C
  imports Lwip_Prelude
begin

text \<open>
  The functions of \<^verbatim>\<open>lwip/src/core/def.c\<close>: byte order (this build is little-endian),
  searching and comparing C strings without regard to case, and printing an integer; with the
  functions of the C library they call.
\<close>

section \<open>Byte order\<close>

definition lwip_htons :: "u16 \<Rightarrow> u16" where
  "lwip_htons x = push_bit 8 (x AND 0x00ff) OR drop_bit 8 (x AND 0xff00)"

definition lwip_htonl :: "u32 \<Rightarrow> u32" where
  "lwip_htonl x = push_bit 24 (x AND 0x000000ff) OR push_bit 8 (x AND 0x0000ff00) OR
     drop_bit 8 (x AND 0x00ff0000) OR drop_bit 24 (x AND 0xff000000)"

text \<open>The value of a 16-bit or 32-bit integer stored at \<open>p\<close>, and storing one.\<close>

definition le16 :: "u8 \<Rightarrow> u8 \<Rightarrow> u16" where
  "le16 a b = ucast a OR push_bit 8 (ucast b)"

definition be16 :: "u8 \<Rightarrow> u8 \<Rightarrow> u16" where
  "be16 a b = push_bit 8 (ucast a) OR ucast b"

definition get16 :: "octets \<Rightarrow> ptr \<Rightarrow> u16" where
  "get16 m p = le16 (m p) (m (ptr_add p 1))"

definition pack32 :: "u8 \<Rightarrow> u8 \<Rightarrow> u8 \<Rightarrow> u8 \<Rightarrow> u32" where
  "pack32 a b c d = ucast a OR push_bit 8 (ucast b) OR push_bit 16 (ucast c) OR push_bit 24 (ucast d)"

definition get32 :: "octets \<Rightarrow> ptr \<Rightarrow> u32" where
  "get32 m p = pack32 (m p) (m (ptr_add p 1)) (m (ptr_add p 2)) (m (ptr_add p 3))"

definition put16 :: "ptr \<Rightarrow> u16 \<Rightarrow> octets \<Rightarrow> octets" where
  "put16 p x m = mem_write m p [ucast x, ucast (drop_bit 8 x)]"

definition put32 :: "ptr \<Rightarrow> u32 \<Rightarrow> octets \<Rightarrow> octets" where
  "put32 p x m = mem_write m p [ucast x, ucast (drop_bit 8 x), ucast (drop_bit 16 x), ucast (drop_bit 24 x)]"

section \<open>C strings\<close>

text \<open>\<^verbatim>\<open>strlen\<close> of the C library: up to the first zero octet.\<close>

partial_function (option) strlen :: "octets \<Rightarrow> ptr \<Rightarrow> nat \<Rightarrow> nat option" where
  "strlen m p n = (if m (ptr_add p (int n)) = 0 then Some n else strlen m p (n + 1))"

text \<open>Whether \<^verbatim>\<open>strncmp\<close> of the C library returns 0.\<close>

fun strncmp_eq :: "octets \<Rightarrow> ptr \<Rightarrow> ptr \<Rightarrow> nat \<Rightarrow> bool" where
  "strncmp_eq m p q 0 = True"
| "strncmp_eq m p q (Suc n) = (if m p \<noteq> m q then False else if m p = 0 then True
     else strncmp_eq m (ptr_add p 1) (ptr_add q 1) n)"

function strnstr_loop :: "octets \<Rightarrow> ptr \<Rightarrow> ptr \<Rightarrow> nat \<Rightarrow> nat \<Rightarrow> nat \<Rightarrow> ptr option" where
  "strnstr_loop m buffer token tokenlen n i =
     (let p = ptr_add buffer (int i)
      in if m p \<noteq> 0 \<and> i + tokenlen \<le> n then
           (if m p = m token \<and> strncmp_eq m p token tokenlen then Some p
            else strnstr_loop m buffer token tokenlen n (i + 1))
         else None)"
  by pat_completeness auto
termination by (relation "measure (\<lambda>(m, b, t, l, n, i). Suc n - i)") auto

declare strnstr_loop.simps [simp del]

text \<open>The result is \<open>None\<close> when \<open>token\<close> has no end, a NULL pointer is \<open>Some None\<close>.\<close>

definition lwip_strnstr :: "octets \<Rightarrow> ptr \<Rightarrow> ptr \<Rightarrow> nat \<Rightarrow> ptr option option" where
  "lwip_strnstr m buffer token n = do {
     tokenlen \<leftarrow> strlen m token 0;
     if tokenlen = 0 then Some (Some buffer)
     else Some (strnstr_loop m buffer token tokenlen n 0)
   }"

text \<open>One round of the two comparisons that ignore case: whether they return 1 at this pair.\<close>

definition differ_upc :: "u8 \<Rightarrow> u8 \<Rightarrow> bool" where
  "differ_upc c1 c2 \<longleftrightarrow> (if c1 \<noteq> c2 then
     (let c1_upc = c1 OR 0x20
      in if 0x61 \<le> c1_upc \<and> c1_upc \<le> 0x7a then (let c2_upc = c2 OR 0x20 in c1_upc \<noteq> c2_upc) else True)
     else False)"

partial_function (option) lwip_stricmp :: "octets \<Rightarrow> ptr \<Rightarrow> ptr \<Rightarrow> int option" where
  "lwip_stricmp m str1 str2 =
     (if differ_upc (m str1) (m str2) then Some 1
      else if m str1 \<noteq> 0 then lwip_stricmp m (ptr_add str1 1) (ptr_add str2 1) else Some 0)"

partial_function (option) lwip_strnicmp :: "octets \<Rightarrow> ptr \<Rightarrow> ptr \<Rightarrow> u32 \<Rightarrow> int option" where
  "lwip_strnicmp m str1 str2 len =
     (if differ_upc (m str1) (m str2) then Some 1
      else if len - 1 \<noteq> 0 \<and> m str1 \<noteq> 0
        then lwip_strnicmp m (ptr_add str1 1) (ptr_add str2 1) (len - 1) else Some 0)"

partial_function (option) strnistr_loop :: "octets \<Rightarrow> ptr \<Rightarrow> ptr \<Rightarrow> nat \<Rightarrow> nat \<Rightarrow> nat \<Rightarrow> ptr option option" where
  "strnistr_loop m buffer token tokenlen n i =
     (let p = ptr_add buffer (int i)
      in if m p \<noteq> 0 \<and> i + tokenlen \<le> n then do {
           c \<leftarrow> lwip_strnicmp m p token (of_nat tokenlen);
           if c = 0 then Some (Some p) else strnistr_loop m buffer token tokenlen n (i + 1)
         } else Some None)"

definition lwip_strnistr :: "octets \<Rightarrow> ptr \<Rightarrow> ptr \<Rightarrow> nat \<Rightarrow> ptr option option" where
  "lwip_strnistr m buffer token n = do {
     tokenlen \<leftarrow> strlen m token 0;
     if tokenlen = 0 then Some (Some buffer)
     else strnistr_loop m buffer token tokenlen n 0
   }"

section \<open>Printing an integer\<close>

text \<open>
  The positions \<^verbatim>\<open>res\<close> and \<^verbatim>\<open>tmp\<close> are offsets into the buffer. Negating the least
  integer overflows, which has no defined result.
\<close>

fun itoa_loop :: "ptr \<Rightarrow> nat \<Rightarrow> nat \<Rightarrow> nat \<Rightarrow> octets \<Rightarrow> nat \<times> nat \<times> octets" where
  "itoa_loop result res n 0 m = (n, 0, m)"
| "itoa_loop result res n (Suc tmp) m =
     (if n \<noteq> 0 \<and> Suc tmp > res
      then itoa_loop result res (n div 10) tmp (m(ptr_add result (int tmp) := of_nat (48 + n mod 10)))
      else (n, Suc tmp, m))"

definition lwip_itoa :: "ptr \<Rightarrow> nat \<Rightarrow> int \<Rightarrow> octets \<Rightarrow> octets option" where
  "lwip_itoa result bufsize number m =
     (if number = - (2 ^ 31) then None
      else
        (let n = nat (abs number) in
         if bufsize < 2 then Some (if bufsize = 1 then m(result := 0) else m)
         else
           (let m = (if number < 0 then m(result := 45) else m);
                res = (if number < 0 then 1 else 0);
                m = m(ptr_add result (int (bufsize - 1)) := 0);
                (n, tmp, m) = itoa_loop result res n (bufsize - 1) m
            in if n \<noteq> 0 then Some (m(result := 0))
               else if m (ptr_add result (int tmp)) = 0 then
                 Some (m(ptr_add result (int res) := 48, ptr_add result (int (res + 1)) := 0))
               else Some (mem_write m (ptr_add result (int res))
                      (mem_read m (ptr_add result (int tmp)) (bufsize - tmp))))))"

section \<open>Byte order and arithmetic\<close>

lemma masks: "(0xff :: 'a :: len word) = mask 8" "(0xffff :: 'a :: len word) = mask 16"
  by (simp_all add: mask_eq_exp_minus_1)

lemma high16: "(0xff00 :: u16) = NOT (mask 8)" "(0xff00 :: u32) = push_bit 8 (mask 8)"
  "(0xff0000 :: u32) = push_bit 16 (mask 8)" "(0xff000000 :: u32) = push_bit 24 (mask 8)"
  by (simp_all add: mask_eq_exp_minus_1 push_bit_eq_mult)

lemma htons_parts: "lwip_htons x = push_bit 8 x + drop_bit 8 x"
proof -
  have "lwip_htons x = push_bit 8 x OR drop_bit 8 x"
    unfolding lwip_htons_def masks high16
    by (rule bit_word_eqI) (auto simp: bit_simps dest: bit_imp_le_length)
  also have "\<dots> = push_bit 8 x + drop_bit 8 x"
    by (rule disjunctive_add [symmetric]) (auto simp: bit_simps dest: bit_imp_le_length)
  finally show ?thesis .
qed

lemma swap_arith:
  assumes "u < (65536 :: nat)"
  shows "(u * 256 mod 65536 + u div 256) mod 65536 = 256 * (u mod 256) + u div 256"
proof -
  define q r where "q = u div 256" and "r = u mod 256"
  have u: "u = 256 * q + r" "q < 256" "r < 256" using assms by (simp_all add: q_def r_def less_mult_imp_div_less)
  have "u * 256 = 256 * r + q * 65536" using u(1) by simp
  then have "u * 256 mod 65536 = 256 * r mod 65536" by (metis mod_mult_self1)
  then have "u * 256 mod 65536 = 256 * r" using u(3) by simp
  then show ?thesis using u by (simp add: q_def [symmetric] r_def [symmetric])
qed

lemma unat_htons: "unat (lwip_htons x) = 256 * (unat x mod 256) + unat x div 256"
  using swap_arith [OF unat_u16_less, of x]
  by (simp add: htons_parts unat_word_ariths unsigned_push_bit_eq unsigned_drop_bit_eq push_bit_eq_mult
        drop_bit_eq_div take_bit_eq_mod)

lemma le16_parts: "le16 a b = ucast a + push_bit 8 (ucast b)"
  unfolding le16_def by (rule disjunctive_add [symmetric]) (auto simp: bit_simps dest: bit_imp_le_length)

lemma unat_le16: "unat (le16 a b) = unat a + 256 * unat b"
  using unat_u8_less [of a] unat_u8_less [of b]
  by (simp add: le16_parts unat_word_ariths unsigned_push_bit_eq unsigned_ucast_eq push_bit_eq_mult take_bit_eq_mod
      del: unat_u8_less)

section \<open>Strings\<close>

text \<open>A string at \<open>p\<close>: its characters, none of them zero, and the zero octet behind them.\<close>

definition str_at :: "octets \<Rightarrow> ptr \<Rightarrow> u8 list \<Rightarrow> bool" where
  "str_at m p cs \<longleftrightarrow> mem_read m p (length cs) = cs \<and> 0 \<notin> set cs \<and> m (ptr_add p (int (length cs))) = 0"

lemma str_at_simps [simp]:
  "str_at m p [] \<longleftrightarrow> m p = 0"
  "str_at m p (c # cs) \<longleftrightarrow> m p = c \<and> c \<noteq> 0 \<and> str_at m (ptr_add p 1) cs"
  using mem_read_add [of m p 1 "length cs"]
  by (auto simp: str_at_def mem_read_def upt_rec [of 0 "Suc 0"] add.commute)

lemma strlen_zero:
  assumes "m (ptr_add p (int (k + d))) = 0" "\<forall>i < d. m (ptr_add p (int (k + i))) \<noteq> 0"
  shows "strlen m p k = Some (k + d)"
  using assms
proof (induction d arbitrary: k)
  case 0
  then show ?case by (subst strlen.simps) simp
next
  case (Suc d)
  have "m (ptr_add p (int k)) \<noteq> 0" using Suc.prems(2) by force
  moreover have "strlen m p (k + 1) = Some (k + 1 + d)"
  proof (rule Suc.IH)
    show "m (ptr_add p (int (k + 1 + d))) = 0" using Suc.prems(1) by simp
    show "\<forall>i<d. m (ptr_add p (int (k + 1 + i))) \<noteq> 0"
      using Suc.prems(2) [rule_format, of "Suc _"] by (auto simp: ac_simps)
  qed
  ultimately show ?case by (subst strlen.simps) simp
qed

lemma strlen_str_at:
  assumes "str_at m p cs"
  shows "strlen m p 0 = Some (length cs)"
proof -
  have "m (ptr_add p (int i)) \<noteq> 0" if "i < length cs" for i
    using assms that nth_mem [OF that] nth_mem_read [OF that, of m p] unfolding str_at_def by metis
  then show ?thesis using assms strlen_zero [of m p 0 "length cs"] by (simp add: str_at_def)
qed

lemma strncmp_str_at:
  "str_at m p bs \<Longrightarrow> str_at m q ts \<Longrightarrow> strncmp_eq m p q (length ts) \<longleftrightarrow> take (length ts) bs = ts"
proof (induction ts arbitrary: bs p q)
  case (Cons t ts)
  then show ?case by (cases bs) auto
qed simp

lemma str_at_drop: "str_at m p bs \<Longrightarrow> i \<le> length bs \<Longrightarrow> str_at m (ptr_add p (int i)) (drop i bs)"
proof (induction bs arbitrary: p i)
  case (Cons b bs)
  then show ?case using Cons.IH [of "ptr_add p 1" "i - 1"] by (cases i) auto
qed simp

lemma strnstr_loop_find:
  assumes b: "str_at m buf bs" and t: "str_at m tok ts" "ts \<noteq> []" and i: "i \<le> length bs"
  shows "strnstr_loop m buf tok (length ts) n i =
    map_option (\<lambda>j. ptr_add buf (int j))
      (find (\<lambda>j. j + length ts \<le> n \<and> take (length ts) (drop j bs) = ts) [i..<length bs])"
  using i
proof (induction "length bs - i" arbitrary: i)
  case 0
  then have "m (ptr_add buf (int i)) = 0" using b by (simp add: str_at_def)
  with 0 show ?case by (subst strnstr_loop.simps) simp
next
  case (Suc k)
  then have lt: "i < length bs" by simp
  have s: "str_at m (ptr_add buf (int i)) (drop i bs)" using b Suc.prems by (rule str_at_drop)
  obtain c cs where c: "drop i bs = c # cs" using lt by (metis Cons_nth_drop_Suc)
  obtain u us where u: "ts = u # us" using t(2) by (cases ts) auto
  have cmp: "strncmp_eq m (ptr_add buf (int i)) tok (length ts) \<longleftrightarrow> take (length ts) (drop i bs) = ts"
    by (rule strncmp_str_at [OF s t(1)])
  have hd: "m (ptr_add buf (int i)) = c" "c \<noteq> 0" "m tok = u" using s c t(1) u by auto
  have up: "[i..<length bs] = i # [Suc i..<length bs]" using lt by (rule upt_conv_Cons)
  show ?case
  proof (cases "i + length ts \<le> n \<and> take (length ts) (drop i bs) = ts")
    case True
    then have "c = u" using c u by auto
    with True cmp hd show ?thesis by (subst strnstr_loop.simps) (simp add: up)
  next
    case False
    have ih: "strnstr_loop m buf tok (length ts) n (Suc i) = map_option (\<lambda>j. ptr_add buf (int j))
      (find (\<lambda>j. j + length ts \<le> n \<and> take (length ts) (drop j bs) = ts) [Suc i..<length bs])"
      using Suc lt by simp
    show ?thesis
    proof (cases "i + length ts \<le> n")
      case True
      with False cmp hd ih show ?thesis by (subst strnstr_loop.simps) (auto simp: up)
    next
      case False
      then have "find (\<lambda>j. j + length ts \<le> n \<and> take (length ts) (drop j bs) = ts) [i..<length bs] = None"
        by (auto simp: find_None_iff)
      with False show ?thesis by (subst strnstr_loop.simps) simp
    qed
  qed
qed

text \<open>
  C7. \<^verbatim>\<open>lwip_strnstr\<close> returns the first occurrence of a string in a string that ends within the
  first \<open>n\<close> characters, NULL when there is none, and the start for the empty string.
\<close>

theorem lwip_strnstr_first:
  assumes "str_at m buf bs" "str_at m tok ts"
  shows "lwip_strnstr m buf tok n = Some (if ts = [] then Some buf
    else map_option (\<lambda>j. ptr_add buf (int j))
      (find (\<lambda>j. j + length ts \<le> n \<and> take (length ts) (drop j bs) = ts) [0..<length bs]))"
  using strlen_str_at [OF assms(2)] strnstr_loop_find [OF assms, of 0 n] by (simp add: lwip_strnstr_def)

definition abcb :: octets where
  "abcb = mem_write (mem_write (\<lambda>_. 0) (Ext 0, 0) [97, 98, 99, 98]) (Ext 1, 0) [98]"

theorem lwip_strnstr_first_witness:
  "lwip_strnstr abcb (Ext 0, 0) (Ext 1, 0) 4 = Some (Some (Ext 0, 1)) \<and>
   lwip_strnstr abcb (Ext 0, 0) (Ext 1, 0) 1 = Some None"
proof -
  have a: "str_at abcb (Ext 0, 0) [97, 98, 99, 98]" "str_at abcb (Ext 1, 0) [98]"
    by (simp_all add: abcb_def mem_write_def ptr_add_def nth_Cons')
  show ?thesis using lwip_strnstr_first [OF a] by (simp add: upt_rec ptr_add_def)
qed

section \<open>Decimal numbers\<close>

fun decimal :: "nat \<Rightarrow> u8 list" where
  "decimal n = (if n < 10 then [of_nat (48 + n)] else decimal (n div 10) @ [of_nat (48 + n mod 10)])"

declare decimal.simps [simp del]

lemma decimal_ne: "decimal n \<noteq> []"
  by (subst decimal.simps) simp

lemma unat_of_nat8: "n < 256 \<Longrightarrow> unat (of_nat n :: u8) = n"
  by (simp add: unsigned_of_nat take_bit_nat_eq_self)

lemma digit_nz: "d < 10 \<Longrightarrow> (of_nat (48 + d) :: u8) \<noteq> 0"
  by (simp add: word_unat_eq_iff unat_of_nat8 del: of_nat_add)

lemma decimal_nz: "0 \<notin> set (decimal n)"
proof (induction n rule: decimal.induct)
  case (1 n)
  then show ?case using digit_nz [of n] digit_nz [of "n mod 10"] by (subst decimal.simps) auto
qed

text \<open>The part of memory the buffer \<open>[lo, hi)\<close> behind \<open>p\<close> does not cover.\<close>

definition off_buf :: "ptr \<Rightarrow> nat \<Rightarrow> nat \<Rightarrow> ptr \<Rightarrow> bool" where
  "off_buf p lo hi q \<longleftrightarrow> fst q \<noteq> fst p \<or> snd q < snd p + int lo \<or> snd p + int hi \<le> snd q"

lemma mem_write_snoc:
  "mem_write (m(ptr_add p (int (length ds)) := d)) p ds = mem_write m p (ds @ [d])"
proof
  fix q
  show "mem_write (m(ptr_add p (int (length ds)) := d)) p ds q = mem_write m p (ds @ [d]) q"
    by (cases "q = ptr_add p (int (length ds))")
      (auto simp: mem_write_def nth_append prod_eq_iff ptr_add_def less_le)
qed

lemma itoa_loop_0 [simp]: "itoa_loop r lo 0 j m = (0, j, m)"
  by (cases j) auto

lemma itoa_loop_fits:
  assumes "0 < n" "length (decimal n) + lo \<le> j"
  shows "itoa_loop r lo n j m =
    (0, j - length (decimal n), mem_write m (ptr_add r (int (j - length (decimal n)))) (decimal n))"
  using assms
proof (induction j arbitrary: n m)
  case 0
  then show ?case using decimal_ne by auto
next
  case (Suc j)
  let ?d = "of_nat (48 + n mod 10) :: u8"
  have "0 < length (decimal n)" using decimal_ne by simp
  then have "lo < Suc j" using Suc.prems(2) by linarith
  then have step: "itoa_loop r lo n (Suc j) m = itoa_loop r lo (n div 10) j (m(ptr_add r (int j) := ?d))"
    using Suc.prems by simp
  show ?case
  proof (cases "n < 10")
    case True
    then have "decimal n = [?d]" by (subst decimal.simps) simp
    with step True mem_write_snoc [of m "ptr_add r (int j)" "[]" ?d] show ?thesis by simp
  next
    case False
    then have d: "decimal n = decimal (n div 10) @ [?d]" by (subst decimal.simps) simp
    let ?l = "length (decimal (n div 10))"
    have l: "?l + lo \<le> j" "0 < n div 10" using Suc.prems d False by simp_all
    have "int (j - ?l) + int ?l = int j" using l(1) by simp
    then have "mem_write (m(ptr_add r (int j) := ?d)) (ptr_add r (int (j - ?l))) (decimal (n div 10)) =
      mem_write m (ptr_add r (int (j - ?l))) (decimal n)"
      using mem_write_snoc [of m "ptr_add r (int (j - ?l))" "decimal (n div 10)" ?d] d by simp
    then show ?thesis unfolding step Suc.IH [OF l(2,1)] using d by simp
  qed
qed

lemma itoa_loop_short:
  assumes "0 < n" "j < length (decimal n) + lo" "lo \<le> j"
  shows "\<exists>n' m'. itoa_loop r lo n j m = (n', lo, m') \<and> n' \<noteq> 0 \<and> (\<forall>q. off_buf r lo j q \<longrightarrow> m' q = m q)"
  using assms
proof (induction j arbitrary: n m)
  case 0
  then show ?case by simp
next
  case (Suc j)
  let ?d = "of_nat (48 + n mod 10) :: u8"
  show ?case
  proof (cases "lo = Suc j")
    case True
    with Suc.prems show ?thesis by simp
  next
    case False
    then have step: "itoa_loop r lo n (Suc j) m = itoa_loop r lo (n div 10) j (m(ptr_add r (int j) := ?d))"
      and lo: "lo \<le> j" using Suc.prems by simp_all
    have "\<not> n < 10" using Suc.prems(2) False lo by (subst (asm) decimal.simps) (auto split: if_splits)
    then have d: "decimal n = decimal (n div 10) @ [?d]" "0 < n div 10" by (subst decimal.simps, simp_all)
    then have "j < length (decimal (n div 10)) + lo" using Suc.prems(2) by simp
    with Suc.IH [OF d(2) this lo, of "m(ptr_add r (int j) := ?d)"] lo show ?thesis
      unfolding step by (fastforce simp: off_buf_def ptr_add_def)
  qed
qed

lemma mem_read_1: "mem_read m p (Suc 0) = [m p]"
  by (simp add: mem_read_def)

lemma str_at_write: "0 \<notin> set cs \<Longrightarrow> str_at (mem_write m p (cs @ [0])) p cs"
  using mem_read_write_same [of "cs @ [0]" "length cs + 1" m p]
  by (simp only: str_at_def mem_read_add) (simp add: mem_read_1)

lemma itoa_string:
  assumes "- (2 ^ 31) < number" "0 < bufsize"
  defines "digits \<equiv> (if number < 0 then [45] else []) @ decimal (nat \<bar>number\<bar>)"
  shows "\<exists>m'. lwip_itoa result bufsize number m = Some m' \<and>
    (if length digits < bufsize then str_at m' result digits else m' result = 0) \<and>
    (\<forall>q. off_buf result 0 bufsize q \<longrightarrow> m' q = m q)"
proof -
  define n lo where "n = nat \<bar>number\<bar>" and "lo = (if number < 0 then 1 else 0 :: nat)"
  define m1 where "m1 = (if number < 0 then m(result := 45) else m)"
  define m2 where "m2 = m1(ptr_add result (int (bufsize - 1)) := 0)"
  have tlen: "length digits = lo + length (decimal n)" by (simp add: digits_def lo_def n_def)
  have L: "0 < length (decimal n)" using decimal_ne by simp
  have m2: "off_buf result 0 bufsize q \<Longrightarrow> m2 q = m q" for q
    using assms(2) by (auto simp: m2_def m1_def off_buf_def ptr_add_def)
  have run: "lwip_itoa result bufsize number m = (case itoa_loop result lo n (bufsize - 1) m2 of (k, tmp, m3) \<Rightarrow>
      if k \<noteq> 0 then Some (m3(result := 0))
      else if m3 (ptr_add result (int tmp)) = 0
        then Some (m3(ptr_add result (int lo) := 48, ptr_add result (int (lo + 1)) := 0))
      else Some (mem_write m3 (ptr_add result (int lo)) (mem_read m3 (ptr_add result (int tmp)) (bufsize - tmp))))"
    if "2 \<le> bufsize"
    unfolding lwip_itoa_def n_def lo_def m1_def m2_def Let_def using that assms(1) by simp
  consider "bufsize = 1" | "2 \<le> bufsize" "n = 0" | "2 \<le> bufsize" "0 < n" "length digits < bufsize"
    | "2 \<le> bufsize" "0 < n" "bufsize \<le> length digits" using assms(2) by linarith
  then show ?thesis
  proof cases
    case 1
    then show ?thesis using assms(1) L tlen by (auto simp: lwip_itoa_def Let_def off_buf_def)
  next
    case 2
    then have "number = 0" "lo = 0" "digits = [48]" by (simp_all add: n_def lo_def digits_def decimal.simps)
    with run [OF 2(1)] 2 m2 show ?thesis by (auto simp: m2_def off_buf_def ptr_add_def prod_eq_iff)
  next
    case 3
    let ?ds = "decimal n" and ?tmp = "bufsize - 1 - length (decimal n)"
    let ?m3 = "mem_write m2 (ptr_add result (int ?tmp)) ?ds"
    have "length ?ds + lo \<le> bufsize - 1" using 3(3) tlen by linarith
    then have loop: "itoa_loop result lo n (bufsize - 1) m2 = (0, ?tmp, ?m3)" by (rule itoa_loop_fits [OF 3(2)])
    have rd: "mem_read ?m3 (ptr_add result (int ?tmp)) (bufsize - ?tmp) = ?ds @ [0]"
    proof -
      have e: "bufsize - ?tmp = length ?ds + 1" "int ?tmp + int (length ?ds) = int (bufsize - 1)"
        using 3(1,3) tlen by simp_all
      have "?m3 (ptr_add result (int (bufsize - 1))) = 0"
        using e(2) by (simp add: mem_write_def m2_def)
      with e(2) show ?thesis unfolding e(1) mem_read_add
        by (simp add: mem_simps mem_read_1)
    qed
    have hd: "?m3 (ptr_add result (int ?tmp)) \<noteq> 0"
      using decimal_nz [of n] L by (cases ?ds) (auto simp: mem_write_def)
    let ?m4 = "mem_write ?m3 (ptr_add result (int lo)) (?ds @ [0])"
    have r4: "lwip_itoa result bufsize number m = Some ?m4" using run [OF 3(1)] loop rd hd by simp
    have "str_at ?m4 (ptr_add result (int lo)) ?ds" by (rule str_at_write [OF decimal_nz])
    moreover have "?m4 result = 45" if "number < 0"
      using that 3(1,3) tlen by (auto simp: mem_write_def m2_def m1_def lo_def ptr_add_def prod_eq_iff)
    ultimately have "str_at ?m4 result digits" by (auto simp: digits_def lo_def n_def)
    moreover have "?m4 q = m q" if "off_buf result 0 bufsize q" for q
      using m2 [OF that] that 3(1,3) tlen by (auto simp: mem_write_def off_buf_def)
    ultimately show ?thesis using r4 3(3) by auto
  next
    case 4
    then have "bufsize - 1 < length (decimal n) + lo" "lo \<le> bufsize - 1" using tlen by (auto simp: lo_def)
    from itoa_loop_short [OF 4(2) this] obtain k m3 where
      m3: "itoa_loop result lo n (bufsize - 1) m2 = (k, lo, m3)" "k \<noteq> 0" "\<forall>q. off_buf result lo (bufsize - 1) q \<longrightarrow> m3 q = m2 q"
      by blast
    have "(m3(result := 0)) q = m q" if q: "off_buf result 0 bufsize q" for q
    proof -
      have "q \<noteq> result" "off_buf result lo (bufsize - 1) q" using q 4(1) by (auto simp: off_buf_def)
      then show ?thesis using m3(3) m2 [OF q] by simp
    qed
    with run [OF 4(1)] 4(3) m3(1,2) show ?thesis by simp
  qed
qed

text \<open>
  C8. \<^verbatim>\<open>lwip_itoa\<close> leaves the decimal representation of the number, with its sign, as a string in
  the buffer when it fits, and the empty string when it does not; it never writes outside the
  buffer. The least integer is the one number for which it has no defined result.
\<close>

theorem lwip_itoa_decimal:
  assumes "- (2 ^ 31) < number" "0 < bufsize"
  defines "digits \<equiv> (if number < 0 then [45] else []) @ decimal (nat \<bar>number\<bar>)"
  shows "\<exists>m'. lwip_itoa result bufsize number m = Some m' \<and>
    (if length digits < bufsize then str_at m' result digits else m' result = 0) \<and>
    (\<forall>q. off_buf result 0 bufsize q \<longrightarrow> m' q = m q)"
  unfolding digits_def by (rule itoa_string [OF assms(1,2)])

theorem lwip_itoa_decimal_witness:
  "\<exists>m'. lwip_itoa (Ext 0, 0) 4 (-17) (\<lambda>_. 9) = Some m' \<and> str_at m' (Ext 0, 0) [45, 49, 55]"
proof -
  have "decimal 17 = [49, 55]" by (simp add: decimal.simps)
  then show ?thesis using lwip_itoa_decimal [of "-17" 4 "(Ext 0, 0)" "\<lambda>_. 9"] by auto
qed

section \<open>Byte order\<close>

lemma htons_htons [simp]: "lwip_htons (lwip_htons x) = x"
proof -
  have "unat x div 256 < 256" using unat_u16_less [of x] by (simp add: less_mult_imp_div_less)
  then show ?thesis by (simp add: word_unat_eq_iff unat_htons)
qed

lemma bit_u8: "bit (x :: u8) n \<Longrightarrow> n < 8" using bit_imp_le_length by fastforce
lemma pack32_bytes [simp]: "ucast (pack32 a b c d) = a" "ucast (drop_bit 8 (pack32 a b c d)) = b" "ucast (drop_bit 16 (pack32 a b c d)) = c" "ucast (drop_bit 24 (pack32 a b c d)) = d"
  unfolding pack32_def by (rule bit_word_eqI; auto simp: bit_simps dest: bit_u8)+

lemma bytes32:
  assumes "\<And>n. n < 8 \<Longrightarrow> bit x n = bit y n" "\<And>n. n < 8 \<Longrightarrow> bit x (8 + n) = bit y (8 + n)"
    "\<And>n. n < 8 \<Longrightarrow> bit x (16 + n) = bit y (16 + n)" "\<And>n. n < 8 \<Longrightarrow> bit x (24 + n) = bit y (24 + n)"
  shows "(x :: u32) = y"
proof (rule bit_word_eqI)
  fix n assume "n < LENGTH(32)"
  then have "n < 32" by simp
  then consider "n < 8" | "8 \<le> n" "n - 8 < 8" | "16 \<le> n" "n - 16 < 8" | "24 \<le> n" "n - 24 < 8" by linarith
  then show "bit x n = bit y n"
    using assms(1) [of n] assms(2) [of "n - 8"] assms(3) [of "n - 16"] assms(4) [of "n - 24"] by cases auto
qed

lemma pack32_unpack [simp]: "pack32 (ucast x) (ucast (drop_bit 8 x)) (ucast (drop_bit 16 x)) (ucast (drop_bit 24 x)) = x"
  unfolding pack32_def by (rule bytes32) (auto simp: bit_simps)

lemma htonl_pack32 [simp]: "lwip_htonl (pack32 a b c d) = pack32 d c b a"
  unfolding lwip_htonl_def pack32_def masks high16 
  by (rule bytes32) (auto simp: bit_simps dest: bit_u8)

lemma htonl_htonl [simp]: "lwip_htonl (lwip_htonl x) = x"
  by (metis htonl_pack32 pack32_unpack)

lemma get32_put32 [simp]: "get32 (put32 p x m) p = x"
  by (simp add: get32_def put32_def mem_write_def)

lemma get16_put16 [simp]: "get16 (put16 p x m) p = x"
proof -
  have "le16 (ucast x) (ucast (drop_bit 8 x)) = x"
    unfolding le16_def
  proof (rule bit_word_eqI)
    fix n assume "n < LENGTH(16)"
    then show "bit (ucast (ucast x :: u8) OR push_bit 8 (ucast (ucast (drop_bit 8 x) :: u8)) :: u16) n = bit x n"
      by (cases "n < 8") (auto simp: bit_simps)
  qed
  then show ?thesis by (simp add: get16_def put16_def mem_write_def)
qed

end
