(* ===== verification/Pbuf.thy ===== *)
theory Pbuf
  imports Memp Def_C
begin

text \<open>
  The packet buffers of \<^verbatim>\<open>lwip/src/core/pbuf.c\<close>. A pbuf is a record at an address;
  \<open>pb\<close> holds the pbufs that are allocated, so using one after it was freed has no result.
  The data of a pbuf lies in memory at its payload pointer. Functions that follow
  \<^verbatim>\<open>next\<close> pointers are partial functions: on a cyclic or dangling chain they have no
  result (\<open>None\<close>), on well-formed chains they are proved to return.

  A pbuf with \<^verbatim>\<open>PBUF_FLAG_IS_CUSTOM\<close> is freed by a function its owner supplies; that
  function is the argument \<open>cf\<close> of the operations that may free a pbuf.
\<close>

section \<open>Types and constants of lwip/pbuf.h\<close>

datatype pbuf_layer = PBUF_TRANSPORT | PBUF_IP | PBUF_LINK | PBUF_RAW_TX | PBUF_RAW

fun layer_offset :: "pbuf_layer \<Rightarrow> u16" where
  "layer_offset PBUF_TRANSPORT = 56"
| "layer_offset PBUF_IP = 36"
| "layer_offset PBUF_LINK = 16"
| "layer_offset PBUF_RAW_TX = 0"
| "layer_offset PBUF_RAW = 0"

definition PBUF_TYPE_FLAG_STRUCT_DATA_CONTIGUOUS :: u8 where
  "PBUF_TYPE_FLAG_STRUCT_DATA_CONTIGUOUS = 0x80"
definition PBUF_TYPE_FLAG_DATA_VOLATILE :: u8 where "PBUF_TYPE_FLAG_DATA_VOLATILE = 0x40"
definition PBUF_TYPE_ALLOC_SRC_MASK :: u8 where "PBUF_TYPE_ALLOC_SRC_MASK = 0x0F"
definition ALLOC_SRC_HEAP :: u8 where "ALLOC_SRC_HEAP = 0x00"
definition ALLOC_SRC_MEMP_PBUF :: u8 where "ALLOC_SRC_MEMP_PBUF = 0x01"
definition ALLOC_SRC_MEMP_PBUF_POOL :: u8 where "ALLOC_SRC_MEMP_PBUF_POOL = 0x02"
definition PBUF_FLAG_IS_CUSTOM :: u8 where "PBUF_FLAG_IS_CUSTOM = 0x02"

datatype pbuf_type = PBUF_RAM | PBUF_ROM | PBUF_REF | PBUF_POOL

text \<open>The enumeration values, cast to \<^verbatim>\<open>u8_t\<close> as they are stored.\<close>

fun type_code :: "pbuf_type \<Rightarrow> u8" where
  "type_code PBUF_RAM = ucast (0x280 :: u16)"
| "type_code PBUF_ROM = ucast (0x001 :: u16)"
| "type_code PBUF_REF = ucast (0x041 :: u16)"
| "type_code PBUF_POOL = ucast (0x182 :: u16)"

record pbuf =
  p_next :: "ptr option"
  p_payload :: "ptr option"
  p_tot_len :: u16
  p_len :: u16
  p_type :: u8
  p_flags :: u8
  p_ref :: u8
  p_if_idx :: u8

definition SIZEOF_STRUCT_PBUF :: nat where "SIZEOF_STRUCT_PBUF = LWIP_MEM_ALIGN_SIZE 16"
definition PBUF_POOL_BUFSIZE_ALIGNED :: nat where
  "PBUF_POOL_BUFSIZE_ALIGNED = LWIP_MEM_ALIGN_SIZE (LWIP_MEM_ALIGN_SIZE (536 + 40 + 16))"

lemmas pbuf_consts [layout_simps] = SIZEOF_STRUCT_PBUF_def PBUF_POOL_BUFSIZE_ALIGNED_def
  PBUF_TYPE_FLAG_STRUCT_DATA_CONTIGUOUS_def PBUF_TYPE_FLAG_DATA_VOLATILE_def
  PBUF_TYPE_ALLOC_SRC_MASK_def ALLOC_SRC_HEAP_def ALLOC_SRC_MEMP_PBUF_def
  ALLOC_SRC_MEMP_PBUF_POOL_def PBUF_FLAG_IS_CUSTOM_def

record stack = pools +
  pb :: "ptr \<Rightarrow> pbuf option"
  pbuf_free_ooseq_pending :: bool

text \<open>A release function for custom pbufs.\<close>

type_synonym 'a custom_free = "ptr \<Rightarrow> 'a stack_scheme \<Rightarrow> 'a stack_scheme option"

definition deref :: "'a stack_scheme \<Rightarrow> ptr option \<Rightarrow> pbuf option" where
  "deref s p = Option.bind p (pb s)"

definition upd_pbuf :: "ptr \<Rightarrow> (pbuf \<Rightarrow> pbuf) \<Rightarrow> 'a stack_scheme \<Rightarrow> 'a stack_scheme" where
  "upd_pbuf p f s = s\<lparr>pb := (pb s)(p := map_option f (pb s p))\<rparr>"

definition pbuf_get_allocsrc :: "pbuf \<Rightarrow> u8" where
  "pbuf_get_allocsrc b = p_type b AND PBUF_TYPE_ALLOC_SRC_MASK"

definition pbuf_match_allocsrc :: "pbuf \<Rightarrow> u8 \<Rightarrow> bool" where
  "pbuf_match_allocsrc b t \<longleftrightarrow> pbuf_get_allocsrc b = t AND PBUF_TYPE_ALLOC_SRC_MASK"

text \<open>\<^verbatim>\<open>MEMCPY\<close>; through a NULL pointer only the empty copy is defined.\<close>

definition MEMCPY :: "ptr option \<Rightarrow> ptr option \<Rightarrow> nat \<Rightarrow> 'a env_scheme \<Rightarrow> 'a env_scheme option" where
  "MEMCPY dst src n s = (if n = 0 then Some s else do {
     d \<leftarrow> dst; p \<leftarrow> src;
     Some (s\<lparr>octet := mem_write (octet s) d (mem_read (octet s) p n)\<rparr>) })"

text \<open>\<^verbatim>\<open>LWIP_ERROR(message, expression, handler)\<close>: print and run the handler.\<close>

definition LWIP_ERROR :: "string \<Rightarrow> 'a env_scheme \<Rightarrow> 'a env_scheme" where
  "LWIP_ERROR msg s = s\<lparr>diag := msg # diag s\<rparr>"

definition offset_ptr :: "ptr option \<Rightarrow> nat \<Rightarrow> ptr option" where
  "offset_ptr p n = map_option (\<lambda>q. ptr_add q (int n)) p"

section \<open>Freeing\<close>

definition pbuf_pool_is_empty :: "'a stack_scheme \<Rightarrow> 'a stack_scheme" where
  "pbuf_pool_is_empty s = s\<lparr>pbuf_free_ooseq_pending := True\<rparr>"

text \<open>Give the memory of a pbuf without references back to where it came from.\<close>

definition pbuf_release :: "'a custom_free \<Rightarrow> ptr \<Rightarrow> pbuf \<Rightarrow> 'a stack_scheme \<Rightarrow> 'a stack_scheme option" where
  "pbuf_release cf p b s =
     (let alloc_src = pbuf_get_allocsrc b; dead = s\<lparr>pb := (pb s)(p := None)\<rparr>
      in if p_flags b AND PBUF_FLAG_IS_CUSTOM \<noteq> 0 then cf p s
         else if alloc_src = ALLOC_SRC_MEMP_PBUF_POOL then Some (memp_free MEMP_PBUF_POOL (Some p) dead)
         else if alloc_src = ALLOC_SRC_MEMP_PBUF then Some (memp_free MEMP_PBUF (Some p) dead)
         else if alloc_src = ALLOC_SRC_HEAP then
           (if fst p = Ram then Some (mem_free (Some (snd p)) dead) else None)
         else Some (LWIP_ASSERT ''invalid pbuf type'' False s))"

partial_function (option) pbuf_free_loop ::
  "'a custom_free \<Rightarrow> ptr option \<Rightarrow> u8 \<Rightarrow> 'a stack_scheme \<Rightarrow> (u8 \<times> 'a stack_scheme) option" where
  "pbuf_free_loop cf p count s = (case p of None \<Rightarrow> Some (count, s) | Some a \<Rightarrow> do {
     b \<leftarrow> pb s a;
     let s = LWIP_ASSERT ''pbuf_free: p->ref > 0'' (p_ref b > 0) s;
     let ref = p_ref b - 1;
     let s = upd_pbuf a (p_ref_update (\<lambda>_. ref)) s;
     if ref = 0 then do {
       s \<leftarrow> pbuf_release cf a b s;
       pbuf_free_loop cf (p_next b) (count + 1) s
     } else Some (count, s)
   })"

definition pbuf_free :: "'a custom_free \<Rightarrow> ptr option \<Rightarrow> 'a stack_scheme \<Rightarrow> (u8 \<times> 'a stack_scheme) option" where
  "pbuf_free cf p s = (case p of
     None \<Rightarrow> Some (0, LWIP_ASSERT ''p != NULL'' False s)
   | Some _ \<Rightarrow> pbuf_free_loop cf p 0 s)"

section \<open>Allocation\<close>

definition pbuf_init_alloced_pbuf ::
  "ptr \<Rightarrow> ptr option \<Rightarrow> u16 \<Rightarrow> u16 \<Rightarrow> pbuf_type \<Rightarrow> u8 \<Rightarrow> 'a stack_scheme \<Rightarrow> 'a stack_scheme" where
  "pbuf_init_alloced_pbuf p payload tot_len len type flags s = s\<lparr>pb := (pb s)(p \<mapsto>
     \<lparr>p_next = None, p_payload = payload, p_tot_len = tot_len, p_len = len, p_type = type_code type,
      p_flags = flags, p_ref = 1, p_if_idx = 0\<rparr>)\<rparr>"

definition pbuf_alloc_reference ::
  "ptr option \<Rightarrow> u16 \<Rightarrow> pbuf_type \<Rightarrow> 'a stack_scheme \<Rightarrow> ptr option \<times> 'a stack_scheme" where
  "pbuf_alloc_reference payload leng type s =
     (let s = LWIP_ASSERT ''invalid pbuf_type'' (type = PBUF_REF \<or> type = PBUF_ROM) s;
          (p, s) = memp_malloc MEMP_PBUF s
      in case p of None \<Rightarrow> (None, s)
         | Some a \<Rightarrow> (Some a, pbuf_init_alloced_pbuf a payload leng leng type 0 s))"

text \<open>The loop of the case \<^verbatim>\<open>PBUF_POOL\<close>: \<open>p\<close> the first pbuf, \<open>lst\<close> the latest.\<close>

partial_function (option) pbuf_alloc_pool_loop ::
  "'a custom_free \<Rightarrow> u16 \<Rightarrow> u16 \<Rightarrow> ptr option \<Rightarrow> ptr option \<Rightarrow> 'a stack_scheme
   \<Rightarrow> (ptr option \<times> 'a stack_scheme) option" where
  "pbuf_alloc_pool_loop cf offset rem_len p lst s =
     (case memp_malloc MEMP_PBUF_POOL s of
        (None, s) \<Rightarrow> do {
          let s = pbuf_pool_is_empty s;
          s \<leftarrow> (if p \<noteq> None then map_option snd (pbuf_free cf p s) else Some s);
          Some (None, s)
        }
      | (Some q, s) \<Rightarrow> do {
          let qlen = min rem_len (of_nat (PBUF_POOL_BUFSIZE_ALIGNED - LWIP_MEM_ALIGN_SIZE (unat offset)));
          let s = pbuf_init_alloced_pbuf q (Some (ptr_add q (int (SIZEOF_STRUCT_PBUF + unat offset))))
                    rem_len qlen PBUF_POOL 0 s;
          let s = LWIP_ASSERT ''PBUF_POOL_BUFSIZE must be bigger than MEM_ALIGNMENT''
                    (PBUF_POOL_BUFSIZE_ALIGNED - LWIP_MEM_ALIGN_SIZE (unat offset) > 0) s;
          s \<leftarrow> (if p = None then Some s
                 else do { l \<leftarrow> lst; Some (upd_pbuf l (p_next_update (\<lambda>_. Some q)) s) });
          let p = (if p = None then Some q else p);
          let rem_len = rem_len - qlen;
          if rem_len > 0 then pbuf_alloc_pool_loop cf 0 rem_len p (Some q) s else Some (p, s)
        })"

definition pbuf_alloc ::
  "'a custom_free \<Rightarrow> pbuf_layer \<Rightarrow> u16 \<Rightarrow> pbuf_type \<Rightarrow> 'a stack_scheme
   \<Rightarrow> (ptr option \<times> 'a stack_scheme) option" where
  "pbuf_alloc cf layer leng type s =
     (let offset = layer_offset layer in
      case type of
        PBUF_REF \<Rightarrow> Some (pbuf_alloc_reference None leng type s)
      | PBUF_ROM \<Rightarrow> Some (pbuf_alloc_reference None leng type s)
      | PBUF_POOL \<Rightarrow> pbuf_alloc_pool_loop cf offset leng None None s
      | PBUF_RAM \<Rightarrow>
          (let payload_len = offset + leng;
               alloc_len = of_nat SIZEOF_STRUCT_PBUF + payload_len
           in if payload_len < leng \<or> alloc_len < leng then Some (None, s)
              else do {
                (m, s) \<leftarrow> mem_malloc (unat alloc_len) s;
                (case m of None \<Rightarrow> Some (None, s)
                 | Some a \<Rightarrow>
                     (let p = (Ram, a);
                          s = pbuf_init_alloced_pbuf p
                                (Some (ptr_add p (int (SIZEOF_STRUCT_PBUF + unat offset))))
                                leng leng type 0 s
                      in Some (Some p, s)))
              }))"

definition pbuf_alloced_custom ::
  "pbuf_layer \<Rightarrow> u16 \<Rightarrow> pbuf_type \<Rightarrow> ptr \<Rightarrow> ptr option \<Rightarrow> u16 \<Rightarrow> 'a stack_scheme
   \<Rightarrow> ptr option \<times> 'a stack_scheme" where
  "pbuf_alloced_custom l leng type p payload_mem payload_mem_len s =
     (let offset = layer_offset l
      in if LWIP_MEM_ALIGN_SIZE (unat offset) + unat leng > unat payload_mem_len then (None, s)
         else (Some p, pbuf_init_alloced_pbuf p
                 (offset_ptr payload_mem (LWIP_MEM_ALIGN_SIZE (unat offset))) leng leng type
                 PBUF_FLAG_IS_CUSTOM s))"

section \<open>Changing the length\<close>

text \<open>The loop of \<^verbatim>\<open>pbuf_realloc\<close> that looks for the new last pbuf.\<close>

partial_function (option) pbuf_realloc_loop ::
  "u16 \<Rightarrow> u16 \<Rightarrow> ptr option \<Rightarrow> 'a stack_scheme \<Rightarrow> (u16 \<times> ptr option \<times> 'a stack_scheme) option" where
  "pbuf_realloc_loop shrink rem_len q s = do {
     b \<leftarrow> deref s q;
     if rem_len > p_len b then do {
       a \<leftarrow> q;
       let s = upd_pbuf a (p_tot_len_update (\<lambda>t. t - shrink)) s;
       let s = LWIP_ASSERT ''pbuf_realloc: q != NULL'' (p_next b \<noteq> None) s;
       pbuf_realloc_loop shrink (rem_len - p_len b) (p_next b) s
     } else Some (rem_len, q, s)
   }"

text \<open>
  The new last pbuf \<open>a\<close> gives the memory behind its data back when it came from the heap. The
  difference of two pointers into different objects has no defined value.
\<close>

definition pbuf_realloc_trim :: "ptr \<Rightarrow> pbuf \<Rightarrow> u16 \<Rightarrow> 'a stack_scheme \<Rightarrow> 'a stack_scheme option" where
  "pbuf_realloc_trim a b rem_len s =
     (if pbuf_match_allocsrc b ALLOC_SRC_HEAP \<and> rem_len \<noteq> p_len b \<and> p_flags b AND PBUF_FLAG_IS_CUSTOM = 0 then do {
        pay \<leftarrow> p_payload b;
        (r, s) \<leftarrow> (if fst a = Ram \<and> fst pay = Ram \<and> snd a \<le> snd pay
                   then mem_trim (snd a) (u16c (nat (snd pay - snd a) + unat rem_len)) s else None);
        let s = LWIP_ASSERT ''mem_trim returned r == NULL'' (r \<noteq> None) s;
        Some (LWIP_ASSERT ''mem_trim returned r != q'' (r = Some (snd a)) s)
      } else Some s)"

definition pbuf_realloc :: "'a custom_free \<Rightarrow> ptr option \<Rightarrow> u16 \<Rightarrow> 'a stack_scheme \<Rightarrow> 'a stack_scheme option" where
  "pbuf_realloc cf p new_len s = do {
     let s = LWIP_ASSERT ''pbuf_realloc: p != NULL'' (p \<noteq> None) s;
     b \<leftarrow> deref s p;
     if new_len \<ge> p_tot_len b then Some s
     else do {
       (rem_len, q, s) \<leftarrow> pbuf_realloc_loop (p_tot_len b - new_len) new_len p s;
       a \<leftarrow> q;
       b \<leftarrow> pb s a;
       s \<leftarrow> pbuf_realloc_trim a b rem_len s;
       let s = upd_pbuf a (\<lambda>b. b\<lparr>p_len := rem_len, p_tot_len := rem_len\<rparr>) s;
       s \<leftarrow> (if p_next b \<noteq> None then map_option snd (pbuf_free cf (p_next b) s) else Some s);
       Some (upd_pbuf a (p_next_update (\<lambda>_. None)) s)
     }
   }"

section \<open>Headers\<close>

definition pbuf_add_header_impl ::
  "ptr option \<Rightarrow> nat \<Rightarrow> bool \<Rightarrow> 'a stack_scheme \<Rightarrow> (u8 \<times> 'a stack_scheme) option" where
  "pbuf_add_header_impl p header_size_increment force s0 =
     (let s = LWIP_ASSERT ''p != NULL'' (p \<noteq> None) s0 in
      case p of None \<Rightarrow> Some (1, s) | Some a \<Rightarrow>
        if header_size_increment > 0xFFFF then Some (1, s)
        else if header_size_increment = 0 then Some (0, s)
        else do {
          b \<leftarrow> pb s a;
          let inc = (of_nat header_size_increment :: u16);
          if inc + p_tot_len b < inc then Some (1, s)
          else do {
            let moved = map_option (\<lambda>q. ptr_add q (- int header_size_increment)) (p_payload b);
            let grow = (\<lambda>b. b\<lparr>p_payload := moved, p_len := p_len b + inc, p_tot_len := p_tot_len b + inc\<rparr>);
            if p_type b AND PBUF_TYPE_FLAG_STRUCT_DATA_CONTIGUOUS \<noteq> 0 then do {
              payload \<leftarrow> moved;
              if fst payload \<noteq> fst a then None
              else if snd payload < snd a + int SIZEOF_STRUCT_PBUF then Some (1, s)
              else Some (0, upd_pbuf a grow s)
            }
            else if force then Some (0, upd_pbuf a grow s)
            else Some (1, s)
          }
        })"

definition pbuf_add_header :: "ptr option \<Rightarrow> nat \<Rightarrow> 'a stack_scheme \<Rightarrow> (u8 \<times> 'a stack_scheme) option" where
  "pbuf_add_header p n s = pbuf_add_header_impl p n False s"

definition pbuf_add_header_force :: "ptr option \<Rightarrow> nat \<Rightarrow> 'a stack_scheme \<Rightarrow> (u8 \<times> 'a stack_scheme) option" where
  "pbuf_add_header_force p n s = pbuf_add_header_impl p n True s"

definition pbuf_remove_header :: "ptr option \<Rightarrow> nat \<Rightarrow> 'a stack_scheme \<Rightarrow> (u8 \<times> 'a stack_scheme) option" where
  "pbuf_remove_header p header_size_decrement s0 =
     (let s = LWIP_ASSERT ''p != NULL'' (p \<noteq> None) s0 in
      case p of None \<Rightarrow> Some (1, s) | Some a \<Rightarrow>
        if header_size_decrement > 0xFFFF then Some (1, s)
        else if header_size_decrement = 0 then Some (0, s)
        else do {
          b \<leftarrow> pb s a;
          let inc = (of_nat header_size_decrement :: u16);
          if \<not> inc \<le> p_len b then Some (1, LWIP_ERROR ''increment_magnitude <= p->len'' s)
          else Some (0, upd_pbuf a (\<lambda>b. b\<lparr>p_payload := offset_ptr (p_payload b) header_size_decrement,
                 p_len := p_len b - inc, p_tot_len := p_tot_len b - inc\<rparr>) s)
        })"

definition pbuf_header_impl ::
  "ptr option \<Rightarrow> u16 \<Rightarrow> bool \<Rightarrow> 'a stack_scheme \<Rightarrow> (u8 \<times> 'a stack_scheme) option" where
  "pbuf_header_impl p inc force s =
     (if sint inc < 0 then pbuf_remove_header p (nat (- sint inc)) s
      else pbuf_add_header_impl p (nat (sint inc)) force s)"

definition pbuf_header :: "ptr option \<Rightarrow> u16 \<Rightarrow> 'a stack_scheme \<Rightarrow> (u8 \<times> 'a stack_scheme) option" where
  "pbuf_header p inc s = pbuf_header_impl p inc False s"

definition pbuf_header_force :: "ptr option \<Rightarrow> u16 \<Rightarrow> 'a stack_scheme \<Rightarrow> (u8 \<times> 'a stack_scheme) option" where
  "pbuf_header_force p inc s = pbuf_header_impl p inc True s"

partial_function (option) pbuf_free_header ::
  "'a custom_free \<Rightarrow> ptr option \<Rightarrow> u16 \<Rightarrow> 'a stack_scheme \<Rightarrow> (ptr option \<times> 'a stack_scheme) option" where
  "pbuf_free_header cf p free_left s =
     (if free_left \<noteq> 0 \<and> p \<noteq> None then do {
        a \<leftarrow> p;
        b \<leftarrow> pb s a;
        if free_left \<ge> p_len b then do {
          let s = upd_pbuf a (p_next_update (\<lambda>_. None)) s;
          (_, s) \<leftarrow> pbuf_free cf (Some a) s;
          pbuf_free_header cf (p_next b) (free_left - p_len b) s
        } else do {
          (_, s) \<leftarrow> pbuf_remove_header p (unat free_left) s;
          Some (p, s)
        }
      } else Some (p, s))"

section \<open>Chains\<close>

partial_function (option) pbuf_clen_loop :: "ptr option \<Rightarrow> u16 \<Rightarrow> 'a stack_scheme \<Rightarrow> u16 option" where
  "pbuf_clen_loop p n s = (case p of None \<Rightarrow> Some n | Some a \<Rightarrow> do {
     b \<leftarrow> pb s a; pbuf_clen_loop (p_next b) (n + 1) s })"

definition pbuf_clen :: "ptr option \<Rightarrow> 'a stack_scheme \<Rightarrow> u16 option" where
  "pbuf_clen p s = pbuf_clen_loop p 0 s"

definition pbuf_ref :: "ptr option \<Rightarrow> 'a stack_scheme \<Rightarrow> 'a stack_scheme option" where
  "pbuf_ref p s = (case p of None \<Rightarrow> Some s | Some a \<Rightarrow> do {
     b \<leftarrow> pb s a;
     let s = upd_pbuf a (p_ref_update (\<lambda>r. r + 1)) s;
     Some (LWIP_ASSERT ''pbuf ref overflow'' (p_ref b + 1 > 0) s) })"

partial_function (option) pbuf_cat_loop :: "ptr \<Rightarrow> ptr \<Rightarrow> 'a stack_scheme \<Rightarrow> (ptr \<times> 'a stack_scheme) option" where
  "pbuf_cat_loop p t s = do {
     b \<leftarrow> pb s p;
     (case p_next b of None \<Rightarrow> Some (p, s)
      | Some n \<Rightarrow> do {
          tb \<leftarrow> pb s t;
          pbuf_cat_loop n t (upd_pbuf p (p_tot_len_update (\<lambda>l. l + p_tot_len tb)) s) }) }"

definition pbuf_cat :: "ptr option \<Rightarrow> ptr option \<Rightarrow> 'a stack_scheme \<Rightarrow> 'a stack_scheme option" where
  "pbuf_cat h t s = (case (h, t) of
     (Some h, Some t) \<Rightarrow> do {
       (p, s) \<leftarrow> pbuf_cat_loop h t s;
       b \<leftarrow> pb s p;
       let s = LWIP_ASSERT ''p->tot_len == p->len (of last pbuf in chain)'' (p_tot_len b = p_len b) s;
       tb \<leftarrow> pb s t;
       Some (upd_pbuf p (\<lambda>b. b\<lparr>p_tot_len := p_tot_len b + p_tot_len tb, p_next := Some t\<rparr>) s)
     }
   | _ \<Rightarrow> Some (LWIP_ERROR ''(h != NULL) && (t != NULL) (programmer violates API)'' s))"

definition pbuf_chain :: "ptr option \<Rightarrow> ptr option \<Rightarrow> 'a stack_scheme \<Rightarrow> 'a stack_scheme option" where
  "pbuf_chain h t s = do { s \<leftarrow> pbuf_cat h t s; pbuf_ref t s }"

definition pbuf_dechain :: "'a custom_free \<Rightarrow> ptr \<Rightarrow> 'a stack_scheme \<Rightarrow> (ptr option \<times> 'a stack_scheme) option" where
  "pbuf_dechain cf p s = do {
     b \<leftarrow> pb s p;
     (tail_gone, s) \<leftarrow> (case p_next b of None \<Rightarrow> Some (1, s)
       | Some q \<Rightarrow> do {
           qb \<leftarrow> pb s q;
           let s = LWIP_ASSERT ''p->tot_len == p->len + q->tot_len''
                     (uint (p_tot_len qb) = uint (p_tot_len b) - uint (p_len b)) s;
           let s = upd_pbuf q (p_tot_len_update (\<lambda>_. p_tot_len b - p_len b)) s;
           let s = upd_pbuf p (\<lambda>b. b\<lparr>p_next := None, p_tot_len := p_len b\<rparr>) s;
           pbuf_free cf (Some q) s
         });
     b' \<leftarrow> pb s p;
     let s = LWIP_ASSERT ''p->tot_len == p->len'' (p_tot_len b' = p_len b') s;
     Some (if tail_gone > 0 then None else p_next b, s)
   }"

section \<open>Reading and writing the data\<close>

partial_function (option) pbuf_skip_const ::
  "ptr option \<Rightarrow> u16 \<Rightarrow> 'a stack_scheme \<Rightarrow> (ptr option \<times> u16) option" where
  "pbuf_skip_const q offset_left s = (case q of None \<Rightarrow> Some (None, offset_left) | Some a \<Rightarrow> do {
     b \<leftarrow> pb s a;
     if p_len b \<le> offset_left then pbuf_skip_const (p_next b) (offset_left - p_len b) s
     else Some (q, offset_left) })"

definition pbuf_skip :: "ptr option \<Rightarrow> u16 \<Rightarrow> 'a stack_scheme \<Rightarrow> (ptr option \<times> u16) option" where
  "pbuf_skip q offset s = pbuf_skip_const q offset s"

partial_function (option) pbuf_copy_partial_loop ::
  "ptr option \<Rightarrow> ptr option \<Rightarrow> u16 \<Rightarrow> u16 \<Rightarrow> u16 \<Rightarrow> u16 \<Rightarrow> 'a stack_scheme
   \<Rightarrow> (u16 \<times> 'a stack_scheme) option" where
  "pbuf_copy_partial_loop p dataptr len offset left copied_total s =
     (if len \<noteq> 0 \<and> p \<noteq> None then do {
        b \<leftarrow> deref s p;
        if offset \<noteq> 0 \<and> offset \<ge> p_len b
        then pbuf_copy_partial_loop (p_next b) dataptr len (offset - p_len b) left copied_total s
        else do {
          let buf_copy_len = p_len b - offset;
          let buf_copy_len = (if buf_copy_len > len then len else buf_copy_len);
          s \<leftarrow> MEMCPY (offset_ptr dataptr (unat left)) (offset_ptr (p_payload b) (unat offset))
                 (unat buf_copy_len) s;
          pbuf_copy_partial_loop (p_next b) dataptr (len - buf_copy_len) 0 (left + buf_copy_len)
            (copied_total + buf_copy_len) s
        }
      } else Some (copied_total, s))"

definition pbuf_copy_partial ::
  "ptr option \<Rightarrow> ptr option \<Rightarrow> u16 \<Rightarrow> u16 \<Rightarrow> 'a stack_scheme \<Rightarrow> (u16 \<times> 'a stack_scheme) option" where
  "pbuf_copy_partial buf dataptr len offset s =
     (if buf = None then Some (0, LWIP_ERROR ''pbuf_copy_partial: invalid buf'' s)
      else if dataptr = None then Some (0, LWIP_ERROR ''pbuf_copy_partial: invalid dataptr'' s)
      else pbuf_copy_partial_loop buf dataptr len offset 0 0 s)"

definition pbuf_get_contiguous ::
  "ptr option \<Rightarrow> ptr option \<Rightarrow> nat \<Rightarrow> u16 \<Rightarrow> u16 \<Rightarrow> 'a stack_scheme \<Rightarrow> (ptr option \<times> 'a stack_scheme) option" where
  "pbuf_get_contiguous p buffer bufsize len offset s =
     (if p = None then Some (None, LWIP_ERROR ''pbuf_get_contiguous: invalid buf'' s)
      else if buffer = None then Some (None, LWIP_ERROR ''pbuf_get_contiguous: invalid dataptr'' s)
      else if \<not> bufsize \<ge> unat len then Some (None, LWIP_ERROR ''pbuf_get_contiguous: invalid dataptr'' s)
      else do {
        (q, out_offset) \<leftarrow> pbuf_skip_const p offset s;
        (case q of None \<Rightarrow> Some (None, s)
         | Some a \<Rightarrow> do {
             b \<leftarrow> pb s a;
             if unat (p_len b) \<ge> unat out_offset + unat len
             then Some (offset_ptr (p_payload b) (unat out_offset), s)
             else do {
               (n, s) \<leftarrow> pbuf_copy_partial q buffer len out_offset s;
               Some (if n \<noteq> len then None else buffer, s)
             }
           })
      })"

partial_function (option) pbuf_take_loop ::
  "ptr option \<Rightarrow> ptr option \<Rightarrow> nat \<Rightarrow> nat \<Rightarrow> 'a stack_scheme \<Rightarrow> (nat \<times> 'a stack_scheme) option" where
  "pbuf_take_loop p dataptr total_copy_len copied_total s =
     (if total_copy_len \<noteq> 0 then do {
        let s = LWIP_ASSERT ''pbuf_take: invalid pbuf'' (p \<noteq> None) s;
        b \<leftarrow> deref s p;
        let buf_copy_len = (if total_copy_len > unat (p_len b) then unat (p_len b) else total_copy_len);
        s \<leftarrow> MEMCPY (p_payload b) (offset_ptr dataptr copied_total) buf_copy_len s;
        pbuf_take_loop (p_next b) dataptr (total_copy_len - buf_copy_len) (copied_total + buf_copy_len) s
      } else Some (copied_total, s))"

definition pbuf_take :: "ptr option \<Rightarrow> ptr option \<Rightarrow> u16 \<Rightarrow> 'a stack_scheme \<Rightarrow> (err_t \<times> 'a stack_scheme) option" where
  "pbuf_take buf dataptr len s =
     (case buf of None \<Rightarrow> Some (ERR_ARG, LWIP_ERROR ''pbuf_take: invalid buf'' s)
      | Some a \<Rightarrow>
        if dataptr = None then Some (ERR_ARG, LWIP_ERROR ''pbuf_take: invalid dataptr'' s)
        else do {
          b \<leftarrow> pb s a;
          if \<not> p_tot_len b \<ge> len then Some (ERR_MEM, LWIP_ERROR ''pbuf_take: buf not large enough'' s)
          else do {
            (copied_total, s) \<leftarrow> pbuf_take_loop buf dataptr (unat len) 0 s;
            Some (ERR_OK, LWIP_ASSERT ''did not copy all data'' (copied_total = unat len) s)
          }
        })"

definition pbuf_take_at ::
  "ptr option \<Rightarrow> ptr option \<Rightarrow> u16 \<Rightarrow> u16 \<Rightarrow> 'a stack_scheme \<Rightarrow> (err_t \<times> 'a stack_scheme) option" where
  "pbuf_take_at buf dataptr len offset s = do {
     (q, target_offset) \<leftarrow> pbuf_skip buf offset s;
     (case q of None \<Rightarrow> Some (ERR_MEM, s)
      | Some a \<Rightarrow> do {
          b \<leftarrow> pb s a;
          if unat (p_tot_len b) \<ge> unat target_offset + unat len then do {
            let s = LWIP_ASSERT ''check pbuf_skip result'' (target_offset < p_len b) s;
            let first_copy_len = min (unat (p_len b) - unat target_offset) (unat len);
            s \<leftarrow> MEMCPY (offset_ptr (p_payload b) (unat target_offset)) dataptr first_copy_len s;
            let remaining_len = len - of_nat first_copy_len;
            if remaining_len > 0
            then pbuf_take (p_next b) (offset_ptr dataptr first_copy_len) remaining_len s
            else Some (ERR_OK, s)
          } else Some (ERR_MEM, s)
        })
   }"

definition octet_at :: "'a stack_scheme \<Rightarrow> ptr option \<Rightarrow> nat \<Rightarrow> u8 option" where
  "octet_at s q i = map_option (\<lambda>a. octet s (ptr_add a (int i))) q"

definition pbuf_try_get_at :: "ptr option \<Rightarrow> u16 \<Rightarrow> 'a stack_scheme \<Rightarrow> int option" where
  "pbuf_try_get_at p offset s = do {
     (q, q_idx) \<leftarrow> pbuf_skip_const p offset s;
     (case q of None \<Rightarrow> Some (- 1)
      | Some a \<Rightarrow> do {
          b \<leftarrow> pb s a;
          if p_len b > q_idx then map_option uint (octet_at s (p_payload b) (unat q_idx)) else Some (- 1) })
   }"

definition pbuf_get_at :: "ptr option \<Rightarrow> u16 \<Rightarrow> 'a stack_scheme \<Rightarrow> u8 option" where
  "pbuf_get_at p offset s = do {
     ret \<leftarrow> pbuf_try_get_at p offset s;
     Some (if ret \<ge> 0 then word_of_int ret else 0) }"

definition pbuf_put_at :: "ptr option \<Rightarrow> u16 \<Rightarrow> u8 \<Rightarrow> 'a stack_scheme \<Rightarrow> 'a stack_scheme option" where
  "pbuf_put_at p offset data s = do {
     (q, q_idx) \<leftarrow> pbuf_skip p offset s;
     (case q of None \<Rightarrow> Some s
      | Some a \<Rightarrow> do {
          b \<leftarrow> pb s a;
          if p_len b > q_idx then do {
            d \<leftarrow> offset_ptr (p_payload b) (unat q_idx);
            Some (s\<lparr>octet := (octet s)(d := data)\<rparr>)
          } else Some s }) }"

text \<open>The comparison loop: \<open>i\<close> runs from 0 to \<open>n\<close>.\<close>

partial_function (option) pbuf_memcmp_loop ::
  "ptr option \<Rightarrow> u16 \<Rightarrow> ptr \<Rightarrow> u16 \<Rightarrow> u16 \<Rightarrow> 'a stack_scheme \<Rightarrow> u16 option" where
  "pbuf_memcmp_loop q start s2 n i s =
     (if i < n then do {
        a \<leftarrow> pbuf_get_at q (start + i) s;
        if a \<noteq> octet s (ptr_add s2 (int (unat i)))
        then Some (of_nat (min (unat i + 1) 0xFFFF))
        else pbuf_memcmp_loop q start s2 n (i + 1) s
      } else Some 0)"

definition pbuf_memcmp :: "ptr option \<Rightarrow> u16 \<Rightarrow> ptr \<Rightarrow> u16 \<Rightarrow> 'a stack_scheme \<Rightarrow> u16 option" where
  "pbuf_memcmp p offset s2 n s = do {
     b \<leftarrow> deref s p;
     if unat (p_tot_len b) < unat offset + unat n then Some 0xFFFF
     else do {
       (q, start) \<leftarrow> pbuf_skip_const p offset s;
       pbuf_memcmp_loop q start s2 n 0 s } }"

partial_function (option) pbuf_memfind_loop ::
  "ptr option \<Rightarrow> ptr \<Rightarrow> u16 \<Rightarrow> u16 \<Rightarrow> u16 \<Rightarrow> 'a stack_scheme \<Rightarrow> u16 option" where
  "pbuf_memfind_loop p mem mem_len max_cmp_start i s =
     (if i \<le> max_cmp_start then do {
        plus \<leftarrow> pbuf_memcmp p i mem mem_len s;
        if plus = 0 then Some i else pbuf_memfind_loop p mem mem_len max_cmp_start (i + 1) s
      } else Some 0xFFFF)"

definition pbuf_memfind :: "ptr option \<Rightarrow> ptr \<Rightarrow> u16 \<Rightarrow> u16 \<Rightarrow> 'a stack_scheme \<Rightarrow> u16 option" where
  "pbuf_memfind p mem mem_len start_offset s = do {
     b \<leftarrow> deref s p;
     let max_cmp_start = p_tot_len b - mem_len;
     if unat (p_tot_len b) \<ge> unat mem_len + unat start_offset
     then pbuf_memfind_loop p mem mem_len max_cmp_start start_offset s
     else Some 0xFFFF }"

definition pbuf_strstr :: "ptr option \<Rightarrow> ptr option \<Rightarrow> 'a stack_scheme \<Rightarrow> u16 option" where
  "pbuf_strstr p substr s = (case substr of None \<Rightarrow> Some 0xFFFF
   | Some q \<Rightarrow>
       if octet s q = 0 then Some 0xFFFF
       else do {
         b \<leftarrow> deref s p;
         if p_tot_len b = 0xFFFF then Some 0xFFFF
         else do {
           substr_len \<leftarrow> strlen (octet s) q 0;
           if substr_len \<ge> 0xFFFF then Some 0xFFFF
           else pbuf_memfind p q (of_nat substr_len) 0 s } })"

section \<open>Copying packets\<close>

text \<open>
  One round of the loop of \<^verbatim>\<open>pbuf_copy_partial_pbuf\<close>; the offsets are
  \<^verbatim>\<open>size_t\<close>, so the differences are taken modulo \<open>2 ^ 32\<close>. The result is either the error
  to return or the values for the next round.
\<close>

definition copy_round ::
  "ptr \<Rightarrow> ptr \<Rightarrow> u16 \<Rightarrow> nat \<Rightarrow> nat \<Rightarrow> 'a stack_scheme
   \<Rightarrow> ((err_t + ptr option \<times> ptr option \<times> u16 \<times> nat \<times> nat) \<times> 'a stack_scheme) option" where
  "copy_round p_to p_from copy_len offset_to offset_from s = do {
     tb \<leftarrow> pb s p_to;
     fb \<leftarrow> pb s p_from;
     let room = usub32 (unat (p_len tb)) offset_to;
     let avail = usub32 (unat (p_len fb)) offset_from;
     let len = (if room \<ge> avail then avail else room);
     let len = min (unat copy_len) len;
     s \<leftarrow> MEMCPY (offset_ptr (p_payload tb) offset_to) (offset_ptr (p_payload fb) offset_from) len s;
     let offset_to = offset_to + len;
     let offset_from = offset_from + len;
     let copy_len = copy_len - of_nat len;
     let s = LWIP_ASSERT ''offset_to <= p_to->len'' (offset_to \<le> unat (p_len tb)) s;
     let s = LWIP_ASSERT ''offset_from <= p_from->len'' (offset_from \<le> unat (p_len fb)) s;
     let (offset_from, nfrom) =
       (if offset_from \<ge> unat (p_len fb) then (0, p_next fb) else (offset_from, Some p_from));
     if nfrom = None \<and> copy_len \<noteq> 0 then Some (Inl ERR_ARG, LWIP_ERROR ''p_from != NULL'' s)
     else do {
       let (offset_to, nto) =
         (if offset_to = unat (p_len tb) then (0, p_next tb) else (offset_to, Some p_to));
       if nto = None \<and> copy_len \<noteq> 0 then Some (Inl ERR_ARG, LWIP_ERROR ''p_to != NULL'' s)
       else do {
         from_queue \<leftarrow> (case nfrom of None \<Rightarrow> Some False | Some a \<Rightarrow> do {
           b \<leftarrow> pb s a; Some (p_len b = p_tot_len b \<and> p_next b \<noteq> None) });
         if from_queue then
           Some (Inl ERR_VAL, LWIP_ERROR ''pbuf_copy_partial_pbuf() does not allow packet queues!'' s)
         else do {
           to_queue \<leftarrow> (case nto of None \<Rightarrow> Some False | Some a \<Rightarrow> do {
             b \<leftarrow> pb s a; Some (p_len b = p_tot_len b \<and> p_next b \<noteq> None) });
           if to_queue then
             Some (Inl ERR_VAL, LWIP_ERROR ''pbuf_copy_partial_pbuf() does not allow packet queues!'' s)
           else Some (Inr (nto, nfrom, copy_len, offset_to, offset_from), s)
         }
       }
     }
   }"

partial_function (option) pbuf_copy_partial_pbuf_loop ::
  "ptr option \<Rightarrow> ptr option \<Rightarrow> u16 \<Rightarrow> nat \<Rightarrow> nat \<Rightarrow> 'a stack_scheme \<Rightarrow> (err_t \<times> 'a stack_scheme) option" where
  "pbuf_copy_partial_pbuf_loop p_to p_from copy_len offset_to offset_from s = do {
     t \<leftarrow> p_to;
     f \<leftarrow> p_from;
     (r, s) \<leftarrow> copy_round t f copy_len offset_to offset_from s;
     (case r of Inl e \<Rightarrow> Some (e, s)
      | Inr (p_to, p_from, copy_len, offset_to, offset_from) \<Rightarrow>
          if copy_len \<noteq> 0
          then pbuf_copy_partial_pbuf_loop p_to p_from copy_len offset_to offset_from s
          else Some (ERR_OK, s)) }"

definition pbuf_copy_partial_pbuf ::
  "ptr option \<Rightarrow> ptr option \<Rightarrow> u16 \<Rightarrow> u16 \<Rightarrow> 'a stack_scheme \<Rightarrow> (err_t \<times> 'a stack_scheme) option" where
  "pbuf_copy_partial_pbuf p_to p_from copy_len offset s = do {
     src_ok \<leftarrow> (if p_from = None then Some False
                else do { b \<leftarrow> deref s p_from; Some (p_tot_len b \<ge> copy_len) });
     if \<not> src_ok then
       Some (ERR_ARG, LWIP_ERROR ''pbuf_copy_partial_pbuf: copy_len bigger than source'' s)
     else do {
       dst_ok \<leftarrow> (if p_to = None then Some False
                  else do { b \<leftarrow> deref s p_to; Some (unat (p_tot_len b) \<ge> unat offset + unat copy_len) });
       if \<not> dst_ok then
         Some (ERR_ARG, LWIP_ERROR ''pbuf_copy_partial_pbuf: target not big enough'' s)
       else pbuf_copy_partial_pbuf_loop p_to p_from copy_len (unat offset) 0 s
     }
   }"

definition pbuf_copy :: "ptr option \<Rightarrow> ptr option \<Rightarrow> 'a stack_scheme \<Rightarrow> (err_t \<times> 'a stack_scheme) option" where
  "pbuf_copy p_to p_from s =
     (if p_from = None then Some (ERR_ARG, LWIP_ERROR ''pbuf_copy: invalid source'' s)
      else do { b \<leftarrow> deref s p_from; pbuf_copy_partial_pbuf p_to p_from (p_tot_len b) 0 s })"

definition pbuf_clone ::
  "'a custom_free \<Rightarrow> pbuf_layer \<Rightarrow> pbuf_type \<Rightarrow> ptr option \<Rightarrow> 'a stack_scheme
   \<Rightarrow> (ptr option \<times> 'a stack_scheme) option" where
  "pbuf_clone cf layer type p s = do {
     b \<leftarrow> deref s p;
     (q, s) \<leftarrow> pbuf_alloc cf layer (p_tot_len b) type s;
     if q = None then Some (None, s)
     else do {
       (err, s) \<leftarrow> pbuf_copy q p s;
       Some (q, LWIP_ASSERT ''pbuf_copy failed'' (err = ERR_OK) s)
     }
   }"

definition pbuf_coalesce ::
  "'a custom_free \<Rightarrow> ptr option \<Rightarrow> pbuf_layer \<Rightarrow> 'a stack_scheme \<Rightarrow> (ptr option \<times> 'a stack_scheme) option" where
  "pbuf_coalesce cf p layer s = do {
     b \<leftarrow> deref s p;
     if p_next b = None then Some (p, s)
     else do {
       (q, s) \<leftarrow> pbuf_clone cf layer PBUF_RAM p s;
       if q = None then Some (p, s)
       else do { (_, s) \<leftarrow> pbuf_free cf p s; Some (q, s) }
     }
   }"

end
