(* ===== verification/Pbuf_Data.thy ===== *)
theory Pbuf_Data
  imports Pbuf
begin

text \<open>
  The operations of pbuf.c on the data of a packet. A well-formed packet is a chain of
  allocated pbufs whose \<^verbatim>\<open>tot_len\<close> fields are right; its contents are the octets of all
  its pbufs in order. The theorems say what each operation does to, or reads from, that one
  sequence of octets, however the packet is cut into pbufs.
\<close>

section \<open>Packets and their contents\<close>

definition plen :: "'a stack_scheme \<Rightarrow> ptr \<Rightarrow> nat" where
  "plen s x = (case pb s x of Some b \<Rightarrow> unat (p_len b) | None \<Rightarrow> 0)"

definition pkt_len :: "'a stack_scheme \<Rightarrow> ptr list \<Rightarrow> nat" where
  "pkt_len s xs = sum_list (map (plen s) xs)"

definition pbytes :: "'a stack_scheme \<Rightarrow> ptr \<Rightarrow> u8 list" where
  "pbytes s x = (case pb s x of None \<Rightarrow> [] | Some b \<Rightarrow>
     (case p_payload b of None \<Rightarrow> [] | Some q \<Rightarrow> mem_read (octet s) q (unat (p_len b))))"

definition contents :: "'a stack_scheme \<Rightarrow> ptr list \<Rightarrow> u8 list" where
  "contents s xs = concat (map (pbytes s) xs)"

fun pkt :: "'a stack_scheme \<Rightarrow> ptr option \<Rightarrow> ptr list \<Rightarrow> bool" where
  "pkt s p [] \<longleftrightarrow> p = None"
| "pkt s p (x # xs) \<longleftrightarrow> p = Some x \<and> (\<exists>b. pb s x = Some b \<and>
     unat (p_tot_len b) = unat (p_len b) + pkt_len s xs \<and>
     (p_payload b = None \<longrightarrow> p_len b = 0) \<and> pkt s (p_next b) xs)"

lemma pkt_len_simps [simp]: "pkt_len s [] = 0" "pkt_len s (x # xs) = plen s x + pkt_len s xs"
  "pkt_len s (xs @ ys) = pkt_len s xs + pkt_len s ys"
  by (simp_all add: pkt_len_def)

lemma contents_simps [simp]: "contents s [] = []" "contents s (x # xs) = pbytes s x @ contents s xs"
  "contents s (xs @ ys) = contents s xs @ contents s ys"
  by (simp_all add: contents_def)

lemma pkt_None: "pkt s None xs \<longleftrightarrow> xs = []"
  by (cases xs) auto

lemma pkt_unique: "pkt s p xs \<Longrightarrow> pkt s p ys \<Longrightarrow> xs = ys"
proof (induction xs arbitrary: p ys)
  case Nil
  then show ?case by (cases ys) auto
next
  case (Cons x xs)
  then show ?case by (cases ys) (auto split: option.splits)
qed

lemma length_pbytes: "pkt s p xs \<Longrightarrow> x \<in> set xs \<Longrightarrow> length (pbytes s x) = plen s x"
  by (induction xs arbitrary: p) (auto simp: pbytes_def plen_def split: option.splits)

lemma length_contents: "pkt s p xs \<Longrightarrow> length (contents s xs) = pkt_len s xs"
proof (induction xs arbitrary: p)
  case (Cons x xs)
  then obtain b where b: "pb s x = Some b" "pkt s (p_next b) xs" by auto
  from length_pbytes [OF Cons.prems, of x] Cons.IH [OF b(2)] show ?case by simp
qed simp

lemma pkt_bound:
  assumes "pkt s p xs"
  shows "pkt_len s xs < 65536"
proof (cases xs)
  case (Cons x ys)
  with assms obtain b where "pb s x = Some b" "unat (p_tot_len b) = unat (p_len b) + pkt_len s ys"
    by auto
  then show ?thesis using Cons unat_u16_less [of "p_tot_len b"] by (simp add: plen_def)
qed simp

text \<open>A packet does not depend on anything but the pbufs of its chain.\<close>

lemma pkt_cong:
  assumes "\<And>x. x \<in> set xs \<Longrightarrow> pb s' x = pb s x"
  shows "pkt s' p xs = pkt s p xs" "pkt_len s' xs = pkt_len s xs"
proof -
  show pl: "pkt_len s' xs = pkt_len s xs"
    using assms by (auto simp: pkt_len_def plen_def intro!: arg_cong [where f = sum_list])
  show "pkt s' p xs = pkt s p xs"
    using assms
  proof (induction xs arbitrary: p)
    case (Cons x xs)
    have "pkt_len s' xs = pkt_len s xs"
      using Cons.prems by (auto simp: pkt_len_def plen_def intro!: arg_cong [where f = sum_list])
    with Cons show ?case by (auto split: option.splits)
  qed simp
qed

lemma pkt_octet [simp]: "pkt (s\<lparr>octet := m\<rparr>) p xs = pkt s p xs" "pkt_len (s\<lparr>octet := m\<rparr>) xs = pkt_len s xs"
  "plen (s\<lparr>octet := m\<rparr>) x = plen s x"
  by (simp_all add: pkt_cong [of xs "s\<lparr>octet := m\<rparr>" s] plen_def)

section \<open>Skipping to an offset\<close>

fun skip_to :: "'a stack_scheme \<Rightarrow> ptr list \<Rightarrow> nat \<Rightarrow> ptr option \<times> nat" where
  "skip_to s [] k = (None, k)"
| "skip_to s (x # xs) k = (if plen s x \<le> k then skip_to s xs (k - plen s x) else (Some x, k))"

lemma pbuf_skip_pkt:
  assumes "pkt s q xs"
  shows "pbuf_skip_const q off s = Some (fst (skip_to s xs (unat off)), of_nat (snd (skip_to s xs (unat off))))"
  using assms
proof (induction xs arbitrary: q off)
  case Nil
  then show ?case by (subst pbuf_skip_const.simps) simp
next
  case (Cons x xs)
  then obtain b where b: "q = Some x" "pb s x = Some b" "pkt s (p_next b) xs" by auto
  have "unat (off - p_len b) = unat off - plen s x" if "p_len b \<le> off"
    using that b by (simp add: plen_def unat_sub)
  then show ?case using b Cons.IH [OF b(3), of "off - p_len b"]
    by (subst pbuf_skip_const.simps) (auto simp: plen_def word_le_nat_alt)
qed

lemma skip_to_in:
  assumes "k < pkt_len s xs"
  obtains as x bs where "xs = as @ x # bs" "skip_to s xs k = (Some x, k - pkt_len s as)"
    "pkt_len s as \<le> k" "k - pkt_len s as < plen s x"
  using assms
proof (induction xs arbitrary: k thesis)
  case (Cons y ys)
  show ?case
  proof (cases "plen s y \<le> k")
    case True
    then have "k - plen s y < pkt_len s ys" using Cons.prems(2) by auto
    then obtain as x bs where "ys = as @ x # bs" "skip_to s ys (k - plen s y) = (Some x, k - plen s y - pkt_len s as)"
      "pkt_len s as \<le> k - plen s y" "k - plen s y - pkt_len s as < plen s x"
      by (rule Cons.IH [rotated])
    with True show ?thesis by (intro Cons.prems(1) [of "y # as" x bs]) auto
  next
    case False
    then show ?thesis by (intro Cons.prems(1) [of "[]" y ys]) auto
  qed
qed simp

lemma skip_to_out: "pkt_len s xs \<le> k \<Longrightarrow> skip_to s xs k = (None, k - pkt_len s xs)"
  by (induction xs arbitrary: k) auto

lemma pkt_append:
  "pkt s p (as @ x # bs) \<Longrightarrow> pkt s (Some x) (x # bs)"
proof (induction as arbitrary: p)
  case (Cons y ys)
  then obtain b where b: "pb s y = Some b" "pkt s (p_next b) (ys @ x # bs)" by auto
  show ?case by (rule Cons.IH [OF b(2)])
qed auto

lemma nth_contents:
  assumes "pkt s p (as @ x # bs)" "pkt_len s as \<le> k" "k - pkt_len s as < plen s x"
  shows "contents s (as @ x # bs) ! k = pbytes s x ! (k - pkt_len s as)"
proof -
  have "length (contents s as) = pkt_len s as"
  proof -
    have "length (pbytes s y) = plen s y" if "y \<in> set as" for y using length_pbytes [OF assms(1), of y] that by simp
    then show ?thesis by (induction as) auto
  qed
  moreover have "length (pbytes s x) = plen s x" using length_pbytes [OF assms(1), of x] by simp
  ultimately show ?thesis using assms(2,3) by (simp add: nth_append)
qed

section \<open>Single octets\<close>

lemma try_get_at_pkt:
  assumes "pkt s p xs"
  shows "pbuf_try_get_at p off s =
    Some (if unat off < pkt_len s xs then uint (contents s xs ! unat off) else - 1)"
proof (cases "unat off < pkt_len s xs")
  case True
  then obtain as x bs where x: "xs = as @ x # bs" "skip_to s xs (unat off) = (Some x, unat off - pkt_len s as)"
    "pkt_len s as \<le> unat off" "unat off - pkt_len s as < plen s x"
    by (rule skip_to_in)
  let ?i = "unat off - pkt_len s as"
  from pkt_append assms x(1) have "pkt s (Some x) (x # bs)" by blast
  then obtain b where b: "pb s x = Some b" "p_payload b = None \<longrightarrow> p_len b = 0" by auto
  have i: "unat (of_nat ?i :: u16) = ?i"
    by (rule unat_of_nat16) (use unat_u16_less [of off] in linarith)
  then have lt: "of_nat ?i < p_len b" using x(4) b by (simp add: word_less_nat_alt plen_def)
  then obtain q where q: "p_payload b = Some q" using b(2) by (cases "p_payload b") auto
  have "contents s xs ! unat off = pbytes s x ! ?i"
    unfolding x(1) using assms x by (intro nth_contents) auto
  also have "\<dots> = octet s (ptr_add q (int ?i))" using x(4) b q by (simp add: pbytes_def plen_def)
  finally show ?thesis using True lt b q i
    by (simp add: pbuf_try_get_at_def pbuf_skip_pkt [OF assms] x(2) octet_at_def)
next
  case False
  then show ?thesis by (simp add: pbuf_try_get_at_def pbuf_skip_pkt [OF assms] skip_to_out)
qed

lemma get_at_pkt:
  assumes "pkt s p xs"
  shows "pbuf_get_at p off s = Some (if unat off < pkt_len s xs then contents s xs ! unat off else 0)"
  by (simp add: pbuf_get_at_def try_get_at_pkt [OF assms])

section \<open>Comparing and searching\<close>

lemma skip_rest:
  assumes "pkt s p xs" "k \<le> pkt_len s xs"
  obtains ys where "pkt s (fst (skip_to s xs k)) ys" "drop (snd (skip_to s xs k)) (contents s ys) = drop k (contents s xs)"
    "snd (skip_to s xs k) + (pkt_len s xs - k) = pkt_len s ys" "snd (skip_to s xs k) \<le> k"
proof (cases "k < pkt_len s xs")
  case True
  then obtain as x bs where x: "xs = as @ x # bs" "skip_to s xs k = (Some x, k - pkt_len s as)"
    "pkt_len s as \<le> k" "k - pkt_len s as < plen s x"
    by (rule skip_to_in)
  have l: "length (contents s as) = pkt_len s as"
  proof -
    have "length (pbytes s y) = plen s y" if "y \<in> set as" for y using length_pbytes [OF assms(1), of y] that x(1) by simp
    then show ?thesis by (induction as) auto
  qed
  have "pkt s (Some x) (x # bs)" using pkt_append assms(1) x(1) by blast
  then show ?thesis using x l True by (intro that [of "x # bs"]) (auto simp del: pkt.simps)
next
  case False
  with assms show ?thesis using length_contents [OF assms(1)] by (intro that [of "[]"]) (auto simp: skip_to_out)
qed

fun first_diff :: "u8 list \<Rightarrow> u8 list \<Rightarrow> nat option" where
  "first_diff (x # xs) (y # ys) = (if x \<noteq> y then Some 0 else map_option Suc (first_diff xs ys))"
| "first_diff _ _ = None"

lemma first_diff_None: "length xs = length ys \<Longrightarrow> first_diff xs ys = None \<longleftrightarrow> xs = ys"
  by (induction xs ys rule: first_diff.induct) auto

lemma first_diff_Some: "first_diff xs ys = Some j \<Longrightarrow> j < length xs \<and> j < length ys"
  by (induction xs ys arbitrary: j rule: first_diff.induct) (auto split: if_splits)

definition cmp_code :: "nat \<Rightarrow> nat option \<Rightarrow> u16" where
  "cmp_code i d = (case d of None \<Rightarrow> 0 | Some j \<Rightarrow> of_nat (min (i + j + 1) 0xFFFF))"

lemma memcmp_loop_pkt:
  assumes "pkt s q ys" "unat start + unat n \<le> pkt_len s ys" "i \<le> n"
  shows "pbuf_memcmp_loop q start s2 n i s = Some (cmp_code (unat i)
    (first_diff (drop (unat i) (take (unat n) (drop (unat start) (contents s ys))))
      (drop (unat i) (mem_read (octet s) s2 (unat n)))))"
  using assms(3)
proof (induction "unat n - unat i" arbitrary: i)
  case 0
  then have "i = n" by (simp add: word_le_nat_alt word_unat_eq_iff)
  then show ?case by (subst pbuf_memcmp_loop.simps) (simp add: cmp_code_def)
next
  case (Suc k)
  let ?A = "take (unat n) (drop (unat start) (contents s ys))" and ?B = "mem_read (octet s) s2 (unat n)"
  from Suc have lt: "i < n" "unat i < unat n" by (auto simp: word_less_nat_alt)
  have bd: "unat start + unat n < 65536" using assms(1,2) pkt_bound [of s q ys] by simp
  have si: "unat (start + i) = unat start + unat i" using lt bd by (simp add: unat_word_ariths)
  have i1: "unat (i + 1) = Suc (unat i)" using lt bd by (simp add: unat_word_ariths)
  have len: "length ?A = unat n" using assms(1,2) by (simp add: length_contents)
  have cl: "length (contents s ys) = pkt_len s ys" by (rule length_contents [OF assms(1)])
  have A: "drop (unat i) ?A = contents s ys ! (unat start + unat i) # drop (Suc (unat i)) ?A"
    using lt len assms(2) cl by (subst Cons_nth_drop_Suc [symmetric]) (auto simp: add.commute)
  have B: "drop (unat i) ?B = octet s (ptr_add s2 (int (unat i))) # drop (Suc (unat i)) ?B"
    using lt by (subst Cons_nth_drop_Suc [symmetric]) auto
  have g: "pbuf_get_at q (start + i) s = Some (contents s ys ! (unat start + unat i))"
    using get_at_pkt [OF assms(1), of "start + i"] lt assms(2) by (simp add: si)
  have IH: "pbuf_memcmp_loop q start s2 n (i + 1) s = Some (cmp_code (Suc (unat i))
    (first_diff (drop (Suc (unat i)) ?A) (drop (Suc (unat i)) ?B)))"
    using Suc.hyps(1) [of "i + 1"] Suc.hyps(2) lt i1 by (simp add: word_le_nat_alt)
  show ?case
    using lt(1) g IH unfolding A B by (subst pbuf_memcmp_loop.simps) (auto simp: cmp_code_def split: option.splits)
qed

lemma deref_pkt:
  assumes "pkt s p xs" "xs \<noteq> []"
  obtains b where "deref s p = Some b" "unat (p_tot_len b) = pkt_len s xs"
  using assms by (cases xs) (auto simp: deref_def plen_def)

lemma memcmp_pkt:
  assumes "pkt s p xs" "xs \<noteq> []"
  shows "pbuf_memcmp p off s2 n s = Some (if pkt_len s xs < unat off + unat n then 0xFFFF
    else cmp_code 0 (first_diff (take (unat n) (drop (unat off) (contents s xs))) (mem_read (octet s) s2 (unat n))))"
proof (cases "pkt_len s xs < unat off + unat n")
  case True
  obtain b where "deref s p = Some b" "unat (p_tot_len b) = pkt_len s xs" by (rule deref_pkt [OF assms])
  with True show ?thesis by (simp add: pbuf_memcmp_def)
next
  case False
  then have off: "unat off \<le> pkt_len s xs" by simp
  obtain b where b: "deref s p = Some b" "unat (p_tot_len b) = pkt_len s xs" by (rule deref_pkt [OF assms])
  obtain ys where y: "pkt s (fst (skip_to s xs (unat off))) ys"
    "drop (snd (skip_to s xs (unat off))) (contents s ys) = drop (unat off) (contents s xs)"
    "snd (skip_to s xs (unat off)) + (pkt_len s xs - unat off) = pkt_len s ys" "snd (skip_to s xs (unat off)) \<le> unat off"
    by (rule skip_rest [OF assms(1) off])
  let ?st = "snd (skip_to s xs (unat off))"
  have st: "unat (of_nat ?st :: u16) = ?st" by (rule unat_of_nat16) (use y(4) unat_u16_less [of off] in linarith)
  have "unat (of_nat ?st :: u16) + unat n \<le> pkt_len s ys" using False y(3) st by linarith
  from memcmp_loop_pkt [OF y(1) this, of 0 s2] False b show ?thesis
    by (simp add: pbuf_memcmp_def pbuf_skip_pkt [OF assms(1)] st y(2))
qed

lemma cmp_code_0: "cmp_code 0 d = 0 \<longleftrightarrow> d = None"
proof (cases d)
  case (Some j)
  have "unat (of_nat (min (j + 1) 0xFFFF) :: u16) \<noteq> 0" by (subst unat_of_nat16) auto
  then show ?thesis using Some by (auto simp: cmp_code_def)
qed (simp add: cmp_code_def)

lemma memfind_loop_pkt:
  assumes "pkt s p xs" "xs \<noteq> []" "unat mlen + unat i \<le> pkt_len s xs" "mx = of_nat (pkt_len s xs - unat mlen)"
  shows "pbuf_memfind_loop p mem mlen mx i s =
    Some (case find (\<lambda>k. take (unat mlen) (drop k (contents s xs)) = mem_read (octet s) mem (unat mlen))
        [unat i..<Suc (pkt_len s xs - unat mlen)] of Some k \<Rightarrow> of_nat k | None \<Rightarrow> 0xFFFF)"
  using assms(3)
proof (induction "pkt_len s xs - unat mlen - unat i" arbitrary: i rule: less_induct)
  case less
  let ?N = "pkt_len s xs" and ?P = "\<lambda>k. take (unat mlen) (drop k (contents s xs)) = mem_read (octet s) mem (unat mlen)"
  have bd: "?N < 65536" by (rule pkt_bound [OF assms(1)])
  have mx: "unat mx = ?N - unat mlen" using bd by (simp add: assms(4))
  have le: "i \<le> mx" using less.prems by (simp add: word_le_nat_alt mx)
  have cmp: "\<exists>c. pbuf_memcmp p i mem mlen s = Some c \<and> (c = 0 \<longleftrightarrow> ?P (unat i))"
    using less.prems length_contents [OF assms(1)]
    by (simp add: memcmp_pkt [OF assms(1,2)] cmp_code_0 first_diff_None)
  then obtain c where c: "pbuf_memcmp p i mem mlen s = Some c" "c = 0 \<longleftrightarrow> ?P (unat i)" by blast
  have upt: "[unat i..<Suc (?N - unat mlen)] = unat i # [Suc (unat i)..<Suc (?N - unat mlen)]"
    using less.prems by (intro upt_conv_Cons) simp
  show ?case
  proof (cases "?P (unat i)")
    case True
    with c le show ?thesis by (subst pbuf_memfind_loop.simps) (simp add: upt del: upt_Suc)
  next
    case False
    then have "unat mlen \<noteq> 0" by (intro notI) simp
    then have i1: "unat (i + 1) = Suc (unat i)" using less.prems bd by (simp add: unat_word_ariths)
    show ?thesis
    proof (cases "unat i = ?N - unat mlen")
      case True
      then have "\<not> i + 1 \<le> mx" using i1 by (simp add: word_le_nat_alt mx)
      then have "pbuf_memfind_loop p mem mlen mx (i + 1) s = Some 0xFFFF" by (subst pbuf_memfind_loop.simps) simp
      with True False c le show ?thesis by (subst pbuf_memfind_loop.simps) simp
    next
      case ne: False
      then have "pbuf_memfind_loop p mem mlen mx (i + 1) s =
        Some (case find ?P [unat (i + 1)..<Suc (?N - unat mlen)] of Some k \<Rightarrow> of_nat k | None \<Rightarrow> 0xFFFF)"
        using less.prems i1 by (intro less.hyps) auto
      with False c le i1 show ?thesis by (subst pbuf_memfind_loop.simps) (simp add: upt del: upt_Suc)
    qed
  qed
qed

lemma memfind_pkt:
  assumes "pkt s p xs" "xs \<noteq> []"
  shows "pbuf_memfind p mem mlen start s = Some (if pkt_len s xs < unat mlen + unat start then 0xFFFF
    else (case find (\<lambda>k. take (unat mlen) (drop k (contents s xs)) = mem_read (octet s) mem (unat mlen))
        [unat start..<Suc (pkt_len s xs - unat mlen)] of Some k \<Rightarrow> of_nat k | None \<Rightarrow> 0xFFFF))"
proof -
  obtain b where b: "deref s p = Some b" "unat (p_tot_len b) = pkt_len s xs" by (rule deref_pkt [OF assms])
  have "p_tot_len b - mlen = of_nat (pkt_len s xs - unat mlen)" if "unat mlen \<le> pkt_len s xs"
    using that b(2) pkt_bound [OF assms(1)] by (simp add: word_unat_eq_iff unat_sub word_le_nat_alt)
  then show ?thesis using b memfind_loop_pkt [OF assms, of mlen start "p_tot_len b - mlen" mem]
    by (auto simp: pbuf_memfind_def)
qed

lemma strstr_pkt:
  assumes "pkt s p xs" "xs \<noteq> []" "pkt_len s xs < 0xFFFF" "mem_read (octet s) q (Suc n) = w @ [0]"
    "0 \<notin> set w" "w \<noteq> []" "n < 0xFFFF"
  shows "pbuf_strstr p (Some q) s = Some (if pkt_len s xs < n then 0xFFFF
    else (case find (\<lambda>k. take n (drop k (contents s xs)) = w) [0..<Suc (pkt_len s xs - n)] of
      Some k \<Rightarrow> of_nat k | None \<Rightarrow> 0xFFFF))"
proof -
  have len: "length w = n" using arg_cong [OF assms(4), of length] by simp
  have w: "mem_read (octet s) q n = w" using arg_cong [OF assms(4), of "take n"] len
    by (simp add: take_mem_read)
  have nz: "octet s (ptr_add q (int i)) \<noteq> 0" if "i < n" for i
    using w that assms(5) len nth_mem_read [of i n "octet s" q] nth_mem [of i w] by metis
  have z: "octet s (ptr_add q (int n)) = 0"
    using nth_mem_read [of n "Suc n" "octet s" q] assms(4) len by (simp add: nth_append)
  have sl: "strlen (octet s) q 0 = Some n" using strlen_zero [of "octet s" q 0 n] z nz by simp
  have "octet s q \<noteq> 0" using nz [of 0] assms(6) len by (cases n) auto
  moreover obtain b where b: "deref s p = Some b" "unat (p_tot_len b) = pkt_len s xs" by (rule deref_pkt [OF assms(1,2)])
  moreover have "p_tot_len b \<noteq> 0xFFFF" using b(2) assms(3) by auto
  ultimately show ?thesis using sl assms(7) w by (simp add: pbuf_strstr_def memfind_pkt [OF assms(1,2)])
qed

section \<open>Copying out of a packet\<close>

lemma mem_write_append:
  "mem_write (mem_write m p xs) (ptr_add p (int (length xs))) ys = mem_write m p (xs @ ys)"
proof
  fix q :: ptr
  have "nat (snd q - (snd p + int (length xs))) = nat (snd q - snd p) - length xs" by arith
  then show "mem_write (mem_write m p xs) (ptr_add p (int (length xs))) ys q = mem_write m p (xs @ ys) q"
    by (auto simp: mem_write_def nth_append nat_less_iff)
qed

text \<open>The payloads of a packet lie apart from \<open>n\<close> octets at \<open>d\<close>.\<close>

definition clear_of :: "'a stack_scheme \<Rightarrow> ptr list \<Rightarrow> ptr \<Rightarrow> nat \<Rightarrow> bool" where
  "clear_of s xs d n \<longleftrightarrow> (\<forall>x \<in> set xs. \<forall>b q. pb s x = Some b \<longrightarrow> p_payload b = Some q \<longrightarrow> apart q (unat (p_len b)) d n)"

lemma pbytes_write:
  assumes "clear_of s xs d n" "x \<in> set xs" "length w \<le> n" "0 \<le> k" "k + int (length w) \<le> int n"
  shows "pbytes (s\<lparr>octet := mem_write (octet s) (ptr_add d k) w\<rparr>) x = pbytes s x"
proof (cases "pb s x")
  case (Some b)
  show ?thesis
  proof (cases "p_payload b")
    case q: (Some q)
    then have "apart q (unat (p_len b)) d n" using assms(1,2) Some unfolding clear_of_def by blast
    then have "apart (ptr_add q 0) (unat (p_len b)) (ptr_add d k) (length w)"
      using assms by (intro apart_sub) auto
    then show ?thesis using Some q by (simp add: pbytes_def mem_simps)
  qed (use Some in \<open>simp add: pbytes_def\<close>)
qed (simp add: pbytes_def)

lemma contents_write:
  assumes "clear_of s xs d n" "length w \<le> n" "0 \<le> k" "k + int (length w) \<le> int n"
  shows "contents (s\<lparr>octet := mem_write (octet s) (ptr_add d k) w\<rparr>) xs = contents s xs"
  unfolding contents_def using pbytes_write [OF assms(1) _ assms(2-4)] by (simp cong: map_cong)

lemma clear_of_octet [simp]: "clear_of (s\<lparr>octet := m\<rparr>) xs d n = clear_of s xs d n"
  by (simp add: clear_of_def)

lemma clear_of_sub:
  "clear_of s xs d n \<Longrightarrow> set ys \<subseteq> set xs \<Longrightarrow> 0 \<le> k \<Longrightarrow> k + int m \<le> int n \<Longrightarrow> clear_of s ys (ptr_add d k) m"
  unfolding clear_of_def by (meson apart_sub [of _ _ _ _ 0, simplified] order_refl subsetD)

lemma copy_partial_loop_pkt:
  assumes "pkt s p xs" "clear_of s xs (ptr_add d (int (unat left))) (unat len)" "unat left + unat len < 65536"
    "unat ct + unat len < 65536"
  shows "pbuf_copy_partial_loop p (Some d) len off left ct s =
    Some (ct + of_nat (min (unat len) (pkt_len s xs - unat off)),
      s\<lparr>octet := mem_write (octet s) (ptr_add d (int (unat left))) (take (unat len) (drop (unat off) (contents s xs)))\<rparr>)"
  using assms
proof (induction xs arbitrary: p s len off left ct)
  case Nil
  then show ?case by (subst pbuf_copy_partial_loop.simps) simp
next
  case (Cons x xs)
  then obtain b where b: "p = Some x" "pb s x = Some b" "pkt s (p_next b) xs" "p_payload b = None \<longrightarrow> p_len b = 0" by auto
  have L: "plen s x = unat (p_len b)" using b by (simp add: plen_def)
  have lb: "length (pbytes s x) = unat (p_len b)" using length_pbytes [OF Cons.prems(1), of x] L by simp
  have clr: "clear_of s xs (ptr_add d (int (unat left))) (unat len)"
    using Cons.prems(2) by (simp add: clear_of_def)
  show ?case
  proof (cases "len = 0")
    case True
    then show ?thesis by (subst pbuf_copy_partial_loop.simps) simp
  next
    case len0: False
    show ?thesis
    proof (cases "off \<noteq> 0 \<and> off \<ge> p_len b")
      case True
      then have "unat (off - p_len b) = unat off - unat (p_len b)" "unat (p_len b) \<le> unat off"
        by (auto simp: unat_sub word_le_nat_alt)
      then show ?thesis using Cons.IH [OF b(3) clr Cons.prems(3,4), of "off - p_len b"] True len0 b L lb
        by (subst pbuf_copy_partial_loop.simps) (simp add: deref_def add.commute)
    next
      case False
      then have off: "unat off \<le> unat (p_len b)" by (auto simp: word_le_nat_alt)
      define n1 where "n1 = (if p_len b - off > len then len else p_len b - off)"
      have n1: "unat n1 = min (unat (p_len b) - unat off) (unat len)"
        using off by (auto simp: n1_def unat_sub word_le_nat_alt word_less_nat_alt)
      have w: "unat (len - n1) = unat len - unat n1" using n1 by (simp add: unat_sub word_le_nat_alt)
      have lf: "unat (left + n1) = unat left + unat n1" using n1 Cons.prems(3) by (simp add: unat_word_ariths)
      have cf: "unat (ct + n1) = unat ct + unat n1" using n1 Cons.prems(4) by (simp add: unat_word_ariths)
      let ?w1 = "take (unat len) (drop (unat off) (pbytes s x))"
      let ?s1 = "s\<lparr>octet := mem_write (octet s) (ptr_add d (int (unat left))) ?w1\<rparr>"
      have lw: "length ?w1 = unat n1" using lb n1 by simp
      have mc: "MEMCPY (offset_ptr (Some d) (unat left)) (offset_ptr (p_payload b) (unat off)) (unat n1) s = Some ?s1"
      proof (cases "unat n1 = 0")
        case True
        with lw have w0: "?w1 = []" by (simp only: length_0_conv)
        show ?thesis unfolding w0 True by (simp add: MEMCPY_def)
      next
        case nz: False
        then obtain q where q: "p_payload b = Some q" using b(4) n1 by (cases "p_payload b") auto
        have "?w1 = mem_read (octet s) (ptr_add q (int (unat off))) (unat n1)"
          using b q off n1 by (cases "unat len \<le> unat (p_len b) - unat off")
            (simp_all add: pbytes_def drop_mem_read take_mem_read)
        then show ?thesis using nz q by (simp add: MEMCPY_def offset_ptr_def)
      qed
      have c1: "contents ?s1 xs = contents s xs"
        using contents_write [OF clr, of ?w1 0] lw n1 by simp
      have clr1: "clear_of ?s1 xs (ptr_add d (int (unat (left + n1)))) (unat (len - n1))"
        using clear_of_sub [OF clr, of xs "int (unat n1)" "unat (len - n1)"] w lf n1 by (simp add: algebra_simps)
      have IH: "pbuf_copy_partial_loop (p_next b) (Some d) (len - n1) 0 (left + n1) (ct + n1) ?s1 =
        Some (ct + n1 + of_nat (min (unat (len - n1)) (pkt_len s xs)),
          ?s1\<lparr>octet := mem_write (octet ?s1) (ptr_add d (int (unat (left + n1)))) (take (unat (len - n1)) (contents s xs))\<rparr>)"
        using Cons.IH [of ?s1 "p_next b" "left + n1" "len - n1" "ct + n1" 0] b(3) clr1 w lf cf n1 Cons.prems(3,4) c1
        by simp
      have e1: "mem_write (mem_write (octet s) (ptr_add d (int (unat left))) ?w1)
          (ptr_add d (int (unat (left + n1)))) (take (unat (len - n1)) (contents s xs)) =
        mem_write (octet s) (ptr_add d (int (unat left))) (take (unat len) (drop (unat off) (contents s (x # xs))))"
      proof -
        have "take (unat len) (drop (unat off) (contents s (x # xs))) = ?w1 @ take (unat len - unat n1) (contents s xs)"
          using lb off n1 by (auto simp: min_def)
        then show ?thesis using mem_write_append [of "octet s" "ptr_add d (int (unat left))" ?w1] lw lf w by simp
      qed
      have e2: "ct + n1 + of_nat (min (unat (len - n1)) (pkt_len s xs)) =
        ct + of_nat (min (unat len) (pkt_len s (x # xs) - unat off))"
      proof -
        have "min (unat len) (pkt_len s (x # xs) - unat off) = unat n1 + min (unat (len - n1)) (pkt_len s xs)"
          using w n1 off L by (auto simp: min_def)
        then show ?thesis by (simp add: add.assoc)
      qed
      have e3: "?s1\<lparr>octet := mem_write (octet ?s1) (ptr_add d (int (unat (left + n1)))) (take (unat (len - n1)) (contents s xs))\<rparr> =
        s\<lparr>octet := mem_write (octet s) (ptr_add d (int (unat left))) (take (unat len) (drop (unat off) (contents s (x # xs))))\<rparr>"
        using e1 by (simp del: contents_simps)
      show ?thesis
        unfolding e2 [symmetric] e3 [symmetric] using len0 b(1,2) False mc IH
        by (subst pbuf_copy_partial_loop.simps) (auto simp: deref_def Let_def n1_def [symmetric])
    qed
  qed
qed

lemma copy_partial_pkt:
  assumes "pkt s p xs" "xs \<noteq> []" "clear_of s xs d (unat len)"
  shows "pbuf_copy_partial p (Some d) len off s =
    Some (of_nat (min (unat len) (pkt_len s xs - unat off)),
      s\<lparr>octet := mem_write (octet s) d (take (unat len) (drop (unat off) (contents s xs)))\<rparr>)"
proof -
  obtain x where "p = Some x" using assms(1,2) by (cases xs) auto
  then show ?thesis
    using copy_partial_loop_pkt [OF assms(1), of d 0 len 0 off] assms(3) by (simp add: pbuf_copy_partial_def)
qed

section \<open>Writing into a packet\<close>

text \<open>The payloads of different pbufs of a packet lie apart from each other.\<close>

fun disjoint_payloads :: "'a stack_scheme \<Rightarrow> ptr list \<Rightarrow> bool" where
  "disjoint_payloads s [] \<longleftrightarrow> True"
| "disjoint_payloads s (x # xs) \<longleftrightarrow>
     (\<forall>b q. pb s x = Some b \<longrightarrow> p_payload b = Some q \<longrightarrow> clear_of s xs q (unat (p_len b))) \<and> disjoint_payloads s xs"

lemma disjoint_octet [simp]: "disjoint_payloads (s\<lparr>octet := m\<rparr>) xs = disjoint_payloads s xs"
  by (induction xs) auto

text \<open>Only the octets of the packet itself are written.\<close>

definition outside :: "'a stack_scheme \<Rightarrow> ptr list \<Rightarrow> ptr \<Rightarrow> bool" where
  "outside s xs a \<longleftrightarrow> (\<forall>x \<in> set xs. \<forall>b q. pb s x = Some b \<longrightarrow> p_payload b = Some q \<longrightarrow> apart q (unat (p_len b)) a 1)"

lemma outside_sub: "outside s xs a \<Longrightarrow> set ys \<subseteq> set xs \<Longrightarrow> outside s ys a"
  unfolding outside_def by blast

lemma mem_write_outside: "apart q n a 1 \<Longrightarrow> length w \<le> n \<Longrightarrow> mem_write m q w a = m a"
  by (auto simp: mem_write_def apart_def)

lemma mem_write_prefix:
  "length w \<le> n \<Longrightarrow> mem_read (mem_write m q w) q n = w @ drop (length w) (mem_read m q n)"
  by (rule nth_equalityI) (auto simp: mem_write_def nth_append)

lemma pbytes_outside:
  assumes "\<And>c q. pb s y = Some c \<Longrightarrow> p_payload c = Some q \<Longrightarrow> clear_of s bs q (unat (p_len c))"
    and "\<And>a. outside s bs a \<Longrightarrow> m a = octet s a"
  shows "pbytes (s\<lparr>octet := m\<rparr>) y = pbytes s y"
proof (cases "pb s y")
  case (Some c)
  show ?thesis
  proof (cases "p_payload c")
    case q: (Some q)
    have "m (ptr_add q (int i)) = octet s (ptr_add q (int i))" if "i < unat (p_len c)" for i
    proof -
      have "clear_of s bs (ptr_add q (int i)) 1"
        by (rule clear_of_sub [OF assms(1) [OF Some q]]) (use that in auto)
      then show ?thesis by (intro assms(2)) (simp add: outside_def clear_of_def)
    qed
    then have "mem_read m q (unat (p_len c)) = mem_read (octet s) q (unat (p_len c))" by (simp add: mem_read_def)
    then show ?thesis using Some q by (simp add: pbytes_def)
  qed (use Some in \<open>simp add: pbytes_def\<close>)
qed (simp add: pbytes_def)

lemma outside_octet [simp]: "outside (s\<lparr>octet := m\<rparr>) xs a = outside s xs a"
  by (simp add: outside_def)

lemma take_loop_pkt:
  assumes "pkt s p xs" "disjoint_payloads s xs" "clear_of s xs (ptr_add d (int ct)) n" "n \<le> pkt_len s xs"
  obtains m where "pbuf_take_loop p (Some d) n ct s = Some (ct + n, s\<lparr>octet := m\<rparr>)"
    "contents (s\<lparr>octet := m\<rparr>) xs = mem_read (octet s) (ptr_add d (int ct)) n @ drop n (contents s xs)"
    "\<forall>a. outside s xs a \<longrightarrow> m a = octet s a"
  using assms
proof (induction xs arbitrary: p s n ct thesis)
  case Nil
  then show ?case by (intro Nil(1) [of "octet s"]) (simp_all add: pbuf_take_loop.simps)
next
  case (Cons x xs)
  then obtain b where b: "p = Some x" "pb s x = Some b" "pkt s (p_next b) xs" "p_payload b = None \<longrightarrow> p_len b = 0" by auto
  have L: "plen s x = unat (p_len b)" using b by (simp add: plen_def)
  have lb: "length (pbytes s x) = unat (p_len b)" using length_pbytes [OF Cons.prems(2), of x] L by simp
  show ?case
  proof (cases "n = 0")
    case True
    then show ?thesis by (intro Cons.prems(1) [of "octet s"]) (simp_all add: pbuf_take_loop.simps)
  next
    case n0: False
    define k where "k = (if n > unat (p_len b) then unat (p_len b) else n)"
    let ?w = "mem_read (octet s) (ptr_add d (int ct)) k"
    obtain m1 where m1: "MEMCPY (p_payload b) (offset_ptr (Some d) ct) k s = Some (s\<lparr>octet := m1\<rparr>)"
      "pbytes (s\<lparr>octet := m1\<rparr>) x = ?w @ drop k (pbytes s x)"
      "contents (s\<lparr>octet := m1\<rparr>) xs = contents s xs"
      "mem_read m1 (ptr_add d (int (ct + k))) (n - k) = mem_read (octet s) (ptr_add d (int (ct + k))) (n - k)"
      "\<And>a. outside s (x # xs) a \<Longrightarrow> m1 a = octet s a"
    proof (cases "p_payload b")
      case None
      then have "k = 0" using b(4) by (simp add: k_def)
      with that [of "octet s"] show ?thesis by (simp add: MEMCPY_def)
    next
      case (Some q)
      let ?m1 = "mem_write (octet s) q ?w"
      have kl: "k \<le> unat (p_len b)" "k \<le> n" by (auto simp: k_def)
      have "MEMCPY (p_payload b) (offset_ptr (Some d) ct) k s = Some (s\<lparr>octet := ?m1\<rparr>)"
        using Some by (simp add: MEMCPY_def offset_ptr_def)
      moreover have "pbytes (s\<lparr>octet := ?m1\<rparr>) x = ?w @ drop k (pbytes s x)"
        using Some b(2) kl by (simp add: pbytes_def mem_write_prefix)
      moreover have "clear_of s xs q (unat (p_len b))" using Cons.prems(3) b(2) Some by simp
      then have "contents (s\<lparr>octet := mem_write (octet s) (ptr_add q 0) ?w\<rparr>) xs = contents s xs"
        by (rule contents_write) (use kl in auto)
      then have "contents (s\<lparr>octet := ?m1\<rparr>) xs = contents s xs" by simp
      moreover have ap: "apart q (unat (p_len b)) (ptr_add d (int ct)) n"
        using Cons.prems(4) b(2) Some unfolding clear_of_def by (meson list.set_intros(1))
      have "apart (ptr_add (ptr_add d (int ct)) (int k)) (n - k) (ptr_add q 0) (length ?w)"
        by (rule apart_sub [OF ap [unfolded apart_sym [of q]]]) (use kl in auto)
      then have "mem_read ?m1 (ptr_add d (int (ct + k))) (n - k) = mem_read (octet s) (ptr_add d (int (ct + k))) (n - k)"
        by (simp add: mem_simps)
      moreover have "?m1 a = octet s a" if "outside s (x # xs) a" for a
        using that b(2) Some kl mem_write_outside [of q "unat (p_len b)" a ?w "octet s"] by (simp add: outside_def)
      ultimately show ?thesis by (rule that)
    qed
    let ?s1 = "s\<lparr>octet := m1\<rparr>"
    have prems: "pkt ?s1 (p_next b) xs" "disjoint_payloads ?s1 xs" "n - k \<le> pkt_len ?s1 xs"
      using b Cons.prems L by (auto simp: k_def)
    have clr: "clear_of ?s1 xs (ptr_add d (int (ct + k))) (n - k)"
      using clear_of_sub [OF Cons.prems(4), of xs "int k" "n - k"] subset_insertI [of "set xs" x]
      by (auto simp: k_def algebra_simps)
    obtain m where m: "pbuf_take_loop (p_next b) (Some d) (n - k) (ct + k) ?s1 = Some (ct + k + (n - k), ?s1\<lparr>octet := m\<rparr>)"
      "contents (?s1\<lparr>octet := m\<rparr>) xs = mem_read (octet ?s1) (ptr_add d (int (ct + k))) (n - k) @ drop (n - k) (contents ?s1 xs)"
      "\<forall>a. outside ?s1 xs a \<longrightarrow> m a = octet ?s1 a"
      using Cons.IH [OF _ prems(1,2) clr prems(3)] by metis
    show ?thesis
    proof (rule Cons.prems(1) [of m])
      have "k \<le> n" by (simp add: k_def)
      then show "pbuf_take_loop p (Some d) n ct s = Some (ct + n, s\<lparr>octet := m\<rparr>)"
        using n0 b m1(1) m(1) by (subst pbuf_take_loop.simps) (simp add: deref_def Let_def k_def [symmetric])
      have px: "pbytes (s\<lparr>octet := m\<rparr>) x = pbytes ?s1 x"
        using pbytes_outside [of ?s1 x xs m] m(3) Cons.prems(3) by simp
      show "contents (s\<lparr>octet := m\<rparr>) (x # xs) =
        mem_read (octet s) (ptr_add d (int ct)) n @ drop n (contents s (x # xs))"
      proof (cases "n \<le> unat (p_len b)")
        case True
        then have "k = n" by (simp add: k_def)
        then show ?thesis using px m1(2,3) m(2) lb True by simp
      next
        case False
        then have k: "k = unat (p_len b)" "k + (n - k) = n" by (auto simp: k_def)
        have "mem_read (octet s) (ptr_add d (int ct)) n = ?w @ mem_read (octet s) (ptr_add d (int (ct + k))) (n - k)"
          using mem_read_add [of "octet s" "ptr_add d (int ct)" k "n - k"] k(2) by simp
        then show ?thesis using px m1(2,3,4) m(2) lb False k by simp
      qed
      show "\<forall>a. outside s (x # xs) a \<longrightarrow> m a = octet s a"
        using m(3) m1(5) by (simp add: outside_def)
    qed
  qed
qed

lemma take_pkt:
  assumes "pkt s p xs" "xs \<noteq> []" "disjoint_payloads s xs" "clear_of s xs d (unat n)" "unat n \<le> pkt_len s xs"
  obtains m where "pbuf_take p (Some d) n s = Some (ERR_OK, s\<lparr>octet := m\<rparr>)"
    "contents (s\<lparr>octet := m\<rparr>) xs = mem_read (octet s) d (unat n) @ drop (unat n) (contents s xs)"
    "\<forall>a. outside s xs a \<longrightarrow> m a = octet s a"
proof -
  obtain x b where b: "p = Some x" "pb s x = Some b" "unat (p_tot_len b) = pkt_len s xs"
    using assms(1,2) by (cases xs) (auto simp: plen_def)
  obtain m where m: "pbuf_take_loop p (Some d) (unat n) 0 s = Some (0 + unat n, s\<lparr>octet := m\<rparr>)"
    "contents (s\<lparr>octet := m\<rparr>) xs = mem_read (octet s) (ptr_add d (int 0)) (unat n) @ drop (unat n) (contents s xs)"
    "\<forall>a. outside s xs a \<longrightarrow> m a = octet s a"
    by (rule take_loop_pkt [OF assms(1,3) _ assms(5), of d 0]) (use assms(4) in simp_all)
  show ?thesis
    by (rule that [of m]) (use m b assms(5) in \<open>simp_all add: pbuf_take_def word_le_nat_alt\<close>)
qed

text \<open>A piece written inside one pbuf of a packet.\<close>

lemma disjoint_mid:
  assumes "disjoint_payloads s (as @ x # bs)" "pb s x = Some b" "p_payload b = Some q"
  shows "clear_of s as q (unat (p_len b))" "clear_of s bs q (unat (p_len b))" "disjoint_payloads s bs"
  using assms
proof (induction as)
  case Nil
  {
    case 1 then show ?case by (simp add: clear_of_def)
  next
    case 2 then show ?case by simp
  next
    case 3 then show ?case by simp
  }
next
  case (Cons y ys)
  {
    case 1
    have "apart q' (unat (p_len c)) q (unat (p_len b))" if "pb s y = Some c" "p_payload c = Some q'" for c q'
    proof -
      have "clear_of s (ys @ x # bs) q' (unat (p_len c))" using 1(1) that by simp
      then have "apart q (unat (p_len b)) q' (unat (p_len c))" using assms(2,3) by (simp add: clear_of_def)
      then show ?thesis by (simp add: apart_sym)
    qed
    then show ?case using Cons.IH(1) 1 by (simp add: clear_of_def)
  next
    case 2 then show ?case using Cons.IH(2) by simp
  next
    case 3 then show ?case using Cons.IH(3) by simp
  }
qed

lemma disjoint_later:
  assumes "disjoint_payloads s (as @ x # bs)" "y \<in> set (as @ [x])" "pb s y = Some c" "p_payload c = Some q"
  shows "clear_of s bs q (unat (p_len c))"
  using assms
proof (induction as)
  case (Cons z as)
  show ?case
  proof (cases "y = z")
    case True
    with Cons.prems have "clear_of s (as @ x # bs) q (unat (p_len c))" by simp
    then show ?thesis using clear_of_sub [of s "as @ x # bs" q "unat (p_len c)" bs 0] by auto
  qed (use Cons in simp)
qed simp

lemma contents_prefix_length:
  assumes "pkt s p (as @ bs)"
  shows "length (contents s as) = pkt_len s as"
proof -
  have "length (pbytes s y) = plen s y" if "y \<in> set as" for y using length_pbytes [OF assms, of y] that by simp
  then show ?thesis by (induction as) auto
qed

lemma write_inside:
  assumes "pkt s p (as @ x # bs)" "disjoint_payloads s (as @ x # bs)" "pb s x = Some b" "p_payload b = Some q"
    "i + length w \<le> unat (p_len b)"
  shows "contents (s\<lparr>octet := mem_write (octet s) (ptr_add q (int i)) w\<rparr>) (as @ x # bs) =
      take (pkt_len s as + i) (contents s (as @ x # bs)) @ w @ drop (pkt_len s as + i + length w) (contents s (as @ x # bs))"
    "outside s (as @ x # bs) a \<Longrightarrow> mem_write (octet s) (ptr_add q (int i)) w a = octet s a"
    "contents (s\<lparr>octet := mem_write (octet s) (ptr_add q (int i)) w\<rparr>) as = contents s as"
    "contents (s\<lparr>octet := mem_write (octet s) (ptr_add q (int i)) w\<rparr>) bs = contents s bs"
    "pbytes (s\<lparr>octet := mem_write (octet s) (ptr_add q (int i)) w\<rparr>) x =
       take i (pbytes s x) @ w @ drop (i + length w) (pbytes s x)"
proof -
  note dj = disjoint_mid [OF assms(2-4)]
  let ?s = "s\<lparr>octet := mem_write (octet s) (ptr_add q (int i)) w\<rparr>"
  show c: "contents ?s as = contents s as" "contents ?s bs = contents s bs"
    using assms(5) by (auto intro!: contents_write [OF dj(1)] contents_write [OF dj(2)])
  show x: "pbytes ?s x = take i (pbytes s x) @ w @ drop (i + length w) (pbytes s x)"
    using assms(3-5) by (simp add: pbytes_def)
      (rule nth_equalityI, auto simp: mem_write_def nth_append)
  have lx: "length (pbytes s x) = unat (p_len b)" using length_pbytes [OF assms(1), of x] assms(3) by (simp add: plen_def)
  have la: "length (contents s as) = pkt_len s as" by (rule contents_prefix_length [OF assms(1)])
  show "contents ?s (as @ x # bs) = take (pkt_len s as + i) (contents s (as @ x # bs)) @ w @
      drop (pkt_len s as + i + length w) (contents s (as @ x # bs))"
    using assms(5) by (simp add: c x la lx)
  show "mem_write (octet s) (ptr_add q (int i)) w a = octet s a" if "outside s (as @ x # bs) a"
  proof -
    have "apart q (unat (p_len b)) a 1" using that assms(3,4) by (simp add: outside_def)
    then have "apart (ptr_add q (int i)) (length w) (ptr_add a 0) 1"
      by (rule apart_sub) (use assms(5) in auto)
    then show ?thesis by (intro mem_write_outside [of _ "length w"]) auto
  qed
qed

lemma mem_write_single: "m(d := v) = mem_write m d [v]"
  by (auto simp: mem_write_def fun_eq_iff prod_eq_iff)

text \<open>A single octet written at an offset changes that octet of the contents and no other.\<close>

lemma put_at_pkt:
  assumes "pkt s p xs" "disjoint_payloads s xs"
  obtains m where "pbuf_put_at p off v s = Some (s\<lparr>octet := m\<rparr>)"
    "contents (s\<lparr>octet := m\<rparr>) xs = (contents s xs)[unat off := v]"
    "\<forall>a. outside s xs a \<longrightarrow> m a = octet s a"
proof (cases "unat off < pkt_len s xs")
  case False
  then have "pbuf_put_at p off v s = Some s"
    by (simp add: pbuf_put_at_def pbuf_skip_def pbuf_skip_pkt [OF assms(1)] skip_to_out)
  then show ?thesis using False length_contents [OF assms(1)]
    by (intro that [of "octet s"]) (simp_all add: list_update_beyond)
next
  case True
  then obtain as x bs where x: "xs = as @ x # bs" "skip_to s xs (unat off) = (Some x, unat off - pkt_len s as)"
    "pkt_len s as \<le> unat off" "unat off - pkt_len s as < plen s x"
    by (rule skip_to_in)
  let ?i = "unat off - pkt_len s as"
  from pkt_append assms(1) x(1) have "pkt s (Some x) (x # bs)" by blast
  then obtain b where b: "pb s x = Some b" "p_payload b = None \<longrightarrow> p_len b = 0" by auto
  have i: "unat (of_nat ?i :: u16) = ?i"
    by (rule unat_of_nat16) (use unat_u16_less [of off] in linarith)
  then have lt: "of_nat ?i < p_len b" "?i + length [v] \<le> unat (p_len b)"
    using x(4) b by (simp_all add: word_less_nat_alt plen_def)
  then obtain q where q: "p_payload b = Some q" using b(2) by (cases "p_payload b") auto
  note w = write_inside [OF assms [unfolded x(1)] b(1) q lt(2)]
  show ?thesis
  proof (rule that [of "mem_write (octet s) (ptr_add q (int ?i)) [v]"])
    show "pbuf_put_at p off v s = Some (s\<lparr>octet := mem_write (octet s) (ptr_add q (int ?i)) [v]\<rparr>)"
      using lt b q i by (simp add: pbuf_put_at_def pbuf_skip_def pbuf_skip_pkt [OF assms(1)] x(2) offset_ptr_def
          mem_write_single)
    show "contents (s\<lparr>octet := mem_write (octet s) (ptr_add q (int ?i)) [v]\<rparr>) xs = (contents s xs)[unat off := v]"
      using w(1) x(1,3) True length_contents [OF assms(1)] by (simp add: upd_conv_take_nth_drop)
    show "\<forall>a. outside s xs a \<longrightarrow> mem_write (octet s) (ptr_add q (int ?i)) [v] a = octet s a"
      using w(2) x(1) by simp
  qed
qed

lemma take_at_pkt:
  assumes "pkt s p xs" "disjoint_payloads s xs" "clear_of s xs d (unat n)"
    "unat off < pkt_len s xs" "unat off + unat n \<le> pkt_len s xs"
  obtains m where "pbuf_take_at p (Some d) n off s = Some (ERR_OK, s\<lparr>octet := m\<rparr>)"
    "contents (s\<lparr>octet := m\<rparr>) xs = take (unat off) (contents s xs) @ mem_read (octet s) d (unat n) @
       drop (unat off + unat n) (contents s xs)"
    "\<forall>a. outside s xs a \<longrightarrow> m a = octet s a"
proof -
  obtain as x bs where x: "xs = as @ x # bs" "skip_to s xs (unat off) = (Some x, unat off - pkt_len s as)"
    "pkt_len s as \<le> unat off" "unat off - pkt_len s as < plen s x"
    by (rule skip_to_in [OF assms(4)])
  define i where "i = unat off - pkt_len s as"
  from pkt_append assms(1) x(1) have px: "pkt s (Some x) (x # bs)" by blast
  then obtain b where b: "pb s x = Some b" "p_payload b = None \<longrightarrow> p_len b = 0" "pkt s (p_next b) bs"
    "unat (p_tot_len b) = unat (p_len b) + pkt_len s bs" by auto
  have L: "plen s x = unat (p_len b)" using b by (simp add: plen_def)
  have i: "unat (of_nat i :: u16) = i" unfolding i_def
    by (rule unat_of_nat16) (use unat_u16_less [of off] in linarith)
  have il: "i < unat (p_len b)" using x(4) L by (simp add: i_def)
  then obtain q where q: "p_payload b = Some q" using b(2) by (cases "p_payload b") auto
  define k where "k = min (unat (p_len b) - i) (unat n)"
  let ?w = "mem_read (octet s) d k"
  let ?m1 = "mem_write (octet s) (ptr_add q (int i)) ?w"
  let ?s1 = "s\<lparr>octet := ?m1\<rparr>"
  have kl: "i + length ?w \<le> unat (p_len b)" "k \<le> unat n" using il by (auto simp: k_def)
  note w = write_inside [OF assms(1,2) [unfolded x(1)] b(1) q kl(1)]
  have mc: "MEMCPY (offset_ptr (p_payload b) i) (Some d) k s = Some ?s1"
    using q by (simp add: MEMCPY_def offset_ptr_def)
  have rem: "unat (n - of_nat k) = unat n - k"
  proof -
    have "unat (of_nat k :: u16) = k" using kl(2) unat_u16_less [of n] by (intro unat_of_nat16) linarith
    then show ?thesis using kl(2) by (simp add: unat_sub word_le_nat_alt)
  qed
  have tot: "unat (p_tot_len b) \<ge> i + unat n" using assms(5) x(1,3) b(4) L by (simp add: i_def)
  have start: "pbuf_take_at p (Some d) n off s = (if n - of_nat k > 0
      then pbuf_take (p_next b) (offset_ptr (Some d) k) (n - of_nat k) ?s1 else Some (ERR_OK, ?s1))"
    using b(1) tot il mc i
    by (simp add: pbuf_take_at_def pbuf_skip_def pbuf_skip_pkt [OF assms(1)] x(2) i_def [symmetric] k_def [symmetric]
        word_less_nat_alt)
  have pre: "pkt_len s as + i = unat off" using x(3) by (simp add: i_def)
  show ?thesis
  proof (cases "k = unat n")
    case True
    then have nz: "\<not> n - of_nat k > 0" using rem by (simp add: word_less_nat_alt)
    show ?thesis
      by (rule that [of ?m1]) (use start nz w pre True x(1) in \<open>simp_all del: contents_simps\<close>)
  next
    case False
    then have k: "k = unat (p_len b) - i" "k < unat n" by (auto simp: k_def)
    have nz: "n - of_nat k > 0" using rem k(2) by (simp add: word_less_nat_alt)
    have bs: "bs \<noteq> []" using tot k il b(4) by (cases bs) auto
    have dj: "disjoint_payloads ?s1 bs" using disjoint_mid(3) [OF assms(2) [unfolded x(1)] b(1) q] by simp
    have clr: "clear_of ?s1 bs (ptr_add d (int k)) (unat (n - of_nat k))"
      using clear_of_sub [OF assms(3), of bs "int k" "unat n - k"] x(1) rem k(2) by auto
    have pk: "pkt ?s1 (p_next b) bs" "unat (n - of_nat k) \<le> pkt_len ?s1 bs"
      using b(3,4) tot rem k il by auto
    obtain m where m: "pbuf_take (p_next b) (Some (ptr_add d (int k))) (n - of_nat k) ?s1 = Some (ERR_OK, ?s1\<lparr>octet := m\<rparr>)"
      "contents (?s1\<lparr>octet := m\<rparr>) bs = mem_read (octet ?s1) (ptr_add d (int k)) (unat (n - of_nat k)) @
         drop (unat (n - of_nat k)) (contents ?s1 bs)"
      "\<forall>a. outside ?s1 bs a \<longrightarrow> m a = octet ?s1 a"
      by (rule take_pkt [OF pk(1) bs dj clr pk(2)])
    have dm: "disjoint_payloads s (as @ x # bs)" using assms(2) x(1) by simp
    have py: "pbytes (s\<lparr>octet := m\<rparr>) y = pbytes ?s1 y" if "y \<in> set (as @ [x])" for y
      using pbytes_outside [of ?s1 y bs m] m(3) disjoint_later [OF dm that] by simp
    then have ca: "contents (s\<lparr>octet := m\<rparr>) as = contents s as" using w(3) by (simp add: contents_def cong: map_cong)
    have lx: "length (pbytes s x) = unat (p_len b)" using length_pbytes [OF px, of x] L by simp
    have cx: "pbytes (s\<lparr>octet := m\<rparr>) x = take i (pbytes s x) @ ?w" using py [of x] w(5) k(1) lx il by simp
    have la: "length (contents s as) = pkt_len s as" using contents_prefix_length assms(1) x(1) by blast
    have far: "mem_read ?m1 (ptr_add d (int k)) (unat n - k) = mem_read (octet s) (ptr_add d (int k)) (unat n - k)"
    proof -
      have "apart d (unat n) q (unat (p_len b))"
        using assms(3) b(1) q unfolding x(1) clear_of_def by (simp add: apart_sym)
      then have "apart (ptr_add d (int k)) (unat n - k) (ptr_add q (int i)) (length ?w)"
        by (rule apart_sub) (use kl in auto)
      then show ?thesis by (simp add: mem_simps)
    qed
    have rd: "mem_read (octet s) d (unat n) = ?w @ mem_read (octet s) (ptr_add d (int k)) (unat n - k)"
      using mem_read_add [of "octet s" d k "unat n - k"] k(2) by simp
    show ?thesis
    proof (rule that [of m])
      show "pbuf_take_at p (Some d) n off s = Some (ERR_OK, s\<lparr>octet := m\<rparr>)"
        using start nz m(1) by (simp add: offset_ptr_def)
      show "contents (s\<lparr>octet := m\<rparr>) xs = take (unat off) (contents s xs) @ mem_read (octet s) d (unat n) @
         drop (unat off + unat n) (contents s xs)"
      proof -
        have "take (unat off) (contents s xs) = contents s as @ take i (pbytes s x)"
          unfolding pre [symmetric] x(1) using la lx il by simp
        moreover have "drop (unat off + unat n) (contents s xs) = drop (unat n - k) (contents s bs)"
          unfolding pre [symmetric] x(1) using la lx il k by (simp add: add.commute)
        ultimately show ?thesis using m(2) w(4) ca cx far rd rem x(1) by simp
      qed
      show "\<forall>a. outside s xs a \<longrightarrow> m a = octet s a"
      proof (intro allI impI)
        fix a
        assume o: "outside s xs a"
        then have "outside s bs a" by (rule outside_sub) (auto simp: x(1))
        then show "m a = octet s a" using m(3) w(2) [of a] o x(1) by simp
      qed
    qed
  qed
qed

section \<open>Properties of the data operations\<close>

text \<open>The static variables before initialisation, and a packet of two and three octets for the witnesses.\<close>

definition stack_zero :: "(memp_t \<Rightarrow> memp_desc) \<Rightarrow> stack" where
  "stack_zero D = pools.extend (pools_zero D) (stack.fields (\<lambda>_. None) False)"

definition two_pbufs :: stack where
  "two_pbufs = (stack_zero desc_one)\<lparr>octet := (\<lambda>a. word_of_int (snd a + 1)),
     pb := [(Ext 0, 0) \<mapsto> \<lparr>p_next = Some (Ext 0, 1), p_payload = Some (Ext 1, 0), p_tot_len = 5, p_len = 2,
              p_type = 0, p_flags = 0, p_ref = 1, p_if_idx = 0\<rparr>,
            (Ext 0, 1) \<mapsto> \<lparr>p_next = None, p_payload = Some (Ext 2, 0), p_tot_len = 3, p_len = 3,
              p_type = 0, p_flags = 0, p_ref = 1, p_if_idx = 0\<rparr>]\<rparr>"

abbreviation two_chain :: "ptr list" where "two_chain \<equiv> [(Ext 0, 0), (Ext 0, 1)]"

lemma two_pbufs_ok:
  "pkt two_pbufs (Some (Ext 0, 0)) two_chain" "pkt_len two_pbufs two_chain = 5"
  "disjoint_payloads two_pbufs two_chain" "contents two_pbufs two_chain = [1, 2, 1, 2, 3]"
  "clear_of two_pbufs two_chain (Ext 3, k) n" "octet two_pbufs a = word_of_int (snd a + 1)"
  by (simp_all add: two_pbufs_def plen_def pkt_len_def clear_of_def apart_def contents_def pbytes_def mem_read_def
      ptr_add_def upt_rec)

text \<open>
  C9. \<^verbatim>\<open>pbuf_copy_partial\<close> on a well-formed packet copies exactly the octets from
  \<^verbatim>\<open>offset\<close> on, at most \<^verbatim>\<open>len\<close> of them, however the packet is cut into pbufs; it
  returns their number and writes nothing else.
\<close>

theorem pbuf_copy_partial_reads:
  assumes "pkt s p xs" "xs \<noteq> []" "clear_of s xs d (unat len)"
  shows "pbuf_copy_partial p (Some d) len off s =
    Some (of_nat (min (unat len) (length (contents s xs) - unat off)),
      s\<lparr>octet := mem_write (octet s) d (take (unat len) (drop (unat off) (contents s xs)))\<rparr>)"
  using copy_partial_pkt [OF assms] length_contents [OF assms(1)] by simp

theorem pbuf_copy_partial_reads_witness:
  "\<exists>s'. pbuf_copy_partial (Some (Ext 0, 0)) (Some (Ext 3, 0)) 3 1 two_pbufs = Some (3, s') \<and>
     mem_read (octet s') (Ext 3, 0) 3 = [2, 1, 2]"
  using pbuf_copy_partial_reads [OF two_pbufs_ok(1), of "(Ext 3, 0)" 3 1] two_pbufs_ok(5)
  unfolding two_pbufs_ok(4) by (simp add: mem_simps)





text \<open>
  \<^verbatim>\<open>pbuf_put_at\<close> changes one octet of the packet and \<^verbatim>\<open>pbuf_get_at\<close> reads by
  position; an offset behind the end changes nothing and reads as 0.
\<close>

theorem pbuf_put_get:
  assumes "pkt s p xs" "disjoint_payloads s xs"
  shows "\<exists>m. pbuf_put_at p i v s = Some (s\<lparr>octet := m\<rparr>) \<and>
    contents (s\<lparr>octet := m\<rparr>) xs = (contents s xs)[unat i := v] \<and>
    (\<forall>j. pbuf_get_at p j (s\<lparr>octet := m\<rparr>) = Some (if unat j < length (contents s xs)
       then (contents s xs)[unat i := v] ! unat j else 0)) \<and>
    (\<forall>a. outside s xs a \<longrightarrow> m a = octet s a)"
proof -
  obtain m where m: "pbuf_put_at p i v s = Some (s\<lparr>octet := m\<rparr>)"
    "contents (s\<lparr>octet := m\<rparr>) xs = (contents s xs)[unat i := v]" "\<forall>a. outside s xs a \<longrightarrow> m a = octet s a"
    by (rule put_at_pkt [OF assms])
  moreover have "pbuf_get_at p j (s\<lparr>octet := m\<rparr>) = Some (if unat j < length (contents s xs)
       then (contents s xs)[unat i := v] ! unat j else 0)" for j
    using get_at_pkt [of "s\<lparr>octet := m\<rparr>" p xs j] assms(1) m(2) length_contents [OF assms(1)] by simp
  ultimately show ?thesis by blast
qed

theorem pbuf_put_get_witness:
  "\<exists>m. pbuf_put_at (Some (Ext 0, 0)) 3 77 two_pbufs = Some (two_pbufs\<lparr>octet := m\<rparr>) \<and>
     contents (two_pbufs\<lparr>octet := m\<rparr>) two_chain = [1, 2, 1, 77, 3] \<and>
     pbuf_get_at (Some (Ext 0, 0)) 3 (two_pbufs\<lparr>octet := m\<rparr>) = Some 77"
proof -
  obtain m where m: "pbuf_put_at (Some (Ext 0, 0)) 3 77 two_pbufs = Some (two_pbufs\<lparr>octet := m\<rparr>)"
    "contents (two_pbufs\<lparr>octet := m\<rparr>) two_chain = [1, 2, 1, 2, 3][unat (3 :: u16) := 77]"
    "\<forall>j. pbuf_get_at (Some (Ext 0, 0)) j (two_pbufs\<lparr>octet := m\<rparr>) = Some (if unat j < length [1, 2, 1, 2, 3 :: u8]
       then [1, 2, 1, 2, 3][unat (3 :: u16) := 77] ! unat j else 0)"
    using pbuf_put_get [OF two_pbufs_ok(1,3), of 3 77] unfolding two_pbufs_ok(4) by blast
  show ?thesis using m(1,2) m(3) [rule_format, of 3] by (intro exI [of _ m]) simp
qed



end
