(* ===== verification/Pbuf_Mem.thy ===== *)
theory Pbuf_Mem
  imports Pbuf_Data
begin

text \<open>
  Packet buffers and the memory they live in. The invariant \<open>mem_ok\<close> ties the pbufs to the
  heap of \<^verbatim>\<open>Mem\<close> and to the pools of \<^verbatim>\<open>Memp\<close>: every pbuf stands in an allocation
  of the allocator its type names, and the data of a contiguous pbuf stays inside that
  allocation. Freeing a chain gives back exactly the pbufs that lose their last reference.
\<close>

section \<open>What the heap leaves of the rest of the state\<close>

named_theorems frame_simps \<open>components of the state an operation does not touch\<close>

lemma more_pools:
  assumes "heap.more (s' :: 'a pools_scheme) = heap.more s"
  shows "memp_pools s' = memp_pools s" "tab s' = tab s" "mnext s' = mnext s" "mps_used s' = mps_used s"
  using assms by (cases s; cases s'; simp)+

lemma more_stack:
  assumes "heap.more (s' :: 'a stack_scheme) = heap.more s"
  shows "pb s' = pb s" "pbuf_free_ooseq_pending s' = pbuf_free_ooseq_pending s"
  using assms by (cases s; cases s'; simp)+

lemma heap_more_ASSERT [frame_simps]: "heap.more (LWIP_ASSERT msg P s) = heap.more s"
  by (simp add: LWIP_ASSERT_def)

lemma heap_more_stats [frame_simps]: 
  "heap.more (MEM_STATS_DEC_USED n s) = heap.more s"
  "heap.more (MEM_STATS_INC_USED n s) = heap.more s"
  "heap.more (MEM_STATS_INC_illegal s) = heap.more s"
  "heap.more (MEM_STATS_INC_err s) = heap.more s"
  by (simp_all add: MEM_STATS_DEC_USED_def MEM_STATS_INC_USED_def MEM_STATS_INC_illegal_def MEM_STATS_INC_err_def Let_def)

lemma heap_more_upd [frame_simps]:
  "heap.more (s\<lparr>ram := r\<rparr>) = heap.more s" "heap.more (s\<lparr>lfree := l\<rparr>) = heap.more s"
  by simp_all

lemma heap_more_let [frame_simps]: "heap.more (Let x f) = Let x (\<lambda>y. heap.more (f y))"
  by (simp add: Let_def)

lemmas heap_more_if [frame_simps] = if_distrib [of heap.more]

lemma heap_more_plug [frame_simps]:
  "heap.more (plug_next b s) = heap.more s" "heap.more (plug_prev b s) = heap.more s"
  unfolding plug_next_def plug_prev_def by (auto simp only: frame_simps Let_def split: if_split)

lemma heap_more_mem_free [frame_simps]: "heap.more (mem_free p s) = heap.more s"
  unfolding mem_free_def plug_holes_def
  by (auto simp only: frame_simps Let_def split: if_split option.split)

lemma heap_more_malloc_take [frame_simps]: "heap.more (mem_malloc_take sz ptr s) = heap.more s"
  unfolding mem_malloc_take_def by (auto simp only: frame_simps Let_def split: if_split)

lemma heap_more_malloc:
  assumes "mem_malloc n s = Some (p, s')"
  shows "heap.more s' = heap.more s"
proof -
  have fin: "mem_malloc_finish sz ptr s1 = Some (p, s') \<Longrightarrow> heap.more s' = heap.more s1" for sz ptr s1
    by (auto simp: mem_malloc_finish_def Let_def frame_simps bind_eq_Some_conv split: if_splits)
  show ?thesis
    using assms unfolding mem_malloc_def Let_def
    by (auto simp only: frame_simps bind_eq_Some_conv split: if_splits option.splits dest!: fin)
qed

lemma heap_more_trim_at [frame_simps]: "heap.more (snd (mem_trim_at a q k s)) = heap.more s"
  unfolding mem_trim_at_def Let_def by (auto simp only: frame_simps snd_conv split: if_split)

lemma heap_more_trim:
  assumes "mem_trim a n s = Some (p, s')"
  shows "heap.more s' = heap.more s"
proof -
  have "heap.more (snd x) = heap.more s" if "mem_trim a n s = Some x" for x
    using that unfolding mem_trim_def Let_def
    by (auto simp only: frame_simps snd_conv option.inject split: if_splits)
  from this [OF assms] show ?thesis by simp
qed

section \<open>Where the pbufs live\<close>

text \<open>The allocations of both allocators as one map from pointers to sizes.\<close>

definition mlive :: "'a pools_scheme \<Rightarrow> ptr \<Rightarrow> nat option" where
  "mlive s p = (case fst p of Ram \<Rightarrow> live s (snd p) | Pool _ \<Rightarrow> pool_live s p | Ext _ \<Rightarrow> None)"

definition custom :: "pbuf \<Rightarrow> bool" where
  "custom b \<longleftrightarrow> p_flags b AND PBUF_FLAG_IS_CUSTOM \<noteq> 0"

definition contiguous :: "pbuf \<Rightarrow> bool" where
  "contiguous b \<longleftrightarrow> p_type b AND PBUF_TYPE_FLAG_STRUCT_DATA_CONTIGUOUS \<noteq> 0"

text \<open>The type of a pbuf names the allocator its memory came from.\<close>

definition src_ok :: "region \<Rightarrow> pbuf \<Rightarrow> bool" where
  "src_ok r b \<longleftrightarrow> (r, pbuf_get_allocsrc b, contiguous b) \<in>
     {(Ram, ALLOC_SRC_HEAP, True), (Pool MEMP_PBUF, ALLOC_SRC_MEMP_PBUF, False),
      (Pool MEMP_PBUF_POOL, ALLOC_SRC_MEMP_PBUF_POOL, True)}"

text \<open>The data of a contiguous pbuf lies behind its header, inside its allocation of \<open>n\<close> octets.\<close>

definition inside :: "ptr \<Rightarrow> nat \<Rightarrow> pbuf \<Rightarrow> bool" where
  "inside p n b \<longleftrightarrow> (\<exists>y. p_payload b = Some y \<and> fst y = fst p \<and>
     snd p + int SIZEOF_STRUCT_PBUF \<le> snd y \<and> snd y + int (unat (p_len b)) \<le> snd p + int n)"

definition home :: "ptr \<Rightarrow> nat option \<Rightarrow> pbuf \<Rightarrow> bool" where
  "home p a b \<longleftrightarrow> (if custom b then a \<noteq> None \<or> (\<exists>k. fst p = Ext k)
     else src_ok (fst p) b \<and> (\<exists>n. a = Some n \<and> (contiguous b \<longrightarrow> inside p n b)))"

definition mem_ok :: "'a stack_scheme \<Rightarrow> bool" where
  "mem_ok s \<longleftrightarrow> heap_inv s \<and> pools_inv s \<and>
     d_size (memp_pools s MEMP_PBUF_POOL) = SIZEOF_STRUCT_PBUF + PBUF_POOL_BUFSIZE_ALIGNED \<and>
     (\<forall>p b. pb s p = Some b \<longrightarrow> home p (mlive s p) b)"

lemma pools_frame:
  assumes "memp_pools s' = memp_pools s" "tab s' = tab s" "mnext s' = mnext s" "mps_used s' = mps_used s"
  shows "pools_inv s' = pools_inv s" "pool_live s' = pool_live s"
proof -
  have "free_list s' t = free_list s t" "elems s' t = elems s t" for t
    by (simp_all add: free_list_def elems_def assms)
  then show "pools_inv s' = pools_inv s" "pool_live s' = pool_live s"
    by (simp_all add: pools_inv_def pool_ok_def pool_live_def fun_eq_iff assms split: region.split)
qed

lemma mlive_frame: "live s' = live s \<Longrightarrow> pool_live s' = pool_live s \<Longrightarrow> mlive s' = mlive s"
  by (auto simp: mlive_def fun_eq_iff split: region.splits)

text \<open>What each allocator operation does to the whole state.\<close>

lemma mem_free_state:
  assumes "heap_inv s" "pools_inv s" "mlive s p = Some n" "fst p = Ram"
  defines "s' \<equiv> mem_free (Some (snd p)) (s :: 'a stack_scheme)"
  shows "heap_inv s'" "pools_inv s'" "mlive s' = (mlive s)(p := None)" "octet s' = octet s"
    "diag s' = diag s" "pb s' = pb s" "memp_pools s' = memp_pools s"
proof -
  have l: "live s (snd p) = Some n" using assms(3,4) by (simp add: mlive_def)
  have m: "heap.more s' = heap.more s" by (simp add: s'_def frame_simps)
  note h = mem_free_ok [OF assms(1) l, folded s'_def]
  show "heap_inv s'" "octet s' = octet s" "diag s' = diag s" using h by simp_all
  show "pools_inv s'" "memp_pools s' = memp_pools s"
    using pools_frame [OF more_pools [OF m]] assms(2) more_pools [OF m] by simp_all
  show "pb s' = pb s" by (rule more_stack [OF m])
  show "mlive s' = (mlive s)(p := None)"
    using h(2) pools_frame(2) [OF more_pools [OF m]] assms(4)
    by (auto simp: mlive_def fun_eq_iff prod_eq_iff split: region.splits)
qed

lemma memp_free_fields:
  fixes s :: "'a stack_scheme"
  shows "ram (memp_free t p s) = ram s" "lfree (memp_free t p s) = lfree s"
  "ram_end (memp_free t p s) = ram_end s" "mst_used (memp_free t p s) = mst_used s"
  "octet (memp_free t p s) = octet s" "diag (memp_free t p s) = diag s" "pb (memp_free t p s) = pb s"
  by (simp_all add: memp_free_def do_memp_free_pool_def MEM_ALIGNMENT_def Let_def split: option.split)

lemma memp_free_state:
  assumes "heap_inv s" "pools_inv s" "mlive s p = Some n" "fst p = Pool t"
  defines "s' \<equiv> memp_free t (Some p) (s :: 'a stack_scheme)"
  shows "heap_inv s'" "pools_inv s'" "mlive s' = (mlive s)(p := None)" "octet s' = octet s"
    "diag s' = diag s" "pb s' = pb s" "memp_pools s' = memp_pools s"
proof -
  have l: "p \<in> elems s t" "p \<notin> set (free_list s t)"
    using assms(3,4) by (auto simp: mlive_def pool_live_def split: if_splits)
  note f = memp_free_fields [of t "Some p" s, folded s'_def]
  note m = memp_free_ok [OF assms(2) l, folded s'_def]
  show "heap_inv s'" using heap_inv_frame(1) [OF f(1-4)] assms(1) by simp
  show "pools_inv s'" "memp_pools s' = memp_pools s" using m by simp_all
  show "octet s' = octet s" "diag s' = diag s" "pb s' = pb s" using f by simp_all
  have "pool_live s' = (pool_live s)(p := None)" using m l by (intro pool_live_give) auto
  then show "mlive s' = (mlive s)(p := None)"
    using heap_inv_frame(2) [OF f(1-4)] assms(4)
    by (auto simp: mlive_def fun_eq_iff split: region.splits)
qed

lemma memp_malloc_fields:
  fixes s :: "'a stack_scheme"
  assumes "memp_malloc t s = (p, s')"
  shows "ram s' = ram s" "lfree s' = lfree s" "ram_end s' = ram_end s" "mst_used s' = mst_used s"
  "octet s' = octet s" "diag s' = diag s" "pb s' = pb s"
  "pbuf_free_ooseq_pending s' = pbuf_free_ooseq_pending s"
proof -
  have e: "s' = snd (memp_malloc t s)" using assms by simp
  show "ram s' = ram s" "lfree s' = lfree s" "ram_end s' = ram_end s" "mst_used s' = mst_used s"
    "octet s' = octet s" "diag s' = diag s" "pb s' = pb s"
    "pbuf_free_ooseq_pending s' = pbuf_free_ooseq_pending s"
    unfolding e by (simp_all add: memp_malloc_def do_memp_malloc_pool_def MEM_ALIGNMENT_def Let_def
      split: option.split)
qed

lemma memp_malloc_state:
  assumes "heap_inv s" "pools_inv s" and m: "memp_malloc t (s :: 'a stack_scheme) = (r, s')"
  shows "heap_inv s'" "pools_inv s'" "memp_pools s' = memp_pools s"
    "case r of None \<Rightarrow> mlive s' = mlive s
     | Some p \<Rightarrow> fst p = Pool t \<and> mlive s p = None \<and> mlive s' = (mlive s)(p \<mapsto> d_size (memp_pools s t))"
proof -
  note f = memp_malloc_fields [OF m] and ok = memp_malloc_ok [OF assms(2) m]
  show "heap_inv s'" using heap_inv_frame(1) [OF f(1-4)] assms(1) by simp
  show "pools_inv s'" "memp_pools s' = memp_pools s" using ok by simp_all
  have l: "live s' = live s" using heap_inv_frame(2) [OF f(1-4)] .
  show "case r of None \<Rightarrow> mlive s' = mlive s
     | Some p \<Rightarrow> fst p = Pool t \<and> mlive s p = None \<and> mlive s' = (mlive s)(p \<mapsto> d_size (memp_pools s t))"
  proof (cases r)
    case None
    with ok have a: "free_list s' u = free_list s u" and b: "memp_pools s' = memp_pools s" for u by auto
    have "mlive s' = mlive s"
      by (simp add: mlive_def pool_live_def elems_def a b l fun_eq_iff split: region.split)
    with None show ?thesis by simp
  next
    case (Some p)
    with ok have p: "p \<in> elems s t" "free_list s t = p # free_list s' t"
      "\<forall>u. u \<noteq> t \<longrightarrow> free_list s' u = free_list s u" by simp_all
    have d: "p \<notin> set (free_list s' t)"
      using assms(2) p(2) by (auto simp: pools_inv_def pool_ok_def dest: spec [of _ t])
    have "pool_live s' = (pool_live s)(p \<mapsto> d_size (memp_pools s t))"
      using ok p d by (intro pool_live_take) auto
    moreover have "fst p = Pool t" "pool_live s p = None"
      using elems_pool [OF p(1)] p by (auto simp: pool_live_def)
    ultimately show ?thesis using Some l by (auto simp: mlive_def fun_eq_iff split: region.splits)
  qed
qed

lemma mem_malloc_state:
  assumes "heap_inv s" "pools_inv s"
  shows "\<exists>r s'. mem_malloc n (s :: 'a stack_scheme) = Some (r, s') \<and> heap_inv s' \<and> pools_inv s' \<and>
    memp_pools s' = memp_pools s \<and> pb s' = pb s \<and> octet s' = octet s \<and> diag s' = diag s \<and>
    pbuf_free_ooseq_pending s' = pbuf_free_ooseq_pending s \<and>
    (case r of None \<Rightarrow> mlive s' = mlive s
     | Some a \<Rightarrow> mlive s (Ram, a) = None \<and> (\<exists>len. n \<le> len \<and> mlive s' = (mlive s)((Ram, a) \<mapsto> len)))"
proof -
  obtain r s' where m: "mem_malloc n s = Some (r, s')" "heap_inv s'" "octet s' = octet s" "diag s' = diag s"
    and l: "case r of None \<Rightarrow> live s' = live s
     | Some a \<Rightarrow> live s a = None \<and> (\<exists>len. n \<le> len \<and> live s' = (live s)(a \<mapsto> len))"
    using mem_malloc_ok [OF assms(1), of n] by blast
  note f = heap_more_malloc [OF m(1)]
  note p = pools_frame [OF more_pools [OF f]]
  have "case r of None \<Rightarrow> mlive s' = mlive s
     | Some a \<Rightarrow> mlive s (Ram, a) = None \<and> (\<exists>len. n \<le> len \<and> mlive s' = (mlive s)((Ram, a) \<mapsto> len))"
  proof (cases r)
    case None
    with l p show ?thesis by (simp add: mlive_frame [of s' s])
  next
    case (Some a)
    with l obtain len where "live s a = None" "n \<le> len" "live s' = (live s)(a \<mapsto> len)" by auto
    moreover from this p have "mlive s' = (mlive s)((Ram, a) \<mapsto> len)"
      by (auto simp: mlive_def fun_eq_iff prod_eq_iff split: region.splits)
    ultimately show ?thesis using Some by (auto simp: mlive_def)
  qed
  with m p more_pools [OF f] more_stack [OF f] assms show ?thesis by auto
qed

lemma mem_trim_state:
  assumes "heap_inv s" "pools_inv s" "mlive s (Ram, a) = Some len" "k \<le> len"
  shows "\<exists>s' len'. mem_trim a k (s :: 'a stack_scheme) = Some (Some a, s') \<and> heap_inv s' \<and> pools_inv s' \<and>
    memp_pools s' = memp_pools s \<and> pb s' = pb s \<and> octet s' = octet s \<and>
    k \<le> len' \<and> mlive s' = (mlive s)((Ram, a) \<mapsto> len')"
proof -
  have l: "live s a = Some len" using assms(3) by (simp add: mlive_def)
  obtain s' len' where m: "mem_trim a k s = Some (Some a, s')" "heap_inv s'" "octet s' = octet s"
    "live s' = (live s)(a \<mapsto> len')" "k \<le> len'"
    using mem_trim_ok [OF assms(1) l assms(4)] by blast
  note f = heap_more_trim [OF m(1)]
  note p = pools_frame [OF more_pools [OF f]]
  have "mlive s' = (mlive s)((Ram, a) \<mapsto> len')"
    using m(4) p by (auto simp: mlive_def fun_eq_iff prod_eq_iff split: region.splits)
  with m p more_pools [OF f] more_stack [OF f] assms(2) show ?thesis by auto
qed

section \<open>Freeing\<close>

lemma pb_upd [simp]:
  "pb (upd_pbuf p f s) = (pb s)(p := map_option f (pb s p))"
  "octet (upd_pbuf p f s) = octet s" "diag (upd_pbuf p f s) = diag s"
  "memp_pools (upd_pbuf p f s) = memp_pools s"
  by (simp_all add: upd_pbuf_def)

lemma heap_pools_upd [simp]:
  "heap_inv (s\<lparr>pb := g\<rparr>) = heap_inv s" "pools_inv (s\<lparr>pb := g\<rparr>) = pools_inv s"
  "live (s\<lparr>pb := g\<rparr>) = live s" "pool_live (s\<lparr>pb := g\<rparr>) = pool_live s"
  using heap_inv_frame [of "s\<lparr>pb := g\<rparr>" s] pools_frame [of "s\<lparr>pb := g\<rparr>" s] by simp_all

lemma heap_pools_upd_pbuf [simp]:
  "heap_inv (upd_pbuf p f s) = heap_inv s" "pools_inv (upd_pbuf p f s) = pools_inv s"
  "mlive (s\<lparr>pb := g\<rparr>) = mlive s" "mlive (upd_pbuf p f s) = mlive s"
  by (simp_all add: upd_pbuf_def mlive_frame [of "s\<lparr>pb := g\<rparr>" s for g])

lemma mem_okD:
  assumes "mem_ok s"
  shows "heap_inv s" "pools_inv s"
    "d_size (memp_pools s MEMP_PBUF_POOL) = SIZEOF_STRUCT_PBUF + PBUF_POOL_BUFSIZE_ALIGNED"
    "pb s p = Some b \<Longrightarrow> home p (mlive s p) b"
  using assms by (auto simp: mem_ok_def)

lemma mem_okI:
  assumes "heap_inv s'" "pools_inv s'" "memp_pools s' = memp_pools s" "mem_ok s"
    "\<And>p b. pb s' p = Some b \<Longrightarrow> home p (mlive s' p) b"
  shows "mem_ok s'"
  using assms by (simp add: mem_ok_def)

text \<open>Changing fields that neither name the allocator nor locate the data keeps the invariant.\<close>

lemma mem_ok_upd_pbuf:
  assumes "mem_ok s" "\<And>b. pb s p = Some b \<Longrightarrow> home p (mlive s p) (f b)"
  shows "mem_ok (upd_pbuf p f s)"
  by (rule mem_okI [OF _ _ _ assms(1)]) (use assms mem_okD [OF assms(1)] in \<open>auto split: if_splits\<close>)

lemma home_same [simp]:
  "home p a (p_ref_update f b) = home p a b" "home p a (p_next_update g b) = home p a b"
  "home p a (p_tot_len_update h b) = home p a b"
  by (simp_all add: home_def custom_def src_ok_def pbuf_get_allocsrc_def contiguous_def inside_def)

lemma release_ok:
  assumes ok: "mem_ok s" and b: "pb s p = Some b0" "b = p_ref_update f b0" and nc: "\<not> custom b"
  shows "\<exists>s'. pbuf_release cf p b s = Some s' \<and> mem_ok s' \<and> pb s' = (pb s)(p := None) \<and>
    mlive s' = (mlive s)(p := None) \<and> octet s' = octet s \<and> diag s' = diag s"
proof -
  let ?d = "s\<lparr>pb := (pb s)(p := None)\<rparr>"
  note inv = mem_okD [OF ok]
  from inv(4) [OF b(1)] b(2) have "home p (mlive s p) b" by simp
  with nc obtain n where h: "src_ok (fst p) b" and n: "mlive ?d p = Some n" by (auto simp: home_def)
  have d: "heap_inv ?d" "pools_inv ?d" using inv by simp_all
  have keep: "mem_ok s'" if "heap_inv s'" "pools_inv s'" "memp_pools s' = memp_pools ?d"
      "mlive s' = (mlive ?d)(p := None)" "pb s' = pb ?d" for s' :: "'a stack_scheme"
    by (rule mem_okI [OF that(1,2) _ ok]) (use that inv(4) in \<open>auto split: if_splits\<close>)
  from h consider "fst p = Ram" "pbuf_get_allocsrc b = ALLOC_SRC_HEAP"
    | t where "fst p = Pool t" "t = MEMP_PBUF \<and> pbuf_get_allocsrc b = ALLOC_SRC_MEMP_PBUF \<or>
        t = MEMP_PBUF_POOL \<and> pbuf_get_allocsrc b = ALLOC_SRC_MEMP_PBUF_POOL"
    by (auto simp: src_ok_def)
  then show ?thesis
  proof cases
    case 1
    then have "pbuf_release cf p b s = Some (mem_free (Some (snd p)) ?d)"
      using nc by (simp add: pbuf_release_def custom_def Let_def layout_simps)
    with mem_free_state [OF d n 1(1)] keep show ?thesis by auto
  next
    case 2
    then have "pbuf_release cf p b s = Some (memp_free t (Some p) ?d)"
      using nc by (auto simp add: pbuf_release_def custom_def Let_def layout_simps)
    with memp_free_state [OF d n 2(1)] keep show ?thesis by auto
  qed
qed

text \<open>A chain of allocated pbufs, with no condition on the lengths (a packet queue is one too).\<close>

fun linked :: "'a stack_scheme \<Rightarrow> ptr option \<Rightarrow> ptr list \<Rightarrow> bool" where
  "linked s p [] \<longleftrightarrow> p = None"
| "linked s p (x # xs) \<longleftrightarrow> p = Some x \<and> (\<exists>b. pb s x = Some b \<and> linked s (p_next b) xs)"

definition refs :: "'a stack_scheme \<Rightarrow> ptr \<Rightarrow> nat" where
  "refs s x = (case pb s x of Some b \<Rightarrow> unat (p_ref b) | None \<Rightarrow> 0)"

lemma pkt_linked: "pkt s p xs \<Longrightarrow> linked s p xs"
  by (induction xs arbitrary: p) auto

lemma linked_unique: "linked s p xs \<Longrightarrow> linked s p ys \<Longrightarrow> xs = ys"
proof (induction xs arbitrary: p ys)
  case Nil
  then show ?case by (cases ys) auto
next
  case (Cons x xs)
  then show ?case by (cases ys) auto
qed

lemma linked_suffix: "linked s p (as @ x # bs) \<Longrightarrow> linked s (Some x) (x # bs)"
  by (induction as arbitrary: p) auto

lemma linked_distinct: "linked s p xs \<Longrightarrow> distinct xs"
proof (induction xs arbitrary: p)
  case (Cons x xs)
  then obtain b where b: "p = Some x" "pb s x = Some b" "linked s (p_next b) xs" by auto
  have "x \<notin> set xs"
  proof
    assume "x \<in> set xs"
    then obtain as bs where e: "xs = as @ x # bs" by (rule in_set_split)
    from linked_unique [OF Cons.prems [unfolded b(1)] linked_suffix [OF b(3) [unfolded e]]] e show False
      by simp
  qed
  with Cons.IH [OF b(3)] show ?case by simp
qed simp

lemma linked_cong: "(\<And>x. x \<in> set xs \<Longrightarrow> pb s' x = pb s x) \<Longrightarrow> linked s' p xs = linked s p xs"
  by (induction xs arbitrary: p) auto

definition drop_ref :: "ptr list \<Rightarrow> (ptr \<Rightarrow> pbuf option) \<Rightarrow> ptr \<Rightarrow> pbuf option" where
  "drop_ref zs g = (case zs of [] \<Rightarrow> g | z # _ \<Rightarrow> g(z := map_option (p_ref_update (\<lambda>r. r - 1)) (g z)))"

lemma restrict_map_UNIV [simp]: "m |` UNIV = m"
  by (simp add: restrict_map_def)

lemma free_loop_ok:
  assumes "mem_ok s" "linked s p xs" "\<forall>x \<in> set xs. 0 < refs s x"
    "\<forall>x \<in> set (takeWhile (\<lambda>x. refs s x = 1) xs). \<forall>b. pb s x = Some b \<longrightarrow> \<not> custom b"
  defines "ys \<equiv> takeWhile (\<lambda>x. refs s x = 1) xs" and "zs \<equiv> dropWhile (\<lambda>x. refs s x = 1) xs"
  shows "\<exists>s'. pbuf_free_loop cf p c s = Some (c + of_nat (length ys), s') \<and> mem_ok s' \<and>
    pb s' = drop_ref zs ((pb s) |` (- set ys)) \<and> mlive s' = (mlive s) |` (- set ys) \<and>
    octet s' = octet s \<and> diag s' = diag s"
  using assms(1-4) unfolding ys_def zs_def
proof (induction xs arbitrary: p c s)
  case Nil
  then show ?case by (subst pbuf_free_loop.simps) (simp add: drop_ref_def)
next
  case (Cons x xs)
  then obtain b where b: "p = Some x" "pb s x = Some b" "linked s (p_next b) xs" by auto
  have r: "refs s x = unat (p_ref b)" using b(2) by (simp add: refs_def)
  with Cons.prems(3) have pos: "p_ref b > 0" by (auto simp: word_less_nat_alt)
  let ?f = "p_ref_update (\<lambda>_. p_ref b - 1)"
  let ?u = "upd_pbuf x ?f s"
  have oku: "mem_ok ?u" by (rule mem_ok_upd_pbuf [OF Cons.prems(1)]) (simp add: mem_okD(4) [OF Cons.prems(1)])
  have one: "p_ref b - 1 = 0 \<longleftrightarrow> refs s x = 1" by (simp add: r word_unat_eq_iff [of "p_ref b" 1])
  show ?case
  proof (cases "refs s x = 1")
    case False
    then show ?thesis using b pos one oku
      by (subst pbuf_free_loop.simps) (auto simp: drop_ref_def fun_eq_iff)
  next
    case True
    have nc: "\<not> custom b" using Cons.prems(4) True b(2) by simp
    then obtain s1 where s1: "pbuf_release cf x b ?u = Some s1" "mem_ok s1" "pb s1 = (pb s)(x := None)"
      "mlive s1 = (mlive s)(x := None)" "octet s1 = octet s" "diag s1 = diag s"
      using release_ok [OF oku, of x "?f b" b "\<lambda>_. p_ref b" cf] b(2) by auto
    have d: "x \<notin> set xs" using linked_distinct [OF Cons.prems(2)] by simp
    have e: "pb s1 y = pb s y" "refs s1 y = refs s y" if "y \<in> set xs" for y
      using d that s1(3) by (auto simp: refs_def)
    have tw: "takeWhile (\<lambda>x. refs s1 x = 1) xs = takeWhile (\<lambda>x. refs s x = 1) xs"
      "dropWhile (\<lambda>x. refs s1 x = 1) xs = dropWhile (\<lambda>x. refs s x = 1) xs"
      using e by (auto intro: takeWhile_cong dropWhile_cong)
    have l1: "linked s1 (p_next b) xs" using b(3) e linked_cong [of xs s1 s] by simp
    have p1: "\<forall>x \<in> set xs. 0 < refs s1 x" using Cons.prems(3) e by simp
    have c1: "\<forall>x \<in> set (takeWhile (\<lambda>x. refs s1 x = 1) xs). \<forall>b. pb s1 x = Some b \<longrightarrow> \<not> custom b"
      unfolding tw
    proof (intro ballI allI impI)
      fix y c assume y: "y \<in> set (takeWhile (\<lambda>x. refs s x = 1) xs)" "pb s1 y = Some c"
      with e(1) set_takeWhileD [OF y(1)] have "pb s y = Some c" by simp
      with Cons.prems(4) True y(1) show "\<not> custom c" by simp
    qed
    obtain s' where s': "pbuf_free_loop cf (p_next b) (c + 1) s1 =
        Some (c + 1 + of_nat (length (takeWhile (\<lambda>x. refs s x = 1) xs)), s')" "mem_ok s'"
      "pb s' = drop_ref (dropWhile (\<lambda>x. refs s x = 1) xs) ((pb s1) |` (- set (takeWhile (\<lambda>x. refs s x = 1) xs)))"
      "mlive s' = (mlive s1) |` (- set (takeWhile (\<lambda>x. refs s x = 1) xs))"
      "octet s' = octet s1" "diag s' = diag s1"
      using Cons.IH [OF s1(2) l1 p1 c1, of "c + 1"] unfolding tw by auto
    have m: "(g(x := None)) |` (- A) = g |` (- insert x A)" for g :: "ptr \<Rightarrow> 'b option" and A
      by (auto simp: restrict_map_def fun_eq_iff)
    have "pbuf_free_loop cf p c s = pbuf_free_loop cf (p_next b) (c + 1) s1"
      using b pos one True s1(1) by (subst pbuf_free_loop.simps) simp
    with s'(1,2,5,6) s'(3,4) [unfolded s1(3,4) m] s1(5,6) True show ?thesis by (simp add: add.assoc)
  qed
qed

lemma pool_consts [layout_simps]: "PBUF_POOL_BUFSIZE_ALIGNED = 592" "SIZEOF_STRUCT_PBUF = 16"
  by (simp_all add: PBUF_POOL_BUFSIZE_ALIGNED_def SIZEOF_STRUCT_PBUF_def)

section \<open>The state after initialisation\<close>

text \<open>\<^verbatim>\<open>lwip_init\<close> sets up the heap and then the pools; no pbuf exists yet.\<close>

definition stack_boot :: "(memp_t \<Rightarrow> memp_desc) \<Rightarrow> stack" where
  "stack_boot D = memp_init (mem_init (stack_zero D))"

lemma memp_init_loop_heap:
  fixes s :: "'a stack_scheme"
  shows "ram (memp_init_loop n t b s) = ram s \<and> lfree (memp_init_loop n t b s) = lfree s \<and>
   ram_end (memp_init_loop n t b s) = ram_end s \<and> mst_used (memp_init_loop n t b s) = mst_used s \<and>
   pb (memp_init_loop n t b s) = pb s \<and> diag (memp_init_loop n t b s) = diag s"
  by (induction n arbitrary: b s) (simp_all add: Let_def)

lemma memp_init_heap:
  fixes s :: "'a stack_scheme"
  shows "ram (memp_init s) = ram s" "lfree (memp_init s) = lfree s" "ram_end (memp_init s) = ram_end s"
    "mst_used (memp_init s) = mst_used s" "pb (memp_init s) = pb s" "diag (memp_init s) = diag s"
proof -
  have "ram (fold memp_init_pool ts s) = ram s \<and> lfree (fold memp_init_pool ts s) = lfree s \<and>
   ram_end (fold memp_init_pool ts s) = ram_end s \<and> mst_used (fold memp_init_pool ts s) = mst_used s \<and>
   pb (fold memp_init_pool ts s) = pb s \<and> diag (fold memp_init_pool ts s) = diag s" for ts
    by (induction ts arbitrary: s) (simp_all add: memp_init_pool_def Let_def memp_init_loop_heap)
  then show "ram (memp_init s) = ram s" "lfree (memp_init s) = lfree s" "ram_end (memp_init s) = ram_end s"
    "mst_used (memp_init s) = mst_used s" "pb (memp_init s) = pb s" "diag (memp_init s) = diag s"
    by (simp_all add: memp_init_def)
qed

lemma stack_zero_sel [simp]:
  "memp_pools (stack_zero D) = D" "mps_used (stack_zero D) t = 0" "mst_used (stack_zero D) = 0"
  "pb (stack_zero D) = Map.empty" "diag (stack_zero D) = []"
  by (simp_all add: stack_zero_def pools_zero_def heap_zero_def heap.defs pools.defs stack.defs)

lemma mem_init_pools [simp]:
  "memp_pools (mem_init s) = memp_pools s" "mps_used (mem_init s) = mps_used s"
  "pb (mem_init t) = pb t" "diag (mem_init t) = diag t"
  by (simp_all add: mem_init_def Let_def)

lemma stack_boot_ok:
  assumes "\<forall>t. 0 < d_size (D t) \<and> d_num (D t) < 65536"
    "d_size (D MEMP_PBUF_POOL) = SIZEOF_STRUCT_PBUF + PBUF_POOL_BUFSIZE_ALIGNED"
  shows "mem_ok (stack_boot D)" "mlive (stack_boot D) = Map.empty" "pb (stack_boot D) = Map.empty"
    "length (free_list (stack_boot D) t) = d_num (D t)"
proof -
  let ?s = "mem_init (stack_zero D)"
  have h: "heap_shape ?s [0]" by (rule mem_init_shape) simp
  have l: "live ?s = Map.empty"
    unfolding live_shape [OF h] by (rule ext) (simp add: live_in_def mem_init_def Let_def layout_simps)
  have z: "\<forall>t. 0 < d_size (memp_pools ?s t) \<and> d_num (memp_pools ?s t) < 65536 \<and> mps_used ?s t = 0"
    using assms by simp
  note p = memp_init_inv [OF z] memp_init_ok [OF z]
  note f = heap_inv_frame [OF memp_init_heap(1-4), of ?s]
  show m: "mlive (stack_boot D) = Map.empty"
    using p f l by (simp add: stack_boot_def mlive_def fun_eq_iff split: region.split)
  show pe: "pb (stack_boot D) = Map.empty" by (simp add: stack_boot_def memp_init_heap)
  show "mem_ok (stack_boot D)"
    using p f heap_invI [OF h] assms(2) pe by (simp add: mem_ok_def stack_boot_def)
  have full: "pool_full (stack_boot D) t" "memp_pools (stack_boot D) = D"
    using p(3) p(4) [of t] by (simp_all add: stack_boot_def)
  then have "distinct (free_list (stack_boot D) t)" "set (free_list (stack_boot D) t) = elems (stack_boot D) t"
    by (simp_all add: pool_full_def pool_ok_def)
  then show "length (free_list (stack_boot D) t) = d_num (D t)"
    using elems_card [of "stack_boot D" t] assms(1) full(2) by (metis distinct_card)
qed

text \<open>Two elements of the size of a pool buffer in each pool, for the witnesses.\<close>

definition desc_two :: "memp_t \<Rightarrow> memp_desc" where
  "desc_two t = \<lparr>d_num = 2, d_size = 608\<rparr>"

lemma boot_two:
  "mem_ok (stack_boot desc_two)" "mlive (stack_boot desc_two) = Map.empty" "pb (stack_boot desc_two) = Map.empty"
  "length (free_list (stack_boot desc_two) t) = 2" "diag (stack_boot desc_two) = []"
  using stack_boot_ok [of desc_two] by (simp_all add: desc_two_def layout_simps stack_boot_def memp_init_heap)

end
