(* ===== verification/Pbuf_Alloc.thy ===== *)
theory Pbuf_Alloc
  imports Pbuf_Mem
begin

text \<open>
  Allocation of packet buffers: a request from the pool builds a chain, a request from the heap one
  contiguous pbuf. On success the packet is well-formed and stands in memory nothing else uses;
  on failure everything taken so far is given back.
\<close>

section \<open>Allocation\<close>

lemma free_list_upd [simp]:
  "free_list (s\<lparr>pb := g\<rparr>) t = free_list s t" "free_list (upd_pbuf p f s) t = free_list s t"
  by (simp_all add: free_list_def upd_pbuf_def)

lemma pool_is_empty_simps [simp]:
  "mem_ok (pbuf_pool_is_empty s) = mem_ok s" "pb (pbuf_pool_is_empty s) = pb s"
  "mlive (pbuf_pool_is_empty s) = mlive s" "octet (pbuf_pool_is_empty s) = octet s"
  "diag (pbuf_pool_is_empty s) = diag s"
proof -
  let ?s = "pbuf_pool_is_empty s"
  have l: "heap_inv ?s = heap_inv s" "live ?s = live s" "pools_inv ?s = pools_inv s" "pool_live ?s = pool_live s"
    using heap_inv_frame [of ?s s] pools_frame [of ?s s] by (simp_all add: pbuf_pool_is_empty_def)
  then show m: "mlive ?s = mlive s" by (simp add: mlive_frame [of ?s s])
  show "mem_ok ?s = mem_ok s" using l m by (simp add: mem_ok_def pbuf_pool_is_empty_def)
qed (simp_all add: pbuf_pool_is_empty_def)

text \<open>
  A chain under construction: the \<^verbatim>\<open>tot_len\<close> fields count \<open>r\<close> octets still to come, and every
  pbuf has exactly one reference.
\<close>

fun part :: "'a stack_scheme \<Rightarrow> nat \<Rightarrow> ptr option \<Rightarrow> ptr list \<Rightarrow> bool" where
  "part s r p [] \<longleftrightarrow> p = None"
| "part s r p (x # xs) \<longleftrightarrow> p = Some x \<and> (\<exists>b. pb s x = Some b \<and>
     unat (p_tot_len b) = unat (p_len b) + pkt_len s xs + r \<and> p_payload b \<noteq> None \<and>
     p_ref b = 1 \<and> \<not> custom b \<and> part s r (p_next b) xs)"

lemma part_linked: "part s r p xs \<Longrightarrow> linked s p xs"
  by (induction xs arbitrary: p) auto

lemma part_pkt: "part s 0 p xs \<Longrightarrow> pkt s p xs"
  by (induction xs arbitrary: p) auto

lemma part_refs: "part s r p xs \<Longrightarrow> x \<in> set xs \<Longrightarrow> refs s x = 1 \<and> (\<forall>b. pb s x = Some b \<longrightarrow> \<not> custom b)"
  by (induction xs arbitrary: p) (auto simp: refs_def)

lemma part_cong:
  assumes "\<And>x. x \<in> set xs \<Longrightarrow> pb s' x = pb s x"
  shows "part s' r p xs = part s r p xs"
  using assms
proof (induction xs arbitrary: p)
  case (Cons x xs)
  then show ?case using pkt_cong(2) [of xs s' s] by auto
qed simp

lemma part_append:
  assumes "part s r p xs" "xs \<noteq> []" "q \<notin> set xs" "pb s q = Some b"
    "unat (p_tot_len b) = r" "unat (p_len b) + r' = r" "p_payload b \<noteq> None" "p_ref b = 1" "\<not> custom b"
    "p_next b = None"
  shows "part (upd_pbuf (last xs) (p_next_update (\<lambda>_. Some q)) s) r' p (xs @ [q])"
  using assms(1-3)
proof (induction xs arbitrary: p)
  case (Cons x xs)
  let ?s = "upd_pbuf (last (x # xs)) (p_next_update (\<lambda>_. Some q)) s"
  have len: "pkt_len ?s (xs @ [q]) = pkt_len s xs + unat (p_len b)"
    using assms(4) by (auto simp: pkt_len_def plen_def intro!: sum_list_map_cong split: option.split)
  from Cons.prems obtain c where c: "p = Some x" "pb s x = Some c"
    "unat (p_tot_len c) = unat (p_len c) + pkt_len s xs + r" "p_payload c \<noteq> None" "p_ref c = 1"
    "\<not> custom c" "part s r (p_next c) xs" by auto
  have cu: "custom (p_next_update f d) = custom d" for f d by (simp add: custom_def)
  show ?case
  proof (cases "xs = []")
    case True
    then show ?thesis using c assms(4-) Cons.prems(3) by (auto simp: plen_def cu)
  next
    case False
    have x: "x \<noteq> last xs" using linked_distinct [OF part_linked [OF Cons.prems(1)]] False by auto
    from Cons.IH [OF c(7) False] Cons.prems(3) False have "part ?s r' (p_next c) (xs @ [q])" by simp
    with c len x False assms(6) show ?thesis by simp
  qed
qed simp

lemma free_all:
  assumes "mem_ok s" "part s r p xs" "p \<noteq> None"
  shows "\<exists>n s'. pbuf_free cf p s = Some (n, s') \<and> mem_ok s' \<and> pb s' = (pb s) |` (- set xs) \<and>
    mlive s' = (mlive s) |` (- set xs) \<and> octet s' = octet s \<and> diag s' = diag s"
proof -
  have tw: "takeWhile (\<lambda>x. refs s x = 1) xs = xs" "dropWhile (\<lambda>x. refs s x = 1) xs = []"
    using part_refs [OF assms(2)] by (auto simp: takeWhile_eq_all_conv)
  show ?thesis
    using free_loop_ok [OF assms(1) part_linked [OF assms(2)], of cf 0] part_refs [OF assms(2)] assms(3)
    unfolding tw by (auto simp: pbuf_free_def drop_ref_def)
qed

lemma mem_ok_fields:
  assumes "mem_ok s"
  shows "mem_ok (upd_pbuf p (p_next_update f) s)" "mem_ok (upd_pbuf p (p_ref_update g) s)"
    "mem_ok (upd_pbuf p (p_tot_len_update h) s)"
  by (rule mem_ok_upd_pbuf [OF assms], simp add: mem_okD(4) [OF assms])+

lemma home_pool:
  assumes "fst q = Pool MEMP_PBUF_POOL" "off + unat len \<le> 592"
  shows "home q (Some (SIZEOF_STRUCT_PBUF + PBUF_POOL_BUFSIZE_ALIGNED))
    \<lparr>p_next = nx, p_payload = Some (ptr_add q (int (SIZEOF_STRUCT_PBUF + off))), p_tot_len = tot, p_len = len,
      p_type = type_code PBUF_POOL, p_flags = 0, p_ref = r, p_if_idx = i\<rparr>"
  using assms by (simp add: home_def custom_def src_ok_def pbuf_get_allocsrc_def contiguous_def inside_def
      pool_consts layout_simps)

lemma qlen_le:
  assumes "unat offset \<le> 592"
  shows "unat (min rem_len (of_nat (PBUF_POOL_BUFSIZE_ALIGNED - LWIP_MEM_ALIGN_SIZE (unat offset))) :: u16)
    = min (unat rem_len) (592 - unat offset)"
proof -
  have "unat (of_nat (592 - unat offset) :: u16) = 592 - unat offset" by (rule unat_of_nat16) simp
  then show ?thesis
    by (simp only: min_def word_le_nat_alt pool_consts LWIP_MEM_ALIGN_SIZE_def MEM_ALIGNMENT_def split: if_split) simp
qed

text \<open>
  One round of the loop: the fresh element joins the chain. The state the source reaches after
  initialising the pbuf and linking it behind the last one is \<open>grown\<close>.
\<close>

definition grown :: "ptr \<Rightarrow> u16 \<Rightarrow> u16 \<Rightarrow> u16 \<Rightarrow> ptr list \<Rightarrow> 'a stack_scheme \<Rightarrow> 'a stack_scheme" where
  "grown q offset rem_len qlen xs s =
     (let s = pbuf_init_alloced_pbuf q (Some (ptr_add q (int (SIZEOF_STRUCT_PBUF + unat offset))))
                rem_len qlen PBUF_POOL 0 s
      in if xs = [] then s else upd_pbuf (last xs) (p_next_update (\<lambda>_. Some q)) s)"

lemma grown_ok:
  assumes ok: "mem_ok s" and m: "memp_malloc MEMP_PBUF_POOL s = (Some q, s1)" and off: "unat offset < 592"
    and pt: "part s (unat rem_len) p xs" and ql: "unat qlen = min (unat rem_len) (592 - unat offset)"
  defines "s2 \<equiv> grown q offset rem_len qlen xs s1"
  shows "mem_ok s2" "part s2 (unat rem_len - unat qlen) (if p = None then Some q else p) (xs @ [q])"
    "pkt_len s2 (xs @ [q]) = pkt_len s xs + unat qlen" "q \<notin> set xs" "mlive s q = None"
    "mlive s2 = (mlive s)(q \<mapsto> 608)" "\<forall>y. y \<notin> set xs \<longrightarrow> y \<noteq> q \<longrightarrow> pb s2 y = pb s y"
    "octet s2 = octet s" "diag s2 = diag s"
    "length (free_list s MEMP_PBUF_POOL) = Suc (length (free_list s2 MEMP_PBUF_POOL))" "pb s q = None"
proof -
  note inv = mem_okD [OF ok]
  note f = memp_malloc_fields [OF m] and st = memp_malloc_state [OF inv(1,2) m]
  note fl = memp_malloc_ok [OF inv(2) m]
  let ?b = "\<lparr>p_next = None, p_payload = Some (ptr_add q (int (SIZEOF_STRUCT_PBUF + unat offset))),
    p_tot_len = rem_len, p_len = qlen, p_type = type_code PBUF_POOL, p_flags = 0, p_ref = 1, p_if_idx = 0\<rparr>"
  let ?i = "s1\<lparr>pb := (pb s)(q \<mapsto> ?b)\<rparr>"
  have s2: "s2 = (if xs = [] then ?i else upd_pbuf (last xs) (p_next_update (\<lambda>_. Some q)) ?i)"
    using f(7) by (simp add: s2_def grown_def pbuf_init_alloced_pbuf_def Let_def)
  from st(4) inv(3) have q: "fst q = Pool MEMP_PBUF_POOL" "mlive s q = None" "mlive s1 = (mlive s)(q \<mapsto> 608)"
    by (simp_all add: pool_consts)
  then show pq: "pb s q = None" using inv(4) [of q] by (cases "pb s q") (auto simp: home_def split: if_splits)
  show qx: "q \<notin> set xs"
    using pt pq by (induction xs arbitrary: p) auto
  show "mlive s q = None" by (fact q(2))
  show ml: "mlive s2 = (mlive s)(q \<mapsto> 608)" using q(3) by (simp add: s2)
  show "octet s2 = octet s" "diag s2 = diag s" using f by (simp_all add: s2)
  show "\<forall>y. y \<notin> set xs \<longrightarrow> y \<noteq> q \<longrightarrow> pb s2 y = pb s y" by (auto simp: s2)
  show "length (free_list s MEMP_PBUF_POOL) = Suc (length (free_list s2 MEMP_PBUF_POOL))"
    using fl by (simp add: s2)
  have hq: "home q (Some 608) ?b"
    using home_pool [OF q(1), of "unat offset" qlen] off ql by (simp add: pool_consts)
  have oki: "mem_ok ?i"
  proof (rule mem_okI [OF _ _ _ ok])
    fix y b assume "pb ?i y = Some b"
    with hq q(2,3) inv(4) [of y b] show "home y (mlive ?i y) b" by (auto split: if_splits)
  qed (use st in simp_all)
  show "mem_ok s2"
    unfolding s2 by (simp only: oki mem_ok_fields(1) [OF oki] split: if_split) simp
  have "pb ?i x = pb s x" if "x \<in> set xs" for x using qx that by auto
  then have pti: "part ?i (unat rem_len) p xs" using pt part_cong [of xs ?i s] by blast
  show "part s2 (unat rem_len - unat qlen) (if p = None then Some q else p) (xs @ [q])"
  proof (cases "xs = []")
    case True
    with pt ql show ?thesis by (simp add: s2 custom_def)
  next
    case False
    then have "p \<noteq> None" using pt by (cases xs) auto
    with part_append [OF pti False qx, of ?b "unat rem_len - unat qlen"] ql False show ?thesis
      by (auto simp: s2 custom_def)
  qed
  show "pkt_len s2 (xs @ [q]) = pkt_len s xs + unat qlen"
    using qx by (auto simp: s2 pkt_len_def plen_def intro!: sum_list_map_cong split: option.split)
qed

text \<open>
  What the loop promises when it still needs \<open>rm\<close> octets and has built the chain \<open>xs\<close>: it
  fails exactly when the free elements of the pool cannot hold what is missing, and then
  everything it took is back in the pool; otherwise it has extended the chain by fresh pbufs.
\<close>

definition pool_result ::
  "nat \<Rightarrow> nat \<Rightarrow> ptr list \<Rightarrow> 'a stack_scheme \<Rightarrow> ptr option \<Rightarrow> 'a stack_scheme \<Rightarrow> bool" where
  "pool_result off rm xs s r s' \<longleftrightarrow> mem_ok s' \<and> octet s' = octet s \<and> diag s' = diag s \<and>
    (r = None \<longleftrightarrow> free_list s MEMP_PBUF_POOL = [] \<or> length (free_list s MEMP_PBUF_POOL) * 592 < off + rm) \<and>
    (r = None \<longrightarrow> pb s' = (pb s) |` (- set xs) \<and> mlive s' = (mlive s) |` (- set xs)) \<and>
    (r \<noteq> None \<longrightarrow> (\<exists>ys. part s' 0 r (xs @ ys) \<and> pkt_len s' (xs @ ys) = pkt_len s xs + rm \<and>
       set ys \<inter> dom (mlive s) = {} \<and> mlive s' = (\<lambda>y. if y \<in> set ys then Some 608 else mlive s y) \<and>
       (\<forall>y. y \<notin> set xs \<longrightarrow> y \<notin> set ys \<longrightarrow> pb s' y = pb s y)))"

lemma pool_loop_empty:
  assumes ok: "mem_ok s" and pt: "part s r p xs" and m: "memp_malloc MEMP_PBUF_POOL s = (None, s1)"
  shows "\<exists>s'. pbuf_alloc_pool_loop cf offset rem_len p lst s = Some (None, s') \<and>
    pool_result (unat offset) (unat rem_len) xs s None s'"
proof -
  note inv = mem_okD [OF ok]
  note f = memp_malloc_fields [OF m] and st = memp_malloc_state [OF inv(1,2) m]
  note fl = memp_malloc_ok [OF inv(2) m]
  have xp: "p = None \<longleftrightarrow> xs = []" using pt by (cases xs) auto
  let ?s = "pbuf_pool_is_empty s1"
  have ml: "mlive s1 = mlive s" using st(4) by simp
  have ok1: "mem_ok ?s" using st f inv ml by (auto intro!: mem_okI [of s1 s] ok)
  have part1: "part ?s r p xs" using pt f(7) part_cong [of xs ?s s] by simp
  show ?thesis
  proof (cases "p = None")
    case True
    with m xp ok1 f ml fl show ?thesis by (subst pbuf_alloc_pool_loop.simps) (simp add: pool_result_def)
  next
    case False
    with free_all [OF ok1 part1, of cf] obtain n s' where fr: "pbuf_free cf p ?s = Some (n, s')" "mem_ok s'"
      "pb s' = (pb s) |` (- set xs)" "mlive s' = (mlive s) |` (- set xs)" "octet s' = octet s" "diag s' = diag s"
      using f ml by auto
    with False m fl show ?thesis by (subst pbuf_alloc_pool_loop.simps) (simp add: pool_result_def)
  qed
qed

lemma pool_result_step:
  assumes g: "mlive g = (mlive s)(x \<mapsto> 608)" "mlive s x = None" "pb s x = None" "x \<notin> set xs"
    "\<forall>y. y \<notin> set xs \<longrightarrow> y \<noteq> x \<longrightarrow> pb g y = pb s y" "octet g = octet s" "diag g = diag s"
    "length (free_list s MEMP_PBUF_POOL) = Suc (length (free_list g MEMP_PBUF_POOL))"
    "pkt_len g (xs @ [x]) = pkt_len s xs + ql" and ql: "ql = 592 - off" "off \<le> 592" "ql < rm"
    and r: "pool_result 0 (rm - ql) (xs @ [x]) g r s'"
  shows "pool_result off rm xs s r s'"
  unfolding pool_result_def
proof (intro conjI)
  show "mem_ok s'" "octet s' = octet s" "diag s' = diag s" using r g by (simp_all add: pool_result_def)
  have "r = None \<longleftrightarrow> length (free_list g MEMP_PBUF_POOL) = 0 \<or> length (free_list g MEMP_PBUF_POOL) * 592 < rm - ql"
    using r by (auto simp: pool_result_def)
  then have "r = None \<longleftrightarrow> length (free_list s MEMP_PBUF_POOL) = 0 \<or> length (free_list s MEMP_PBUF_POOL) * 592 < off + rm"
    unfolding g(8) using ql by auto
  then show "r = None \<longleftrightarrow> free_list s MEMP_PBUF_POOL = [] \<or> length (free_list s MEMP_PBUF_POOL) * 592 < off + rm"
    by simp
  show "r = None \<longrightarrow> pb s' = (pb s) |` (- set xs) \<and> mlive s' = (mlive s) |` (- set xs)"
    using r g(1-5) by (auto simp: pool_result_def restrict_map_def fun_eq_iff)
  show "r \<noteq> None \<longrightarrow> (\<exists>ys. part s' 0 r (xs @ ys) \<and> pkt_len s' (xs @ ys) = pkt_len s xs + rm \<and>
       set ys \<inter> dom (mlive s) = {} \<and> mlive s' = (\<lambda>y. if y \<in> set ys then Some 608 else mlive s y) \<and>
       (\<forall>y. y \<notin> set xs \<longrightarrow> y \<notin> set ys \<longrightarrow> pb s' y = pb s y))"
  proof
    assume "r \<noteq> None"
    with r obtain ys where ys: "part s' 0 r (xs @ x # ys)"
      "pkt_len s' (xs @ x # ys) = pkt_len g (xs @ [x]) + (rm - ql)"
      "set ys \<inter> dom (mlive g) = {}" "mlive s' = (\<lambda>y. if y \<in> set ys then Some 608 else mlive g y)"
      "\<forall>y. y \<notin> set (xs @ [x]) \<longrightarrow> y \<notin> set ys \<longrightarrow> pb s' y = pb g y" by (auto simp: pool_result_def)
    have "pkt_len s' (xs @ x # ys) = pkt_len s xs + rm" using ys(2) g(9) ql(3) by linarith
    with ys g(1-5) show "\<exists>ys. part s' 0 r (xs @ ys) \<and> pkt_len s' (xs @ ys) = pkt_len s xs + rm \<and>
         set ys \<inter> dom (mlive s) = {} \<and> mlive s' = (\<lambda>y. if y \<in> set ys then Some 608 else mlive s y) \<and>
         (\<forall>y. y \<notin> set xs \<longrightarrow> y \<notin> set ys \<longrightarrow> pb s' y = pb s y)"
      by (intro exI [of _ "x # ys"]) (auto simp: fun_eq_iff dom_def)
  qed
qed

lemma pool_loop_ok:
  assumes "mem_ok s" "part s (unat rem_len) p xs" "lst = (if xs = [] then None else Some (last xs))"
    "unat offset < 592"
  shows "\<exists>r s'. pbuf_alloc_pool_loop cf offset rem_len p lst s = Some (r, s') \<and>
    pool_result (unat offset) (unat rem_len) xs s r s'"
  using assms
proof (induction "unat rem_len" arbitrary: rem_len p xs lst s offset rule: less_induct)
  case less
  obtain q s1 where m: "memp_malloc MEMP_PBUF_POOL s = (q, s1)" by (cases "memp_malloc MEMP_PBUF_POOL s")
  have xp: "p = None \<longleftrightarrow> xs = []" using less.prems(2) by (cases xs) auto
  show ?case
  proof (cases q)
    case None
    with pool_loop_empty [OF less.prems(1,2), of s1] m show ?thesis by blast
  next
    case (Some x)
    define ql where "ql = min rem_len (of_nat (PBUF_POOL_BUFSIZE_ALIGNED - LWIP_MEM_ALIGN_SIZE (unat offset)))"
    have ql: "unat ql = min (unat rem_len) (592 - unat offset)"
      unfolding ql_def using less.prems(4) by (intro qlen_le) simp
    define g where "g = grown x offset rem_len ql xs s1"
    let ?p = "if p = None then Some x else p"
    note g = grown_ok [OF less.prems(1) m [unfolded Some] less.prems(4) less.prems(2) ql, folded g_def]
    have rl: "unat (rem_len - ql) = unat rem_len - unat ql"
      by (rule unat_sub) (simp add: word_le_nat_alt ql)
    have step: "pbuf_alloc_pool_loop cf offset rem_len p lst s =
      (if rem_len - ql > 0 then pbuf_alloc_pool_loop cf 0 (rem_len - ql) ?p (Some x) g else Some (?p, g))"
      using m Some xp less.prems(3,4)
      by (subst pbuf_alloc_pool_loop.simps) (simp add: g_def ql_def grown_def Let_def pool_consts)
    show ?thesis
    proof (cases "rem_len - ql > 0")
      case False
      then have z: "unat rem_len = unat ql" using rl ql by (simp add: word_less_nat_alt)
      then have "unat offset + unat rem_len \<le> 592" "part g 0 ?p (xs @ [x])" using ql less.prems(4) g(2) by simp_all
      with False step z g less.prems(4) show ?thesis
        by (intro exI [of _ ?p] exI [of _ g]) (auto intro!: exI [of _ "[x]"] simp: fun_eq_iff pool_result_def)
    next
      case True
      then have pos: "0 < unat (rem_len - ql)" by (simp add: word_less_nat_alt)
      have lt: "unat (rem_len - ql) < unat rem_len" "unat ql < unat rem_len" using pos rl ql less.prems(4) by simp_all
      have z: "unat ql = 592 - unat offset" "unat offset \<le> 592" using pos rl ql less.prems(4) by simp_all
      have pt: "part g (unat (rem_len - ql)) ?p (xs @ [x])" using g(2) rl by simp
      obtain r s' where ih: "pbuf_alloc_pool_loop cf 0 (rem_len - ql) ?p (Some x) g = Some (r, s')"
        "pool_result 0 (unat rem_len - unat ql) (xs @ [x]) g r s'"
        using less.hyps [OF lt(1) g(1) pt, of "Some x" 0] rl by auto
      from pool_result_step [OF g(6,5,11,4,7-10,3) z lt(2) ih(2)] ih(1) step True show ?thesis by simp
    qed
  qed
qed

text \<open>
  C13. A request for a packet of pool buffers returns; it fails exactly when the free buffers cannot
  hold the data and its headers, and then no buffer is lost; when it succeeds the packet is a
  well-formed chain of the requested length, in memory nothing else uses, with one reference on
  each pbuf, and every other pbuf is untouched.
\<close>

theorem pbuf_alloc_pool:
  assumes "mem_ok s"
  shows "\<exists>r s'. pbuf_alloc cf l n PBUF_POOL s = Some (r, s') \<and> mem_ok s' \<and> octet s' = octet s \<and> diag s' = diag s \<and>
    (r = None \<longleftrightarrow> free_list s MEMP_PBUF_POOL = [] \<or>
       length (free_list s MEMP_PBUF_POOL) * PBUF_POOL_BUFSIZE_ALIGNED < unat (layer_offset l) + unat n) \<and>
    (r = None \<longrightarrow> pb s' = pb s \<and> mlive s' = mlive s) \<and>
    (r \<noteq> None \<longrightarrow> (\<exists>xs. pkt s' r xs \<and> pkt_len s' xs = unat n \<and> (\<forall>x \<in> set xs. refs s' x = 1) \<and>
       set xs \<inter> dom (mlive s) = {} \<and> dom (mlive s') = dom (mlive s) \<union> set xs \<and>
       (\<forall>y. y \<notin> set xs \<longrightarrow> pb s' y = pb s y)))"
proof -
  have off: "unat (layer_offset l) < 592" by (cases l) simp_all
  obtain r s' where r: "pbuf_alloc_pool_loop cf (layer_offset l) n None None s = Some (r, s')"
    "pool_result (unat (layer_offset l)) (unat n) [] s r s'"
    using pool_loop_ok [OF assms, of n None "[]" None "layer_offset l" cf] off by auto
  have "\<exists>xs. pkt s' r xs \<and> pkt_len s' xs = unat n \<and> (\<forall>x \<in> set xs. refs s' x = 1) \<and>
       set xs \<inter> dom (mlive s) = {} \<and> dom (mlive s') = dom (mlive s) \<union> set xs \<and>
       (\<forall>y. y \<notin> set xs \<longrightarrow> pb s' y = pb s y)" if "r \<noteq> None"
  proof -
    from r(2) that obtain xs where xs: "part s' 0 r xs" "pkt_len s' xs = unat n" "set xs \<inter> dom (mlive s) = {}"
      "mlive s' = (\<lambda>y. if y \<in> set xs then Some 608 else mlive s y)" "\<forall>y. y \<notin> set xs \<longrightarrow> pb s' y = pb s y"
      by (auto simp: pool_result_def)
    then have "dom (mlive s') = dom (mlive s) \<union> set xs" by (auto simp: dom_def)
    with xs part_pkt [OF xs(1)] part_refs [OF xs(1)] show ?thesis by blast
  qed
  with r show ?thesis by (auto simp: pbuf_alloc_def pool_result_def pool_consts)
qed

theorem pbuf_alloc_pool_witness:
  "(\<exists>r s'. pbuf_alloc (\<lambda>_. Some) PBUF_RAW 1000 PBUF_POOL (stack_boot desc_two) = Some (Some r, s') \<and> mem_ok s' \<and>
     (\<exists>xs. pkt s' (Some r) xs \<and> pkt_len s' xs = 1000)) \<and>
   (\<exists>s'. pbuf_alloc (\<lambda>_. Some) PBUF_RAW 2000 PBUF_POOL (stack_boot desc_two) = Some (None, s') \<and>
     mlive s' = Map.empty)"
proof
  have l: "free_list (stack_boot desc_two) MEMP_PBUF_POOL \<noteq> []" using boot_two(4) [of MEMP_PBUF_POOL] by auto
  show "\<exists>r s'. pbuf_alloc (\<lambda>_. Some) PBUF_RAW 1000 PBUF_POOL (stack_boot desc_two) = Some (Some r, s') \<and> mem_ok s' \<and>
     (\<exists>xs. pkt s' (Some r) xs \<and> pkt_len s' xs = 1000)"
    using pbuf_alloc_pool [OF boot_two(1), of "\<lambda>_. Some" PBUF_RAW 1000] l boot_two(4) [of MEMP_PBUF_POOL]
    by (auto simp: pool_consts)
  show "\<exists>s'. pbuf_alloc (\<lambda>_. Some) PBUF_RAW 2000 PBUF_POOL (stack_boot desc_two) = Some (None, s') \<and>
     mlive s' = Map.empty"
    using pbuf_alloc_pool [OF boot_two(1), of "\<lambda>_. Some" PBUF_RAW 2000] boot_two(2,4)
    by (auto simp: pool_consts)
qed

lemma unat16_add:
  "unat (a + b :: u16) = (if unat a + unat b < 65536 then unat a + unat b else unat a + unat b - 65536)"
proof -
  have "unat a + unat b < 131072" using unat_u16_less [of a] unat_u16_less [of b] by linarith
  then show ?thesis by (auto simp: unat_word_ariths le_mod_geq)
qed

lemma unat16_add_ge: "b \<le> a + b \<Longrightarrow> unat (a + b :: u16) = unat a + unat b"
  using unat_u16_less [of a] by (auto simp: word_le_nat_alt unat16_add simp del: unat_u16_less split: if_splits)

lemma alloc_ram_ok:
  assumes ok: "mem_ok s"
  shows "\<exists>r s'. pbuf_alloc cf l n PBUF_RAM s = Some (r, s') \<and> mem_ok s' \<and> octet s' = octet s \<and> diag s' = diag s \<and>
    (r = None \<longrightarrow> pb s' = pb s \<and> mlive s' = mlive s) \<and>
    (\<forall>x. r = Some x \<longrightarrow> part s' 0 r [x] \<and> pkt_len s' [x] = unat n \<and> mlive s x = None \<and>
       (\<exists>k. mlive s' = (mlive s)(x \<mapsto> k)) \<and> (\<forall>y. y \<noteq> x \<longrightarrow> pb s' y = pb s y))"
proof -
  note inv = mem_okD [OF ok]
  let ?o = "layer_offset l" and ?a = "of_nat SIZEOF_STRUCT_PBUF + (layer_offset l + n)"
  have off: "unat ?o \<le> 56" by (cases l) simp_all
  show ?thesis
  proof (cases "?o + n < n \<or> ?a < n")
    case True
    then show ?thesis using ok by (simp add: pbuf_alloc_def Let_def)
  next
    case False
    have len: "unat ?a = 16 + unat ?o + unat n"
    proof -
      have p: "unat (?o + n) = unat ?o + unat n" using False by (intro unat16_add_ge) (simp add: not_less)
      with False off unat_u16_less [of "?o + n"] show ?thesis
        by (auto simp: word_less_nat_alt p unat16_add [of "16 :: u16"] pool_consts split: if_splits)
    qed
    obtain r s1 where m: "mem_malloc (unat ?a) s = Some (r, s1)" "heap_inv s1" "pools_inv s1"
      "memp_pools s1 = memp_pools s" "pb s1 = pb s" "octet s1 = octet s" "diag s1 = diag s"
      and r: "case r of None \<Rightarrow> mlive s1 = mlive s
        | Some a \<Rightarrow> mlive s (Ram, a) = None \<and> (\<exists>k. unat ?a \<le> k \<and> mlive s1 = (mlive s)((Ram, a) \<mapsto> k))"
      using mem_malloc_state [OF inv(1,2), of "unat ?a"] by blast
    show ?thesis
    proof (cases r)
      case None
      have "mem_ok s1" by (rule mem_okI [OF m(2-4) ok]) (use m r None inv in simp)
      with None m r False show ?thesis by (auto simp: pbuf_alloc_def Let_def)
    next
      case (Some a)
      with r obtain k where k: "mlive s (Ram, a) = None" "unat ?a \<le> k" "mlive s1 = (mlive s)((Ram, a) \<mapsto> k)" by auto
      let ?b = "\<lparr>p_next = None, p_payload = Some (ptr_add (Ram, a) (int (SIZEOF_STRUCT_PBUF + unat ?o))), p_tot_len = n,
        p_len = n, p_type = type_code PBUF_RAM, p_flags = 0, p_ref = 1, p_if_idx = 0\<rparr>"
      let ?s = "s1\<lparr>pb := (pb s)((Ram, a) \<mapsto> ?b)\<rparr>"
      have e: "pbuf_alloc cf l n PBUF_RAM s = Some (Some (Ram, a), ?s)"
        using False m Some by (simp add: pbuf_alloc_def Let_def pbuf_init_alloced_pbuf_def)
      have h: "home (Ram, a) (Some k) ?b"
        using k(2) len by (simp add: home_def custom_def src_ok_def pbuf_get_allocsrc_def contiguous_def inside_def pool_consts
            layout_simps)
      have "mem_ok ?s"
      proof (rule mem_okI [OF _ _ _ ok])
        fix y b assume "pb ?s y = Some b"
        with h k inv(4) [of y b] show "home y (mlive ?s y) b" by (auto split: if_splits)
      qed (use m in simp_all)
      with e k m show ?thesis by (auto simp: custom_def plen_def)
    qed
  qed
qed

lemma part_alloced: "part s r p xs \<Longrightarrow> y \<in> set xs \<Longrightarrow> \<exists>b. pb s y = Some b \<and> \<not> custom b"
  by (induction xs arbitrary: p) auto

text \<open>Memory that was not allocated before held no pbuf.\<close>

lemma fresh_unused:
  assumes "mem_ok s" "mem_ok s1" "part s1 r p xs" "y \<in> set xs" "mlive s y = None"
  shows "pb s y = None"
proof -
  from part_alloced [OF assms(3,4)] obtain b where "pb s1 y = Some b" "\<not> custom b" by blast
  then have "\<forall>k. fst y \<noteq> Ext k" using mem_okD(4) [OF assms(2), of y b] by (auto simp: home_def src_ok_def)
  then show ?thesis using mem_okD(4) [OF assms(1), of y] assms(5)
    by (cases "pb s y") (auto simp: home_def split: if_splits)
qed

text \<open>
  C15. A packet allocated from the pool or from the heap and freed again leaves the allocations and
  all pbufs as they were before: nothing leaks, nothing else is freed.
\<close>

theorem pbuf_alloc_free:
  assumes "mem_ok s" "type = PBUF_POOL \<or> type = PBUF_RAM" "pbuf_alloc cf l n type s = Some (Some x, s1)"
  shows "\<exists>c s2. pbuf_free cf (Some x) s1 = Some (c, s2) \<and> mem_ok s2 \<and> pb s2 = pb s \<and> mlive s2 = mlive s \<and>
    octet s2 = octet s \<and> diag s2 = diag s"
proof -
  have off: "unat (layer_offset l) < 592" by (cases l) simp_all
  have "\<exists>xs. mem_ok s1 \<and> part s1 0 (Some x) xs \<and> set xs \<inter> dom (mlive s) = {} \<and>
    (\<forall>y. y \<notin> set xs \<longrightarrow> pb s1 y = pb s y \<and> mlive s1 y = mlive s y) \<and> octet s1 = octet s \<and> diag s1 = diag s"
    using assms(2)
  proof
    assume t: "type = PBUF_POOL"
    then have "pool_result (unat (layer_offset l)) (unat n) [] s (Some x) s1"
      using pool_loop_ok [OF assms(1), of n None "[]" None "layer_offset l" cf] off assms(3)
      by (auto simp: pbuf_alloc_def)
    then obtain ys where ys: "mem_ok s1" "octet s1 = octet s" "diag s1 = diag s" "part s1 0 (Some x) ys"
      "set ys \<inter> dom (mlive s) = {}" "mlive s1 = (\<lambda>y. if y \<in> set ys then Some 608 else mlive s y)"
      "\<forall>y. y \<notin> set ys \<longrightarrow> pb s1 y = pb s y" by (auto simp: pool_result_def)
    then show ?thesis by (intro exI [of _ ys]) simp
  next
    assume t: "type = PBUF_RAM"
    from alloc_ram_ok [OF assms(1), of cf l n] assms(3) t obtain k where "mem_ok s1" "octet s1 = octet s"
      "diag s1 = diag s" "part s1 0 (Some x) [x]" "mlive s x = None" "mlive s1 = (mlive s)(x \<mapsto> k)"
      "\<forall>y. y \<noteq> x \<longrightarrow> pb s1 y = pb s y" by auto
    then show ?thesis by (intro exI [of _ "[x]"]) auto
  qed
  then obtain xs where xs: "mem_ok s1" "part s1 0 (Some x) xs" "set xs \<inter> dom (mlive s) = {}"
    "\<forall>y. y \<notin> set xs \<longrightarrow> pb s1 y = pb s y \<and> mlive s1 y = mlive s y" "octet s1 = octet s" "diag s1 = diag s" by auto
  have none: "pb s y = None" "mlive s y = None" if "y \<in> set xs" for y
    using fresh_unused [OF assms(1) xs(1,2) that] xs(3) that by (auto simp: dom_def)
  obtain c s2 where "pbuf_free cf (Some x) s1 = Some (c, s2)" "mem_ok s2" "pb s2 = (pb s1) |` (- set xs)"
    "mlive s2 = (mlive s1) |` (- set xs)" "octet s2 = octet s1" "diag s2 = diag s1"
    using free_all [OF xs(1,2), of cf] by auto
  moreover from this(3,4) xs(4) none have "pb s2 = pb s" "mlive s2 = mlive s"
    by (auto simp: restrict_map_def fun_eq_iff)
  ultimately show ?thesis using xs by simp
qed

lemma boot_alloc:
  "\<exists>x s1 xs. pbuf_alloc (\<lambda>_. Some) PBUF_RAW 1000 PBUF_POOL (stack_boot desc_two) = Some (Some x, s1) \<and>
     mem_ok s1 \<and> part s1 0 (Some x) xs \<and> dom (pb s1) = set xs \<and> pkt_len s1 xs = 1000"
proof -
  obtain r s1 where r: "pbuf_alloc_pool_loop (\<lambda>_. Some) 0 1000 None None (stack_boot desc_two) = Some (r, s1)"
    "pool_result 0 1000 [] (stack_boot desc_two) r s1"
    using pool_loop_ok [OF boot_two(1), of 1000 None "[]" None 0 "\<lambda>_. Some"] by auto
  have l: "free_list (stack_boot desc_two) MEMP_PBUF_POOL \<noteq> []" using boot_two(4) [of MEMP_PBUF_POOL] by auto
  then obtain x where x: "r = Some x" using r(2) boot_two(4) [of MEMP_PBUF_POOL] by (auto simp: pool_result_def)
  then obtain xs where xs: "mem_ok s1" "part s1 0 (Some x) xs" "\<forall>y. y \<notin> set xs \<longrightarrow> pb s1 y = None"
    "pkt_len s1 xs = 1000" using r(2) boot_two(3) by (auto simp: pool_result_def)
  have "dom (pb s1) = set xs" using xs(3) part_alloced [OF xs(2)] by (force simp: dom_def)
  with r x xs show ?thesis by (auto simp: pbuf_alloc_def)
qed

theorem pbuf_alloc_free_witness:
  "\<exists>x s1 c s2. pbuf_alloc (\<lambda>_. Some) PBUF_RAW 1000 PBUF_POOL (stack_boot desc_two) = Some (Some x, s1) \<and>
     pbuf_free (\<lambda>_. Some) (Some x) s1 = Some (c, s2) \<and> mlive s2 = Map.empty"
proof -
  obtain x s1 where a: "pbuf_alloc (\<lambda>_. Some) PBUF_RAW 1000 PBUF_POOL (stack_boot desc_two) = Some (Some x, s1)"
    using boot_alloc by blast
  from pbuf_alloc_free [OF boot_two(1) _ a] a boot_two(2) show ?thesis by auto
qed

text \<open>
  C14. Freeing a chain walks it from its head: exactly the leading pbufs with one reference are
  deallocated, each to the allocator it came from, the first pbuf behind them loses one
  reference, and the number of deallocated pbufs is returned; all other pbufs, all other
  allocations and the data are unchanged, and no assertion fires.
\<close>

theorem pbuf_free_releases:
  assumes "mem_ok s" "linked s (Some x) xs" "\<forall>y \<in> set xs. 0 < refs s y"
    "\<forall>y \<in> set (takeWhile (\<lambda>x. refs s x = 1) xs). \<forall>b. pb s y = Some b \<longrightarrow> \<not> custom b"
  shows "\<exists>s'. pbuf_free cf (Some x) s = Some (of_nat (length (takeWhile (\<lambda>x. refs s x = 1) xs)), s') \<and> mem_ok s' \<and>
    pb s' = drop_ref (dropWhile (\<lambda>x. refs s x = 1) xs) ((pb s) |` (- set (takeWhile (\<lambda>x. refs s x = 1) xs))) \<and>
    mlive s' = (mlive s) |` (- set (takeWhile (\<lambda>x. refs s x = 1) xs)) \<and> octet s' = octet s \<and> diag s' = diag s"
  using free_loop_ok [OF assms, of cf 0] by (simp add: pbuf_free_def)

theorem pbuf_free_releases_witness:
  "\<exists>x s1 xs s2. pbuf_alloc (\<lambda>_. Some) PBUF_RAW 1000 PBUF_POOL (stack_boot desc_two) = Some (Some x, s1) \<and>
     pkt s1 (Some x) xs \<and> pbuf_free (\<lambda>_. Some) (Some x) s1 = Some (of_nat (length xs), s2) \<and> pb s2 = Map.empty"
proof -
  obtain x s1 xs where a: "pbuf_alloc (\<lambda>_. Some) PBUF_RAW 1000 PBUF_POOL (stack_boot desc_two) = Some (Some x, s1)"
    "mem_ok s1" "part s1 0 (Some x) xs" "dom (pb s1) = set xs" using boot_alloc by blast
  have tw: "takeWhile (\<lambda>x. refs s1 x = 1) xs = xs" "dropWhile (\<lambda>x. refs s1 x = 1) xs = []"
    using part_refs [OF a(3)] by (auto simp: takeWhile_eq_all_conv)
  have "(pb s1) |` (- set xs) = Map.empty" using a(4) by (auto simp: restrict_map_def fun_eq_iff dom_def)
  with pbuf_free_releases [OF a(2) part_linked [OF a(3)], of "\<lambda>_. Some"] part_refs [OF a(3)] part_pkt [OF a(3)] a(1)
  show ?thesis unfolding tw by (auto simp: drop_ref_def)
qed

end
