(* ===== verification/Pbuf_Chain.thy ===== *)
theory Pbuf_Chain
  imports Pbuf_Alloc
begin

text \<open>
  Operations that change the shape of a packet: \<^verbatim>\<open>pbuf_realloc\<close> shortens it,
  \<^verbatim>\<open>pbuf_cat\<close>, \<^verbatim>\<open>pbuf_chain\<close> and \<^verbatim>\<open>pbuf_dechain\<close> join and split chains, and the
  header functions move the start of its data. Each keeps packets well-formed and the memory
  invariant, and its effect is stated on the contents of the packet.
\<close>

section \<open>Shortening a packet\<close>

lemma live_small: "mlive s (Ram, a) = Some n \<Longrightarrow> heap_inv s \<Longrightarrow> n < 65536"
proof -
  assume "mlive s (Ram, a) = Some n" and h: "heap_inv s"
  then have "live s a = Some n" by (simp add: mlive_def)
  then obtain as b bs where b: "heap_shape s (as @ b # bs)" "n = blk_len (ram s) b - 6" by (rule liveD [OF h])
  then have "m_next (ram s b) \<le> MEM_SIZE_ALIGNED" using core_at(3) [of s as b bs] by (simp add: heap_shape_def)
  with b(2) show ?thesis by (simp add: layout_simps)
qed

lemma realloc_loop_ok:
  assumes "pkt s p xs" "unat rm < pkt_len s xs"
  shows "\<exists>as x bs r. xs = as @ x # bs \<and> pkt_len s as + unat r = unat rm \<and> unat r \<le> plen s x \<and>
    pbuf_realloc_loop shrink rm p s = Some (r, Some x,
      s\<lparr>pb := (\<lambda>y. if y \<in> set as then map_option (p_tot_len_update (\<lambda>t. t - shrink)) (pb s y) else pb s y)\<rparr>)"
  using assms
proof (induction xs arbitrary: p rm s)
  case (Cons x xs)
  then obtain b where b: "p = Some x" "pb s x = Some b" "pkt s (p_next b) xs" by auto
  have pl: "plen s x = unat (p_len b)" using b(2) by (simp add: plen_def)
  show ?case
  proof (cases "rm > p_len b")
    case False
    then have "pbuf_realloc_loop shrink rm p s = Some (rm, Some x, s)"
      using b by (subst pbuf_realloc_loop.simps) (simp add: deref_def)
    with False pl show ?thesis
      by (intro exI [of _ "[]"] exI [of _ x] exI [of _ xs] exI [of _ rm]) (auto simp: word_less_nat_alt)
  next
    case True
    let ?s = "upd_pbuf x (p_tot_len_update (\<lambda>t. t - shrink)) s"
    have r: "unat (rm - p_len b) = unat rm - unat (p_len b)" using True by (intro unat_sub) simp
    have "x \<notin> set xs" using linked_distinct [OF pkt_linked [OF Cons.prems(1)]] by simp
    then have e: "pb ?s y = pb s y" if "y \<in> set xs" for y using that by auto
    have c: "pkt ?s (p_next b) xs" "pkt_len ?s xs = pkt_len s xs" using pkt_cong [of xs ?s s] e b(3) by auto
    have lt: "unat (rm - p_len b) < pkt_len ?s xs"
      using Cons.prems(2) r c(2) pl True by (simp add: word_less_nat_alt)
    then have ne: "xs \<noteq> []" by auto
    then have nx: "p_next b \<noteq> None" using b(3) by (cases xs) auto
    obtain as z bs r' where z: "xs = as @ z # bs" "pkt_len ?s as + unat r' = unat (rm - p_len b)"
      "unat r' \<le> plen ?s z" "pbuf_realloc_loop shrink (rm - p_len b) (p_next b) ?s = Some (r', Some z,
      ?s\<lparr>pb := (\<lambda>y. if y \<in> set as then map_option (p_tot_len_update (\<lambda>t. t - shrink)) (pb ?s y) else pb ?s y)\<rparr>)"
      using Cons.IH [OF c(1) lt] by blast
    have "pbuf_realloc_loop shrink rm p s = pbuf_realloc_loop shrink (rm - p_len b) (p_next b) ?s"
      using b True nx by (subst pbuf_realloc_loop.simps) (simp add: deref_def)
    moreover have "pkt_len ?s as = pkt_len s as" "plen ?s z = plen s z"
      using z(1) e pkt_cong(2) [of as ?s s] by (auto simp: plen_def)
    moreover have "?s\<lparr>pb := (\<lambda>y. if y \<in> set as then map_option (p_tot_len_update (\<lambda>t. t - shrink)) (pb ?s y) else pb ?s y)\<rparr> =
      s\<lparr>pb := (\<lambda>y. if y \<in> set (x # as) then map_option (p_tot_len_update (\<lambda>t. t - shrink)) (pb s y) else pb s y)\<rparr>"
      using \<open>x \<notin> set xs\<close> z(1) by (auto simp: upd_pbuf_def intro!: stack.equality ext)
    ultimately show ?thesis using z r pl True
      by (intro exI [of _ "x # as"] exI [of _ z] exI [of _ bs] exI [of _ r']) (auto simp: word_less_nat_alt)
  qed
qed simp

abbreviation shorten :: "u16 \<Rightarrow> pbuf \<Rightarrow> pbuf" where
  "shorten r b \<equiv> b\<lparr>p_len := r, p_tot_len := r\<rparr>"

lemma home_len:
  assumes "home p a b" "unat r \<le> unat (p_len b)"
  shows "home p a (b\<lparr>p_len := r\<rparr>)"
  using assms by (auto simp: home_def custom_def src_ok_def pbuf_get_allocsrc_def contiguous_def inside_def
      split: if_splits)

lemma realloc_trim_ok:
  assumes ok: "mem_ok s" and b: "pb s x = Some b" "\<not> custom b" and r: "unat r \<le> unat (p_len b)"
  shows "\<exists>s2. pbuf_realloc_trim x b r s = Some s2 \<and> mem_ok (upd_pbuf x (shorten r) s2) \<and> pb s2 = pb s \<and> octet s2 = octet s"
proof (cases "pbuf_match_allocsrc b ALLOC_SRC_HEAP \<and> r \<noteq> p_len b")
  case False
  then have "pbuf_realloc_trim x b r s = Some s" by (auto simp: pbuf_realloc_trim_def)
  moreover have "mem_ok (upd_pbuf x (shorten r) s)"
    by (rule mem_ok_upd_pbuf [OF ok]) (use mem_okD(4) [OF ok b(1)] b r in \<open>auto intro: home_len\<close>)
  ultimately show ?thesis by auto
next
  case True
  note inv = mem_okD [OF ok]
  from True inv(4) [OF b(1)] b(2) obtain n y where h: "fst x = Ram" "mlive s x = Some n" "p_payload b = Some y"
    "fst y = Ram" "snd x + 16 \<le> snd y" "snd y + int (unat (p_len b)) \<le> snd x + int n" "src_ok Ram b" "contiguous b"
    by (auto simp: home_def src_ok_def pbuf_match_allocsrc_def inside_def layout_simps)
  let ?k = "nat (snd y - snd x) + unat r"
  have k: "?k \<le> n" "snd x \<le> snd y" using h(5,6) r by linarith+
  have l: "mlive s (Ram, snd x) = Some n" using h(1,2) by (metis prod.collapse)
  have k16: "u16c ?k = ?k" using k(1) live_small [OF l inv(1)] by simp
  obtain s2 n' where m: "mem_trim (snd x) ?k s = Some (Some (snd x), s2)" "heap_inv s2" "pools_inv s2"
    "memp_pools s2 = memp_pools s" "pb s2 = pb s" "octet s2 = octet s" "?k \<le> n'" "mlive s2 = (mlive s)((Ram, snd x) \<mapsto> n')"
    using mem_trim_state [OF inv(1,2) l k(1)] by blast
  have xe: "(Ram, snd x) = x" using h(1) by (metis prod.collapse)
  have "pbuf_realloc_trim x b r s = Some s2"
    using True b(2) h(1,3,4) k(2) k16 m(1) by (simp add: pbuf_realloc_trim_def custom_def)
  moreover have "mem_ok (upd_pbuf x (shorten r) s2)"
  proof (rule mem_okI [OF _ _ _ ok])
    fix p c assume p: "pb (upd_pbuf x (shorten r) s2) p = Some c"
    have "home x (Some n') (shorten r b)"
      using h k m(7) b(2) by (auto simp: home_def custom_def src_ok_def pbuf_get_allocsrc_def contiguous_def
          inside_def layout_simps)
    with p b h m(5,8) xe inv(4) [of p c] show "home p (mlive (upd_pbuf x (shorten r) s2) p) c"
      by (auto split: if_splits)
  qed (use m in simp_all)
  ultimately show ?thesis using m by auto
qed

text \<open>Cutting a packet inside one of its pbufs.\<close>

lemma pkt_cut:
  assumes "pkt s p (as @ x # bs)" "pb s x = Some b" "unat r \<le> unat (p_len b)"
    "unat d + unat r = pkt_len s (x # bs)"
    "\<And>y. y \<in> set as \<Longrightarrow> pb s' y = map_option (p_tot_len_update (\<lambda>t. t - d)) (pb s y)"
    "pb s' x = Some (shorten r b\<lparr>p_next := None\<rparr>)"
  shows "pkt s' p (as @ [x]) \<and> pkt_len s' (as @ [x]) = pkt_len s as + unat r"
  using assms(1,5)
proof (induction as arbitrary: p)
  case Nil
  then show ?case using assms(2,3,6) by (auto simp: plen_def unat_eq_zero)
next
  case (Cons y as)
  from Cons.prems(1) obtain c where c: "p = Some y" "pb s y = Some c"
    "unat (p_tot_len c) = unat (p_len c) + pkt_len s (as @ x # bs)" "p_payload c = None \<longrightarrow> p_len c = 0"
    "pkt s (p_next c) (as @ x # bs)" by auto
  have e: "pb s' y = Some (p_tot_len_update (\<lambda>t. t - d) c)" using Cons.prems(2) [of y] c(2) by simp
  have ih: "pkt s' (p_next c) (as @ [x])" "pkt_len s' (as @ [x]) = pkt_len s as + unat r"
    using Cons.IH [OF c(5)] Cons.prems(2) by auto
  have pl: "pkt_len s (as @ x # bs) = pkt_len s as + pkt_len s (x # bs)" by simp
  have "unat (p_tot_len c - d) = unat (p_tot_len c) - unat d"
    using c(3) assms(4) pl by (intro unat_sub) (simp add: word_le_nat_alt)
  then have "unat (p_tot_len c - d) = unat (p_len c) + pkt_len s' (as @ [x])" using c(3) assms(4) pl ih(2) by linarith
  with e ih c show ?case by (simp add: plen_def)
qed

lemma contents_cut:
  assumes "pkt s p (as @ x # bs)" "pb s x = Some b" "unat r \<le> unat (p_len b)" "octet s' = octet s"
    "\<And>y. y \<in> set as \<Longrightarrow> pb s' y = map_option (p_tot_len_update (\<lambda>t. t - d)) (pb s y)"
    "pb s' x = Some (shorten r b\<lparr>p_next := None\<rparr>)"
  shows "contents s' (as @ [x]) = take (pkt_len s as + unat r) (contents s (as @ x # bs))"
proof -
  have "pbytes s' y = pbytes s y" if "y \<in> set as" for y
    using assms(5) [OF that] assms(4) by (auto simp: pbytes_def split: option.split)
  then have a: "contents s' as = contents s as" by (simp add: contents_def cong: map_cong)
  have l: "length (contents s as) = pkt_len s as"
    using assms(1) by (induction as arbitrary: p) (auto simp: pbytes_def plen_def split: option.splits)
  have "pbytes s' x = take (unat r) (pbytes s x)"
    using assms(2-4,6) by (auto simp: pbytes_def take_mem_read split: option.split)
  moreover have "take (unat r) (pbytes s x @ contents s bs) = take (unat r) (pbytes s x)"
    using length_pbytes [OF assms(1), of x] assms(2,3) by (simp add: plen_def)
  ultimately show ?thesis using a l by simp
qed

lemma drop_ref_other: "y \<notin> set zs \<Longrightarrow> drop_ref zs g y = g y"
  by (cases zs) (auto simp: drop_ref_def)

lemma free_tail:
  assumes "mem_ok s" "linked s p bs" "\<forall>y \<in> set bs. 0 < refs s y \<and> (\<forall>b. pb s y = Some b \<longrightarrow> \<not> custom b)"
  shows "\<exists>s'. (if p \<noteq> None then map_option snd (pbuf_free cf p s) else Some s) = Some s' \<and> mem_ok s' \<and>
    octet s' = octet s \<and> (\<forall>y. y \<notin> set bs \<longrightarrow> pb s' y = pb s y)"
proof (cases p)
  case None
  then show ?thesis using assms(1) by simp
next
  case (Some q)
  let ?ys = "takeWhile (\<lambda>x. refs s x = 1) bs" and ?zs = "dropWhile (\<lambda>x. refs s x = 1) bs"
  have nc: "\<forall>x \<in> set ?ys. \<forall>b. pb s x = Some b \<longrightarrow> \<not> custom b" using assms(3) set_takeWhileD by metis
  have rf: "\<forall>x \<in> set bs. 0 < refs s x" using assms(3) by blast
  have zs: "set ?zs \<subseteq> set bs" using set_dropWhileD by (rule subsetI)
  obtain c s' where l: "pbuf_free_loop cf p 0 s = Some (c, s')" and s': "mem_ok s'" "octet s' = octet s"
    "pb s' = drop_ref ?zs ((pb s) |` (- set ?ys))"
    using free_loop_ok [OF assms(1,2) rf nc, of cf 0] by (elim exE conjE) (rule that)
  have "pb s' y = pb s y" if "y \<notin> set bs" for y
  proof -
    have "y \<notin> set ?ys" "y \<notin> set ?zs" using that zs by (auto dest: set_takeWhileD)
    then show ?thesis by (simp add: s'(3) drop_ref_other)
  qed
  with s'(1,2) l Some show ?thesis by (simp add: pbuf_free_def)
qed



section \<open>Concatenating and splitting chains\<close>

lemma cat_loop_ok:
  assumes "pkt s (Some h) xs" "pb s t = Some tb" "t \<notin> set xs"
  shows "pbuf_cat_loop h t s = Some (last xs,
    s\<lparr>pb := (\<lambda>y. if y \<in> set (butlast xs) then map_option (p_tot_len_update (\<lambda>l. l + p_tot_len tb)) (pb s y) else pb s y)\<rparr>)"
  using assms
proof (induction xs arbitrary: h s)
  case (Cons x xs)
  then obtain b where b: "h = x" "pb s x = Some b" "pkt s (p_next b) xs" by auto
  show ?case
  proof (cases xs)
    case Nil
    then show ?thesis using b by (subst pbuf_cat_loop.simps) simp
  next
    case (Cons y ys)
    then have nx: "p_next b = Some y" using b(3) by simp
    let ?s = "upd_pbuf x (p_tot_len_update (\<lambda>l. l + p_tot_len tb)) s"
    have d: "x \<notin> set xs" using linked_distinct [OF pkt_linked [OF Cons.prems(1)]] by simp
    then have "pb ?s z = pb s z" if "z \<in> set xs" for z using that by auto
    then have "pkt ?s (Some y) xs" using pkt_cong(1) [of xs ?s s] b(3) nx by simp
    then have ih: "pbuf_cat_loop y t ?s = Some (last xs, ?s\<lparr>pb := (\<lambda>z. if z \<in> set (butlast xs)
        then map_option (p_tot_len_update (\<lambda>l. l + p_tot_len tb)) (pb ?s z) else pb ?s z)\<rparr>)"
      using Cons.prems(2,3) by (intro Cons.IH) auto
    have "?s\<lparr>pb := (\<lambda>z. if z \<in> set (butlast xs)
        then map_option (p_tot_len_update (\<lambda>l. l + p_tot_len tb)) (pb ?s z) else pb ?s z)\<rparr> =
      s\<lparr>pb := (\<lambda>z. if z \<in> set (butlast (x # xs)) then map_option (p_tot_len_update (\<lambda>l. l + p_tot_len tb)) (pb s z) else pb s z)\<rparr>"
      using d Cons by (auto simp: upd_pbuf_def dest: in_set_butlastD intro!: stack.equality ext)
    with ih b nx Cons Cons.prems(2) show ?thesis by (subst pbuf_cat_loop.simps) simp
  qed
qed simp

lemma pkt_join:
  assumes "pkt s p xs" "xs \<noteq> []" "pkt s (Some t) ys" "pb s t = Some tb" "pkt_len s xs + pkt_len s ys < 65536"
    "set xs \<inter> set ys = {}"
    "\<And>y. y \<in> set (butlast xs) \<Longrightarrow> pb s' y = map_option (p_tot_len_update (\<lambda>l. l + p_tot_len tb)) (pb s y)"
    "pb s' (last xs) = map_option (\<lambda>b. b\<lparr>p_tot_len := p_tot_len b + p_tot_len tb, p_next := Some t\<rparr>) (pb s (last xs))"
    "\<And>y. y \<in> set ys \<Longrightarrow> pb s' y = pb s y"
  shows "pkt s' p (xs @ ys) \<and> pkt_len s' (xs @ ys) = pkt_len s xs + pkt_len s ys"
  using assms(1,2,5,6,7,8)
proof (induction xs arbitrary: p)
  case (Cons x xs)
  from Cons.prems(1) obtain b where b: "p = Some x" "pb s x = Some b"
    "unat (p_tot_len b) = unat (p_len b) + pkt_len s xs" "p_payload b = None \<longrightarrow> p_len b = 0"
    "pkt s (p_next b) xs" by auto
  have ys: "pkt s' (Some t) ys" "pkt_len s' ys = pkt_len s ys" using pkt_cong [of ys s' s] assms(3,9) by auto
  have tl: "unat (p_tot_len tb) = pkt_len s ys" using assms(3,4) by (cases ys) (auto simp: plen_def)
  have sum: "unat (p_tot_len b + p_tot_len tb) = unat (p_tot_len b) + pkt_len s ys"
    using Cons.prems(3) b(2,3) tl by (simp add: unat16_add plen_def)
  show ?case
  proof (cases "xs = []")
    case True
    then show ?thesis using Cons.prems(6) b ys sum by (simp add: plen_def)
  next
    case False
    have ih: "pkt s' (p_next b) (xs @ ys)" "pkt_len s' (xs @ ys) = pkt_len s xs + pkt_len s ys"
      using Cons.IH [OF b(5) False] Cons.prems(3-6) False by auto
    have "pb s' x = Some (b\<lparr>p_tot_len := p_tot_len b + p_tot_len tb\<rparr>)"
      using Cons.prems(5) [of x] False b(2) by simp
    with ih b sum False show ?thesis by (simp add: plen_def)
  qed
qed simp

definition joined :: "ptr list \<Rightarrow> ptr \<Rightarrow> u16 \<Rightarrow> (ptr \<Rightarrow> pbuf option) \<Rightarrow> ptr \<Rightarrow> pbuf option" where
  "joined xs t n g = (\<lambda>y. if y \<in> set (butlast xs) then map_option (p_tot_len_update (\<lambda>l. l + n)) (g y)
     else if y = last xs then map_option (\<lambda>b. b\<lparr>p_tot_len := p_tot_len b + n, p_next := Some t\<rparr>) (g y) else g y)"

lemma pkt_suffix: "pkt s p (as @ x # bs) \<Longrightarrow> pkt s (Some x) (x # bs)"
  by (induction as arbitrary: p) auto

lemma cat_eq:
  assumes "pkt s (Some h) xs" "pb s t = Some tb" "t \<notin> set xs"
  shows "pbuf_cat (Some h) (Some t) s = Some (s\<lparr>pb := joined xs t (p_tot_len tb) (pb s)\<rparr>)"
proof -
  obtain as x where xs: "xs = as @ [x]" using assms(1) by (cases xs rule: rev_exhaust) auto
  have d: "x \<notin> set as" using linked_distinct [OF pkt_linked [OF assms(1)]] xs by simp
  from pkt_suffix [OF assms(1) [unfolded xs]] obtain b where b: "pb s x = Some b" "p_tot_len b = p_len b"
    by (auto simp: word_unat_eq_iff)
  show ?thesis
    using cat_loop_ok [OF assms] assms(2,3) b d xs
    by (simp add: pbuf_cat_def) (auto simp: upd_pbuf_def joined_def intro!: stack.equality ext)
qed

lemma joined_Some:
  assumes "joined xs t n g y = Some b"
  obtains c where "g y = Some c" "home y a b = home y a c"
  using assms by (auto simp: joined_def split: if_splits)

lemma joined_ok:
  assumes "mem_ok s"
  shows "mem_ok (s\<lparr>pb := joined xs t n (pb s)\<rparr>)"
proof (rule mem_okI [OF _ _ _ assms])
  fix y b assume "pb (s\<lparr>pb := joined xs t n (pb s)\<rparr>) y = Some b"
  then have "joined xs t n (pb s) y = Some b" by simp
  then obtain c where "pb s y = Some c" "home y (mlive s y) b = home y (mlive s y) c" by (rule joined_Some)
  then show "home y (mlive (s\<lparr>pb := joined xs t n (pb s)\<rparr>) y) b" using mem_okD(4) [OF assms, of y c] by simp
qed (use mem_okD [OF assms] in simp_all)

text \<open>
  C17. Concatenating two packets gives one well-formed packet with the contents of both in order, as
  long as its length fits the 16-bit length field; no other pbuf changes, the reference counts
  stay, and the invariant of the memory holds.
\<close>

theorem pbuf_cat_contents:
  assumes "pkt s (Some h) xs" "pkt s (Some t) ys" "set xs \<inter> set ys = {}"
    "length (contents s xs) + length (contents s ys) < 65536"
  shows "\<exists>s'. pbuf_cat (Some h) (Some t) s = Some s' \<and> pkt s' (Some h) (xs @ ys) \<and>
    contents s' (xs @ ys) = contents s xs @ contents s ys \<and> (\<forall>y. refs s' y = refs s y) \<and>
    (\<forall>y. y \<notin> set xs \<longrightarrow> pb s' y = pb s y) \<and> diag s' = diag s \<and> (mem_ok s \<longrightarrow> mem_ok s')"
proof -
  from assms(2) obtain tb where tb: "pb s t = Some tb" "t \<in> set ys" by (cases ys) auto
  have tx: "t \<notin> set xs" using tb(2) assms(3) by auto
  have ne: "xs \<noteq> []" using assms(1) by auto
  obtain as x where xs: "xs = as @ [x]" using ne by (cases xs rule: rev_exhaust) auto
  have d: "x \<notin> set as" using linked_distinct [OF pkt_linked [OF assms(1)]] xs by simp
  let ?s = "s\<lparr>pb := joined xs t (p_tot_len tb) (pb s)\<rparr>"
  have len: "pkt_len s xs + pkt_len s ys < 65536"
    using assms(4) length_contents [OF assms(1)] length_contents [OF assms(2)] by simp
  have j: "pb ?s y = map_option (p_tot_len_update (\<lambda>l. l + p_tot_len tb)) (pb s y)" if "y \<in> set (butlast xs)" for y
    using that by (simp add: joined_def)
  have jl: "pb ?s (last xs) = map_option (\<lambda>b. b\<lparr>p_tot_len := p_tot_len b + p_tot_len tb, p_next := Some t\<rparr>) (pb s (last xs))"
    using d xs by (simp add: joined_def)
  have jy: "pb ?s y = pb s y" if "y \<in> set ys" for y
    using that assms(3) xs by (auto simp: joined_def)
  have "pkt ?s (Some h) (xs @ ys)"
    using pkt_join [OF assms(1) ne assms(2) tb(1) len assms(3) j jl jy] by blast
  moreover have "pbytes ?s y = pbytes s y" "refs ?s y = refs s y" for y
    by (auto simp: pbytes_def joined_def refs_def split: option.split)
  then have "contents ?s (xs @ ys) = contents s xs @ contents s ys" "\<forall>y. refs ?s y = refs s y"
    by (simp_all add: contents_def cong: map_cong)
  moreover have "pb ?s y = pb s y" if "y \<notin> set xs" for y
    using that xs by (auto simp: joined_def)
  ultimately show ?thesis using cat_eq [OF assms(1) tb(1) tx] joined_ok [of s xs t "p_tot_len tb"] by auto
qed

text \<open>Two packets of one pbuf each, of two and three octets, for the witnesses.\<close>

definition two_apart :: stack where
  "two_apart = two_pbufs\<lparr>pb := [(Ext 0, 0) \<mapsto> \<lparr>p_next = None, p_payload = Some (Ext 1, 0), p_tot_len = 2, p_len = 2,
              p_type = 0, p_flags = 0, p_ref = 1, p_if_idx = 0\<rparr>,
            (Ext 0, 1) \<mapsto> \<lparr>p_next = None, p_payload = Some (Ext 2, 0), p_tot_len = 3, p_len = 3,
              p_type = 0, p_flags = 0, p_ref = 1, p_if_idx = 0\<rparr>]\<rparr>"

lemma two_apart_ok:
  "pkt two_apart (Some (Ext 0, 0)) [(Ext 0, 0)]" "pkt two_apart (Some (Ext 0, 1)) [(Ext 0, 1)]"
  "contents two_apart [(Ext 0, 0)] = [1, 2]" "contents two_apart [(Ext 0, 1)] = [1, 2, 3]"
  "refs two_apart (Ext 0, 1) = 1"
  by (simp_all add: two_apart_def two_pbufs_def contents_def pbytes_def mem_read_def refs_def ptr_add_def upt_rec)

theorem pbuf_cat_contents_witness:
  "\<exists>s'. pbuf_cat (Some (Ext 0, 0)) (Some (Ext 0, 1)) two_apart = Some s' \<and>
     contents s' [(Ext 0, 0), (Ext 0, 1)] = [1, 2, 1, 2, 3]"
  using pbuf_cat_contents [OF two_apart_ok(1,2)] unfolding two_apart_ok(3,4) by fastforce

text \<open>
  C18. Chaining a packet behind a single pbuf and taking it off again is the identity: the tail is
  returned and every pbuf, its reference count included, is as before.
\<close>

theorem pbuf_chain_dechain:
  assumes "pkt s (Some x) [x]" "pkt s (Some t) ys" "x \<notin> set ys"
    "length (contents s [x]) + length (contents s ys) < 65536" "0 < refs s t" "refs s t < 255"
  shows "\<exists>s1. pbuf_chain (Some x) (Some t) s = Some s1 \<and> pbuf_dechain cf x s1 = Some (Some t, s)"
proof -
  from assms(1) obtain b where b: "pb s x = Some b" "p_next b = None" "p_tot_len b = p_len b"
    by (auto simp: word_unat_eq_iff)
  from assms(2) obtain tb where tb: "pb s t = Some tb" "t \<in> set ys" "unat (p_tot_len tb) = pkt_len s ys"
    by (cases ys) (auto simp: plen_def)
  have tx: "t \<noteq> x" using tb(2) assms(3) by auto
  have r: "0 < unat (p_ref tb)" "unat (p_ref tb) < 255" using assms(5,6) tb(1) by (simp_all add: refs_def)
  then have r1: "p_ref tb + 1 > 0" "p_ref tb \<noteq> 0" by (auto simp: word_less_nat_alt unat_word_ariths)
  let ?t = "p_tot_len tb"
  let ?g = "(pb s)(x \<mapsto> b\<lparr>p_tot_len := p_len b + ?t, p_next := Some t\<rparr>, t \<mapsto> p_ref_update (\<lambda>r. r + 1) tb)"
  have chain: "pbuf_chain (Some x) (Some t) s = Some (s\<lparr>pb := ?g\<rparr>)"
    using cat_eq [OF assms(1) tb(1)] tx b tb r1
    by (auto simp: pbuf_chain_def pbuf_ref_def upd_pbuf_def joined_def intro!: stack.equality ext)
  have "unat (p_len b + ?t) = unat (p_len b) + unat ?t"
    using assms(4) length_contents [OF assms(1)] length_contents [OF assms(2)] b tb(3)
    by (simp add: unat16_add plen_def)
  then have u: "uint ?t = uint (p_len b + ?t) - uint (p_len b)" by (simp add: uint_nat)
  have "pbuf_dechain cf x (s\<lparr>pb := ?g\<rparr>) = Some (Some t, s)"
    using tx b tb(1) u r1
    by (simp add: pbuf_dechain_def pbuf_free_def pbuf_free_loop.simps) (auto simp: upd_pbuf_def intro!: stack.equality ext)
  with chain show ?thesis by blast
qed

theorem pbuf_chain_dechain_witness:
  "\<exists>s1. pbuf_chain (Some (Ext 0, 0)) (Some (Ext 0, 1)) two_apart = Some s1 \<and>
     pbuf_dechain (\<lambda>_. Some) (Ext 0, 0) s1 = Some (Some (Ext 0, 1), two_apart)"
  using pbuf_chain_dechain [OF two_apart_ok(1,2)] unfolding two_apart_ok(3-5) by fastforce

section \<open>Headers\<close>

text \<open>
  C19. When \<^verbatim>\<open>pbuf_add_header\<close> makes room for \<open>n\<close> octets in front of a packet, the packet stays
  well-formed and the octets behind the new header are the old contents; the payload stays inside
  the memory of the pbuf; and \<^verbatim>\<open>pbuf_remove_header\<close> takes the room away again, exactly.
\<close>

theorem pbuf_header_roundtrip:
  assumes "pkt s (Some x) (x # xs)" "pbuf_add_header (Some x) n s = Some (0, s1)" "0 < n"
  shows "pkt s1 (Some x) (x # xs) \<and> length (contents s1 (x # xs)) = n + length (contents s (x # xs)) \<and>
    drop n (contents s1 (x # xs)) = contents s (x # xs) \<and> (mem_ok s \<longrightarrow> mem_ok s1) \<and>
    pbuf_remove_header (Some x) n s1 = Some (0, s)"
proof -
  from assms(1) obtain b where b: "pb s x = Some b" "unat (p_tot_len b) = unat (p_len b) + pkt_len s xs"
    "pkt s (p_next b) xs" by auto
  let ?i = "of_nat n :: u16"
  obtain y where py: "p_payload b = Some y"
    using assms(2,3) b(1) by (cases "p_payload b")
      (auto simp: pbuf_add_header_def pbuf_add_header_impl_def Let_def split: if_splits)
  have y: "p_payload b = Some y" "fst y = fst x" "snd x + int SIZEOF_STRUCT_PBUF \<le> snd y - int n"
    and n: "n \<le> 65535" and ov: "\<not> ?i + p_tot_len b < ?i" and cont: "contiguous b"
    and s1: "s1 = upd_pbuf x (\<lambda>b. b\<lparr>p_payload := Some (ptr_add y (- int n)), p_len := p_len b + ?i, p_tot_len := p_tot_len b + ?i\<rparr>) s"
    using assms(2,3) b(1) py
    by (simp_all add: pbuf_add_header_def pbuf_add_header_impl_def Let_def contiguous_def split: if_splits)
  have i: "unat ?i = n" using n by simp
  have ut: "unat (p_tot_len b + ?i) = unat (p_tot_len b) + n"
    using unat16_add_ge [of ?i "p_tot_len b"] ov i by (simp add: add.commute not_less)
  have ul: "unat (p_len b + ?i) = unat (p_len b) + n"
    using ut b(2) i unat_u16_less [of "p_tot_len b + ?i"] by (simp add: unat16_add)
  let ?c = "b\<lparr>p_payload := Some (ptr_add y (- int n)), p_len := p_len b + ?i, p_tot_len := p_tot_len b + ?i\<rparr>"
  have x1: "pb s1 x = Some ?c" and oth: "z \<noteq> x \<Longrightarrow> pb s1 z = pb s z" for z using b(1) by (simp_all add: s1)
  have d: "x \<notin> set xs" using linked_distinct [OF pkt_linked [OF assms(1)]] by simp
  have o1: "octet s1 = octet s" by (simp add: s1)
  have e: "pb s1 z = pb s z" if "z \<in> set xs" for z using that d oth by metis
  then have "pbytes s1 z = pbytes s z" if "z \<in> set xs" for z using that by (simp add: pbytes_def o1 split: option.split)
  then have rest: "pkt s1 (p_next b) xs" "pkt_len s1 xs = pkt_len s xs" "contents s1 xs = contents s xs"
    using b(3) e pkt_cong [of xs s1 s] by (simp_all add: contents_def cong: map_cong)
  have p1: "pkt s1 (Some x) (x # xs)" using x1 rest ut ul b(2) by simp
  have "pbytes s1 x = mem_read (octet s) (ptr_add y (- int n)) n @ pbytes s x"
    using x1 ul b(1) y(1) mem_read_add [of "octet s" "ptr_add y (- int n)" n "unat (p_len b)"]
    by (simp add: pbytes_def s1 add.commute)
  then have c1: "contents s1 (x # xs) = mem_read (octet s) (ptr_add y (- int n)) n @ contents s (x # xs)"
    using rest by simp
  have "mem_ok s1" if "mem_ok s"
    unfolding s1 by (rule mem_ok_upd_pbuf [OF that])
      (use mem_okD(4) [OF that, of x b] b(1) y ul cont in \<open>auto simp: home_def custom_def src_ok_def
        pbuf_get_allocsrc_def contiguous_def inside_def split: if_splits\<close>)
  moreover have "pbuf_remove_header (Some x) n s1 = Some (0, s)"
  proof -
    have "?i \<le> p_len b + ?i" using ul i by (simp add: word_le_nat_alt)
    then show ?thesis using x1 n assms(3) y(1) b(1)
      by (simp add: pbuf_remove_header_def offset_ptr_def s1 upd_pbuf_def fun_upd_idem)
  qed
  ultimately show ?thesis using p1 c1 by simp
qed

definition ram_pbuf :: stack where
  "ram_pbuf = two_pbufs\<lparr>pb := [(Ext 1, 0) \<mapsto> \<lparr>p_next = None, p_payload = Some (Ext 1, 20), p_tot_len = 3, p_len = 3,
              p_type = 0x80, p_flags = 0, p_ref = 1, p_if_idx = 0\<rparr>]\<rparr>"

theorem pbuf_header_roundtrip_witness:
  "\<exists>s1. pbuf_add_header (Some (Ext 1, 0)) 2 ram_pbuf = Some (0, s1) \<and>
     drop 2 (contents s1 [(Ext 1, 0)]) = [21, 22, 23] \<and> pbuf_remove_header (Some (Ext 1, 0)) 2 s1 = Some (0, ram_pbuf)"
proof -
  have p: "pkt ram_pbuf (Some (Ext 1, 0)) [(Ext 1, 0)]" by (simp add: ram_pbuf_def)
  have c: "contents ram_pbuf [(Ext 1, 0)] = [21, 22, 23]"
    by (simp add: ram_pbuf_def two_pbufs_def contents_def pbytes_def mem_read_def ptr_add_def upt_rec)
  obtain s1 where s1: "pbuf_add_header (Some (Ext 1, 0)) 2 ram_pbuf = Some (0, s1)"
    by (simp add: ram_pbuf_def pbuf_add_header_def pbuf_add_header_impl_def layout_simps)
  from pbuf_header_roundtrip [OF p s1] c s1 show ?thesis by (metis zero_less_numeral)
qed

end
