(* ===== verification/Inet_Chksum.thy ===== *)
theory Inet_Chksum
  imports Pbuf_Chain
begin

text \<open>
  The Internet checksum of \<^verbatim>\<open>core/inet_chksum.c\<close>: the three versions of
  \<^verbatim>\<open>lwip_standard_chksum\<close> that the file holds (this build selects the second), and the
  checksums over memory, over a packet and over a packet with a pseudo header. A version that reads
  16 or 32 bits at a time takes the numeric address of a pointer from the function \<open>addr\<close>, which
  stands for what the linker and the allocator decide.
\<close>

section \<open>Checksums of memory\<close>

definition FOLD_U32T :: "u32 \<Rightarrow> u32" where
  "FOLD_U32T u = drop_bit 16 u + (u AND 0xffff)"

definition SWAP_BYTES_IN_WORD :: "u32 \<Rightarrow> u32" where
  "SWAP_BYTES_IN_WORD w = push_bit 8 (w AND 0xff) OR drop_bit 8 (w AND 0xff00)"

text \<open>Algorithm 1: octet by octet, in network order.\<close>

function chksum1_loop :: "octets \<Rightarrow> ptr \<Rightarrow> int \<Rightarrow> u32 \<Rightarrow> ptr \<times> int \<times> u32" where
  "chksum1_loop m octetptr len acc =
     (if len > 1 then
        (let src = push_bit 8 (ucast (m octetptr)) :: u16;
             src = src OR ucast (m (ptr_add octetptr 1))
         in chksum1_loop m (ptr_add octetptr 2) (len - 2) (acc + ucast src))
      else (octetptr, len, acc))"
  by pat_completeness auto
termination by (relation "measure (\<lambda>(m, p, len, acc). nat len)") auto

definition lwip_standard_chksum1 :: "octets \<Rightarrow> ptr \<Rightarrow> int \<Rightarrow> u16" where
  "lwip_standard_chksum1 m dataptr len =
     (let (octetptr, len, acc) = chksum1_loop m dataptr len 0;
          acc = (if len > 0 then acc + ucast (push_bit 8 (ucast (m octetptr)) :: u16) else acc);
          acc = drop_bit 16 acc + (acc AND 0xffff);
          acc = (if acc AND 0xffff0000 \<noteq> 0 then drop_bit 16 acc + (acc AND 0xffff) else acc)
      in lwip_htons (ucast acc))"

text \<open>
  Algorithm 2, the one this build uses: 16-bit loads from even addresses. \<open>addr\<close> is the address
  the linker gave to a pointer. Storing into octet 0 or 1 of the variable \<^verbatim>\<open>t\<close> sets its low or
  high half.
\<close>

definition set_octet :: "nat \<Rightarrow> u8 \<Rightarrow> u16 \<Rightarrow> u16" where
  "set_octet i v t = (if i = 0 then (t AND 0xff00) OR ucast v else (t AND 0x00ff) OR push_bit 8 (ucast v))"

function chksum2_loop :: "octets \<Rightarrow> ptr \<Rightarrow> int \<Rightarrow> u32 \<Rightarrow> ptr \<times> int \<times> u32" where
  "chksum2_loop m ps len sm =
     (if len > 1 then chksum2_loop m (ptr_add ps 2) (len - 2) (sm + ucast (get16 m ps))
      else (ps, len, sm))"
  by pat_completeness auto
termination by (relation "measure (\<lambda>(m, p, len, acc). nat len)") auto

definition lwip_standard_chksum :: "(ptr \<Rightarrow> nat) \<Rightarrow> octets \<Rightarrow> ptr \<Rightarrow> int \<Rightarrow> u16" where
  "lwip_standard_chksum addr m dataptr len =
     (let t = 0;
          odd = addr dataptr mod 2 = 1;
          (pb, len, t) = (if odd \<and> len > 0 then (ptr_add dataptr 1, len - 1, set_octet 1 (m dataptr) t)
                          else (dataptr, len, t));
          (ps, len, sm) = chksum2_loop m pb len 0;
          t = (if len > 0 then set_octet 0 (m ps) t else t);
          sm = sm + ucast t;
          sm = FOLD_U32T sm;
          sm = FOLD_U32T sm;
          sm = (if odd then SWAP_BYTES_IN_WORD sm else sm)
      in ucast sm)"

text \<open>Algorithm 3: 32-bit loads from addresses divisible by four, with the carry added back.\<close>

definition add_carry :: "u32 \<Rightarrow> u32 \<Rightarrow> u32" where
  "add_carry sm x = (let tmp = sm + x in if tmp < sm then tmp + 1 else tmp)"

function chksum3_loop :: "octets \<Rightarrow> ptr \<Rightarrow> int \<Rightarrow> u32 \<Rightarrow> ptr \<times> int \<times> u32" where
  "chksum3_loop m pl len sm =
     (if len > 7 then
        (let tmp = add_carry sm (get32 m pl);
             sm = add_carry tmp (get32 m (ptr_add pl 4))
         in chksum3_loop m (ptr_add pl 8) (len - 8) sm)
      else (pl, len, sm))"
  by pat_completeness auto
termination by (relation "measure (\<lambda>(m, p, len, acc). nat len)") auto

declare chksum1_loop.simps [simp del] chksum2_loop.simps [simp del] chksum3_loop.simps [simp del]

definition lwip_standard_chksum3 :: "(ptr \<Rightarrow> nat) \<Rightarrow> octets \<Rightarrow> ptr \<Rightarrow> int \<Rightarrow> u16" where
  "lwip_standard_chksum3 addr m dataptr len =
     (let t = 0;
          odd = addr dataptr mod 2 = 1;
          (pb, len, t) = (if odd \<and> len > 0 then (ptr_add dataptr 1, len - 1, set_octet 1 (m dataptr) t)
                          else (dataptr, len, t));
          (ps, len, sm) = (if addr pb mod 4 \<noteq> 0 \<and> len > 1 then (ptr_add pb 2, len - 2, ucast (get16 m pb))
                            else (pb, len, 0));
          (pl, len, sm) = chksum3_loop m ps len sm;
          sm = FOLD_U32T sm;
          (ps, len, sm) = chksum2_loop m pl len sm;
          t = (if len > 0 then set_octet 0 (m ps) t else t);
          sm = sm + ucast t;
          sm = FOLD_U32T sm;
          sm = FOLD_U32T sm;
          sm = (if odd then SWAP_BYTES_IN_WORD sm else sm)
      in ucast sm)"

definition inet_chksum :: "(ptr \<Rightarrow> nat) \<Rightarrow> octets \<Rightarrow> ptr \<Rightarrow> u16 \<Rightarrow> u16" where
  "inet_chksum addr m dataptr len = NOT (lwip_standard_chksum addr m dataptr (uint len))"

section \<open>Checksums of packets\<close>

text \<open>The checksum of the data of one pbuf; through a NULL payload only the empty sum is defined.\<close>

definition pbuf_chksum :: "(ptr \<Rightarrow> nat) \<Rightarrow> octets \<Rightarrow> ptr option \<Rightarrow> u16 \<Rightarrow> u16 option" where
  "pbuf_chksum addr m payload len = (case payload of
     Some y \<Rightarrow> Some (lwip_standard_chksum addr m y (uint len))
   | None \<Rightarrow> if len = 0 then Some 0 else None)"

text \<open>The loop over the chain that \<^verbatim>\<open>inet_cksum_pseudo_base\<close> and \<^verbatim>\<open>inet_chksum_pbuf\<close> share.\<close>

partial_function (option) chksum_chain ::
  "(ptr \<Rightarrow> nat) \<Rightarrow> 'a stack_scheme \<Rightarrow> ptr option \<Rightarrow> u32 \<Rightarrow> bool \<Rightarrow> (u32 \<times> bool) option" where
  "chksum_chain addr s q acc swapped = (case q of None \<Rightarrow> Some (acc, swapped)
   | Some a \<Rightarrow> do {
       b \<leftarrow> pb s a;
       c \<leftarrow> pbuf_chksum addr (octet s) (p_payload b) (p_len b);
       let acc = FOLD_U32T (acc + ucast c);
       if unat (p_len b) mod 2 \<noteq> 0
       then chksum_chain addr s (p_next b) (SWAP_BYTES_IN_WORD acc) (\<not> swapped)
       else chksum_chain addr s (p_next b) acc swapped })"

definition inet_cksum_pseudo_base ::
  "(ptr \<Rightarrow> nat) \<Rightarrow> 'a stack_scheme \<Rightarrow> ptr option \<Rightarrow> u8 \<Rightarrow> u16 \<Rightarrow> u32 \<Rightarrow> u16 option" where
  "inet_cksum_pseudo_base addr s p proto proto_len acc = do {
     (acc, swapped) \<leftarrow> chksum_chain addr s p acc False;
     let acc = (if swapped then SWAP_BYTES_IN_WORD acc else acc);
     let acc = acc + ucast (lwip_htons (ucast proto));
     let acc = acc + ucast (lwip_htons proto_len);
     let acc = FOLD_U32T acc;
     let acc = FOLD_U32T acc;
     Some (ucast (NOT (acc AND 0xffff)))
   }"

definition pseudo_addr :: "u32 \<Rightarrow> u32 \<Rightarrow> u32" where
  "pseudo_addr src dest =
     (let acc = src AND 0xffff;
          acc = acc + (drop_bit 16 src AND 0xffff);
          acc = acc + (dest AND 0xffff);
          acc = acc + (drop_bit 16 dest AND 0xffff)
      in FOLD_U32T (FOLD_U32T acc))"

definition inet_chksum_pseudo ::
  "(ptr \<Rightarrow> nat) \<Rightarrow> 'a stack_scheme \<Rightarrow> ptr option \<Rightarrow> u8 \<Rightarrow> u16 \<Rightarrow> u32 \<Rightarrow> u32 \<Rightarrow> u16 option" where
  "inet_chksum_pseudo addr s p proto proto_len src dest =
     inet_cksum_pseudo_base addr s p proto proto_len (pseudo_addr src dest)"

definition ip_chksum_pseudo ::
  "(ptr \<Rightarrow> nat) \<Rightarrow> 'a stack_scheme \<Rightarrow> ptr option \<Rightarrow> u8 \<Rightarrow> u16 \<Rightarrow> u32 \<Rightarrow> u32 \<Rightarrow> u16 option" where
  "ip_chksum_pseudo addr s p proto proto_len src dest = inet_chksum_pseudo addr s p proto proto_len src dest"

partial_function (option) chksum_partial_chain ::
  "(ptr \<Rightarrow> nat) \<Rightarrow> 'a stack_scheme \<Rightarrow> ptr option \<Rightarrow> u16 \<Rightarrow> u32 \<Rightarrow> bool
   \<Rightarrow> (u32 \<times> bool \<times> 'a stack_scheme) option" where
  "chksum_partial_chain addr s q chksum_len acc swapped = (case q of None \<Rightarrow> Some (acc, swapped, s)
   | Some a \<Rightarrow> if chksum_len > 0 then do {
       b \<leftarrow> pb s a;
       let chklen = (if p_len b > chksum_len then chksum_len else p_len b);
       c \<leftarrow> pbuf_chksum addr (octet s) (p_payload b) chklen;
       let acc = acc + ucast c;
       let chksum_len = chksum_len - chklen;
       let s = LWIP_ASSERT ''delete me'' (chksum_len < 0x7fff) s;
       let acc = FOLD_U32T acc;
       if unat (p_len b) mod 2 \<noteq> 0
       then chksum_partial_chain addr s (p_next b) chksum_len (SWAP_BYTES_IN_WORD acc) (\<not> swapped)
       else chksum_partial_chain addr s (p_next b) chksum_len acc swapped
     } else Some (acc, swapped, s))"

definition inet_cksum_pseudo_partial_base ::
  "(ptr \<Rightarrow> nat) \<Rightarrow> ptr option \<Rightarrow> u8 \<Rightarrow> u16 \<Rightarrow> u16 \<Rightarrow> u32 \<Rightarrow> 'a stack_scheme \<Rightarrow> (u16 \<times> 'a stack_scheme) option" where
  "inet_cksum_pseudo_partial_base addr p proto proto_len chksum_len acc s = do {
     (acc, swapped, s) \<leftarrow> chksum_partial_chain addr s p chksum_len acc False;
     let acc = (if swapped then SWAP_BYTES_IN_WORD acc else acc);
     let acc = acc + ucast (lwip_htons (ucast proto));
     let acc = acc + ucast (lwip_htons proto_len);
     let acc = FOLD_U32T acc;
     let acc = FOLD_U32T acc;
     Some (ucast (NOT (acc AND 0xffff)), s)
   }"

definition inet_chksum_pseudo_partial ::
  "(ptr \<Rightarrow> nat) \<Rightarrow> ptr option \<Rightarrow> u8 \<Rightarrow> u16 \<Rightarrow> u16 \<Rightarrow> u32 \<Rightarrow> u32 \<Rightarrow> 'a stack_scheme
   \<Rightarrow> (u16 \<times> 'a stack_scheme) option" where
  "inet_chksum_pseudo_partial addr p proto proto_len chksum_len src dest s =
     inet_cksum_pseudo_partial_base addr p proto proto_len chksum_len (pseudo_addr src dest) s"

definition ip_chksum_pseudo_partial ::
  "(ptr \<Rightarrow> nat) \<Rightarrow> ptr option \<Rightarrow> u8 \<Rightarrow> u16 \<Rightarrow> u16 \<Rightarrow> u32 \<Rightarrow> u32 \<Rightarrow> 'a stack_scheme
   \<Rightarrow> (u16 \<times> 'a stack_scheme) option" where
  "ip_chksum_pseudo_partial addr p proto proto_len chksum_len src dest s =
     inet_chksum_pseudo_partial addr p proto proto_len chksum_len src dest s"

definition inet_chksum_pbuf :: "(ptr \<Rightarrow> nat) \<Rightarrow> 'a stack_scheme \<Rightarrow> ptr option \<Rightarrow> u16 option" where
  "inet_chksum_pbuf addr s p = do {
     (acc, swapped) \<leftarrow> chksum_chain addr s p 0 False;
     let acc = (if swapped then SWAP_BYTES_IN_WORD acc else acc);
     Some (ucast (NOT (acc AND 0xffff)))
   }"

end
