(* ===== verification/Chksum_Sum.thy ===== *)
theory Chksum_Sum
  imports Inet_Chksum
begin

text \<open>
  One's complement sums, and that each version of \<^verbatim>\<open>lwip_standard_chksum\<close> computes the sum of the
  16-bit words of its data.
\<close>

section \<open>One's complement sums\<close>

text \<open>
  The reference: the sum of the 16-bit words of a sequence of octets, the last one padded with a
  zero octet, and the representative of a sum in one's complement arithmetic: in
  \<open>1..65535\<close> modulo 65535, and 0 only for the sum 0.
\<close>

fun wsum :: "u8 list \<Rightarrow> nat" where
  "wsum [] = 0"
| "wsum [a] = unat a"
| "wsum (a # b # xs) = unat a + 256 * unat b + wsum xs"

definition norm1 :: "nat \<Rightarrow> nat" where
  "norm1 n = (if n = 0 then 0 else if n mod 65535 = 0 then 65535 else n mod 65535)"

definition ceq :: "nat \<Rightarrow> nat \<Rightarrow> bool" where
  "ceq a b \<longleftrightarrow> a mod 65535 = b mod 65535 \<and> (a = 0 \<longleftrightarrow> b = 0)"

lemma norm1_le: "norm1 n \<le> 65535"
  using mod_less_divisor [of 65535 n] by (simp add: norm1_def less_imp_le del: mod_less_divisor)

lemma ceq_norm1: "ceq (norm1 n) n"
  by (auto simp: ceq_def norm1_def)

lemma norm1_cong: "ceq a b \<Longrightarrow> norm1 a = norm1 b"
  by (auto simp: ceq_def norm1_def)

lemma norm1_id: "a \<le> 65535 \<Longrightarrow> norm1 a = a"
  by (cases "a = 65535") (auto simp: norm1_def)

text \<open>A 16-bit value congruent to a sum is its representative.\<close>

lemma norm1_unique: "ceq a n \<Longrightarrow> a \<le> 65535 \<Longrightarrow> a = norm1 n"
  using norm1_cong norm1_id by metis

lemma ceq_refl [simp]: "ceq a a" by (simp add: ceq_def)

lemma ceq_sym: "ceq a b \<Longrightarrow> ceq b a" by (auto simp: ceq_def)

lemma ceq_trans [trans]: "ceq a b \<Longrightarrow> ceq b c \<Longrightarrow> ceq a c" by (auto simp: ceq_def)

lemma ceq_add: "ceq a b \<Longrightarrow> ceq c d \<Longrightarrow> ceq (a + c) (b + d)"
  by (auto simp: ceq_def intro: mod_add_cong)

lemma ceq_mult: "ceq a b \<Longrightarrow> ceq (k * a) (k * b)"
  by (auto simp: ceq_def intro: mod_mult_cong)

lemma ceq_65536: "ceq (65536 * a) a"
proof -
  have "65536 * a = a + a * 65535" by simp
  then have "65536 * a mod 65535 = a mod 65535" by (simp only: mod_mult_self1)
  then show ?thesis by (simp add: ceq_def)
qed

text \<open>Moving all octets by one position multiplies the sum by 256.\<close>

lemma wsum_shift: "ceq (wsum (a # xs)) (unat a + 256 * wsum xs)"
proof (induction xs arbitrary: a)
  case (Cons b xs)
  have "ceq (256 * wsum (b # xs)) (256 * (unat b + 256 * wsum xs))" by (rule ceq_mult [OF Cons.IH])
  also have "256 * (unat b + 256 * wsum xs) = 256 * unat b + 65536 * wsum xs" by simp
  also have "ceq \<dots> (256 * unat b + wsum xs)" by (rule ceq_add [OF ceq_refl ceq_65536])
  finally have "ceq (unat a + 256 * wsum (b # xs)) (unat a + (256 * unat b + wsum xs))" by (rule ceq_add [OF ceq_refl])
  then show ?case by (simp add: ceq_sym add.assoc)
qed simp

lemma wsum_append:
  "ceq (wsum (xs @ ys)) (wsum xs + (if even (length xs) then wsum ys else 256 * wsum ys))"
proof (induction xs rule: wsum.induct)
  case (2 a)
  then show ?case using wsum_shift [of a ys] by simp
next
  case (3 a b xs)
  then show ?case using ceq_add [OF ceq_refl, of _ _ "unat a + 256 * unat b"] by (simp add: add.assoc)
qed simp

lemma wsum_append_even: "even (length xs) \<Longrightarrow> wsum (xs @ ys) = wsum xs + wsum ys"
  by (induction xs rule: wsum.induct) auto

lemma wsum_le: "wsum xs \<le> 65535 * ((length xs + 1) div 2)"
proof (induction xs rule: wsum.induct)
  case (2 a)
  then show ?case using unat_u8_less [of a] by (simp del: unat_u8_less)
next
  case (3 a b xs)
  then show ?case using unat_u8_less [of a] unat_u8_less [of b] by (simp del: unat_u8_less)
qed simp

section \<open>Folding and swapping\<close>

lemma unat_parts:
  "unat (u AND 0xffff :: u32) = unat u mod 65536" "unat (drop_bit 16 u :: u32) = unat u div 65536"
  "unat (u AND 0xff :: u32) = unat u mod 256" "unat (drop_bit 8 u :: u32) = unat u div 256"
  by (simp_all only: masks flip: take_bit_eq_mask) (simp_all add: take_bit_eq_mod drop_bit_eq_div unat_div unat_mod)

lemma unat_fold: "unat (FOLD_U32T u) = unat u div 65536 + unat u mod 65536"
proof -
  have "unat u < 4294967296" using unsigned_less [of u, where 'a = nat] by simp
  then have "unat u div 65536 < 65536" by (simp add: less_mult_imp_div_less)
  moreover have "unat u mod 65536 < 65536" by simp
  ultimately show ?thesis unfolding FOLD_U32T_def by (simp add: unat_word_ariths unat_parts)
qed

lemma ceq_fold: "ceq (unat (FOLD_U32T u)) (unat u)"
proof -
  have "unat u = 65536 * (unat u div 65536) + unat u mod 65536" by simp
  moreover have "ceq (65536 * (unat u div 65536) + unat u mod 65536) (unat u div 65536 + unat u mod 65536)"
    by (rule ceq_add [OF ceq_65536 ceq_refl])
  ultimately show ?thesis by (metis unat_fold ceq_sym)
qed

lemma fold_once: "unat u \<le> 131070 \<Longrightarrow> unat (FOLD_U32T u) \<le> 65535"
  unfolding unat_fold by (cases "unat u < 65536") (simp_all add: le_div_geq le_mod_geq)

lemma fold_twice: "unat (FOLD_U32T (FOLD_U32T u)) = norm1 (unat u)"
proof (rule norm1_unique)
  show "ceq (unat (FOLD_U32T (FOLD_U32T u))) (unat u)" using ceq_fold ceq_trans by blast
  have "unat u < 4294967296" using unsigned_less [of u, where 'a = nat] by simp
  then have "unat u div 65536 < 65536" by (simp add: less_mult_imp_div_less)
  moreover have "unat u mod 65536 < 65536" by simp
  ultimately have "unat (FOLD_U32T u) \<le> 131070" unfolding unat_fold by linarith
  then show "unat (FOLD_U32T (FOLD_U32T u)) \<le> 65535" by (rule fold_once)
qed

lemma swap_htons: "SWAP_BYTES_IN_WORD (ucast x) = ucast (lwip_htons x)"
  unfolding SWAP_BYTES_IN_WORD_def lwip_htons_def masks high16
  by (rule bit_word_eqI) (auto simp: bit_simps dest: bit_imp_le_length)

lemma unat_u16_u32 [simp]: "unat (ucast (y :: u16) :: u32) = unat y"
  using unat_u16_less [of y] by (simp add: unsigned_ucast_eq take_bit_nat_eq_self del: unat_u16_less)

lemma unat_u8_u16 [simp]: "unat (ucast (y :: u8) :: u16) = unat y"
  using unat_u8_less [of y] by (simp add: unsigned_ucast_eq take_bit_nat_eq_self del: unat_u8_less)

lemma unat_u32_u16: "unat w \<le> 65535 \<Longrightarrow> unat (ucast (w :: u32) :: u16) = unat w"
  by (simp add: unsigned_ucast_eq take_bit_nat_eq_self)

lemma unat_swap:
  assumes "unat w \<le> 65535"
  shows "unat (SWAP_BYTES_IN_WORD w) = 256 * (unat w mod 256) + unat w div 256"
proof -
  define x where "x = (ucast w :: u16)"
  have x: "unat x = unat w" unfolding x_def by (rule unat_u32_u16 [OF assms])
  then have "w = ucast x" by (metis unat_u16_u32 word_unat_eq_iff)
  with swap_htons [of x] have "SWAP_BYTES_IN_WORD w = ucast (lwip_htons x)" by metis
  then show ?thesis by (simp add: unat_htons x)
qed

lemma ceq_swap:
  assumes "unat w \<le> 65535"
  shows "ceq (unat (SWAP_BYTES_IN_WORD w)) (256 * unat w)" "unat (SWAP_BYTES_IN_WORD w) \<le> 65535"
proof -
  have "256 * unat w = 65536 * (unat w div 256) + 256 * (unat w mod 256)"
    using mult_div_mod_eq [of 256 "unat w"] by linarith
  also have "ceq \<dots> (unat w div 256 + 256 * (unat w mod 256))" by (rule ceq_add [OF ceq_65536 ceq_refl])
  finally show "ceq (unat (SWAP_BYTES_IN_WORD w)) (256 * unat w)"
    using unat_swap [OF assms] by (simp add: ceq_sym add.commute)
  have "unat w div 256 < 256" "unat w mod 256 < 256" using assms by auto
  then show "unat (SWAP_BYTES_IN_WORD w) \<le> 65535" unfolding unat_swap [OF assms] by linarith
qed

section \<open>The three algorithms\<close>

lemma mem_read_2: "mem_read m p (Suc (Suc n)) = m p # m (ptr_add p 1) # mem_read m (ptr_add p 2) n"
  using mem_read_add [of m p 2 n] by (simp add: mem_read_def upt_rec [of 0 2] upt_rec [of 1 2] numeral_2_eq_2)

lemma unat_get16: "unat (get16 m p) = unat (m p) + 256 * unat (m (ptr_add p 1))"
  by (simp add: get16_def unat_le16)

lemma unat32_add: "unat a + unat b < 4294967296 \<Longrightarrow> unat (a + b :: u32) = unat a + unat b"
  by (simp add: unat_word_ariths)

text \<open>What a loop that adds 16-bit words leaves: the address and number of the octets not added.\<close>

lemma chksum2_loop_ok:
  assumes "unat acc + wsum (mem_read m p n) < 4294967296"
  shows "\<exists>acc'. chksum2_loop m p (int n) acc = (ptr_add p (int (n - n mod 2)), int (n mod 2), acc') \<and>
    unat acc' = unat acc + wsum (mem_read m p (n - n mod 2))"
  using assms
proof (induction n arbitrary: p acc rule: induct_nat_012)
  case (ge2 n)
  let ?w = "ucast (get16 m p) :: u32"
  have w: "unat (acc + ?w) = unat acc + unat (get16 m p)"
    using ge2.prems by (intro trans [OF unat32_add]) (simp_all add: mem_read_2 unat_get16)
  have "unat (acc + ?w) + wsum (mem_read m (ptr_add p 2) n) < 4294967296"
    using ge2.prems w by (simp add: mem_read_2 unat_get16)
  from ge2.IH(1) [OF this] obtain acc' where
    a: "chksum2_loop m (ptr_add p 2) (int n) (acc + ?w) = (ptr_add (ptr_add p 2) (int (n - n mod 2)), int (n mod 2), acc')"
    "unat acc' = unat (acc + ?w) + wsum (mem_read m (ptr_add p 2) (n - n mod 2))" by blast
  have "Suc (Suc n) - n mod 2 = Suc (Suc (n - n mod 2))" by (simp add: Suc_diff_le)
  with a w show ?case
    by (subst chksum2_loop.simps) (simp add: mem_read_2 unat_get16 add.assoc)
qed (simp_all add: chksum2_loop.simps)

lemma wsum_tail:
  "wsum (mem_read m p n) = wsum (mem_read m p (n - n mod 2)) +
     (if n mod 2 = 1 then unat (m (ptr_add p (int (n - 1)))) else 0)"
proof (cases "n mod 2 = 1")
  case True
  then have n: "n = (n - 1) + 1" "even (n - 1)" by (auto elim: oddE)
  then have "mem_read m p n = mem_read m p (n - 1) @ [m (ptr_add p (int (n - 1)))]"
    by (metis mem_read_add mem_read_1 One_nat_def)
  then show ?thesis using True n by (simp add: wsum_append_even)
qed (auto simp: not_mod_2_eq_1_eq_0)

lemma set_octet_0: "unat (set_octet 0 v t) = unat v + 256 * (unat t div 256)"
proof -
  have "set_octet 0 v t = le16 v (ucast (drop_bit 8 t))"
    unfolding set_octet_def le16_def high16
    by (rule bit_word_eqI) (auto simp: bit_simps dest: bit_imp_le_length)
  moreover have "unat (ucast (drop_bit 8 t) :: u8) = unat t div 256"
  proof -
    have "unat (drop_bit 8 t) = unat t div 256" by (simp add: drop_bit_eq_div unat_div)
    moreover have "unat t div 256 < 256" by (simp add: less_mult_imp_div_less)
    ultimately show ?thesis by (simp add: unsigned_ucast_eq take_bit_nat_eq_self)
  qed
  ultimately show ?thesis by (simp add: unat_le16)
qed

lemma set_octet_1: "unat (set_octet 1 v 0) = 256 * unat v"
proof -
  have "set_octet 1 v 0 = le16 0 v" by (simp add: set_octet_def le16_def)
  then show ?thesis by (simp add: unat_le16)
qed

text \<open>The common end of algorithms 2 and 3: the last octet, the octet \<open>t\<close>, and the two folds.\<close>

definition chksum_end :: "octets \<Rightarrow> ptr \<Rightarrow> int \<Rightarrow> u32 \<Rightarrow> u16 \<Rightarrow> u32" where
  "chksum_end m q len sm t = (case chksum2_loop m q len sm of (ps, len, sm) \<Rightarrow>
     FOLD_U32T (FOLD_U32T (sm + ucast (if len > 0 then set_octet 0 (m ps) t else t))))"

lemma chksum_end_ok:
  assumes "unat sm + wsum (mem_read m q n) + 65535 < 4294967296" "unat t mod 256 = 0"
  shows "unat (chksum_end m q (int n) sm t) = norm1 (unat sm + wsum (mem_read m q n) + unat t)"
proof -
  from assms(1) have "unat sm + wsum (mem_read m q n) < 4294967296" by simp
  from chksum2_loop_ok [OF this] obtain a where
    a: "chksum2_loop m q (int n) sm = (ptr_add q (int (n - n mod 2)), int (n mod 2), a)"
    "unat a = unat sm + wsum (mem_read m q (n - n mod 2))" by blast
  define t' where "t' = (if int (n mod 2) > 0 then set_octet 0 (m (ptr_add q (int (n - n mod 2)))) t else t)"
  have t': "unat t' = (if n mod 2 = 1 then unat (m (ptr_add q (int (n - 1)))) else 0) + unat t"
    using assms(2) mult_div_mod_eq [of 256 "unat t"] by (auto simp: t'_def set_octet_0 not_mod_2_eq_1_eq_0)
  have s: "unat a + unat t' = unat sm + wsum (mem_read m q n) + unat t"
    using a(2) t' wsum_tail [of m q n] by simp
  have "unat a \<le> unat sm + wsum (mem_read m q n)" using a(2) wsum_tail [of m q n] by simp
  then have "unat (a + ucast t') = unat a + unat t'"
    using assms(1) unat_u16_less [of t'] by (intro trans [OF unat32_add]) (simp_all del: unat_u16_less)
  moreover have "chksum_end m q (int n) sm t = FOLD_U32T (FOLD_U32T (a + ucast t'))"
    by (simp only: chksum_end_def a(1) prod.case t'_def)
  ultimately show ?thesis using s by (simp add: fold_twice)
qed

lemma wsum_small:
  assumes "n \<le> 65535"
  shows "wsum (mem_read m p n) \<le> 2147450880"
proof -
  have "(n + 1) div 2 \<le> 32768" using assms by linarith
  then show ?thesis using wsum_le [of "mem_read m p n"] by simp
qed

definition final16 :: "bool \<Rightarrow> u32 \<Rightarrow> u16" where
  "final16 sw sm = ucast (if sw then SWAP_BYTES_IN_WORD sm else sm)"

lemma final16_ok:
  assumes "unat sm = norm1 a" "ceq b (if sw then 256 * a else a)"
  shows "unat (final16 sw sm) = norm1 b"
proof -
  have le: "unat sm \<le> 65535" using assms(1) norm1_le by simp
  have c: "ceq (unat sm) a" using assms(1) ceq_norm1 by simp
  show ?thesis
  proof (cases sw)
    case True
    with assms(2) have b: "ceq (256 * a) b" by (simp add: ceq_sym)
    have "ceq (unat (SWAP_BYTES_IN_WORD sm)) b"
      by (rule ceq_trans [OF ceq_trans [OF ceq_swap(1) [OF le] ceq_mult [OF c]] b])
    from norm1_unique [OF this ceq_swap(2) [OF le]] True ceq_swap(2) [OF le] show ?thesis
      by (simp add: final16_def unat_u32_u16)
  next
    case False
    with assms(2) have b: "ceq a b" by (simp add: ceq_sym)
    from norm1_unique [OF ceq_trans [OF c b] le] False le show ?thesis
      by (simp add: final16_def unat_u32_u16)
  qed
qed

lemma mem_read_Suc: "mem_read m p (Suc n) = m p # mem_read m (ptr_add p 1) n"
  using mem_read_add [of m p 1 n] by (simp add: mem_read_1)

text \<open>
  Algorithms 2 and 3 start at an even address: an octet in front of it goes into the high half of
  \<open>t\<close>, and the result is swapped at the end. \<open>rest\<close> is what they compute from there on.
\<close>

lemma parity_ok:
  assumes rest: "\<And>q k t. k \<le> n \<Longrightarrow> unat t mod 256 = 0 \<Longrightarrow>
      unat (rest q (int k) t) = norm1 (wsum (mem_read m q k) + unat t)"
  shows "unat (if a \<and> int n > 0 then final16 True (rest (ptr_add p 1) (int n - 1) (set_octet 1 (m p) 0))
      else final16 a (rest p (int n) 0)) = norm1 (wsum (mem_read m p n))"
proof (cases "a \<and> n > 0")
  case True
  then obtain k where k: "n = Suc k" by (cases n) auto
  let ?t = "set_octet 1 (m p) 0"
  have r: "unat (rest (ptr_add p 1) (int k) ?t) = norm1 (wsum (mem_read m (ptr_add p 1) k) + 256 * unat (m p))"
    using rest [of k ?t] k set_octet_1 [of "m p"] by simp
  have "ceq (wsum (mem_read m p n)) (unat (m p) + 256 * wsum (mem_read m (ptr_add p 1) k))"
    using wsum_shift by (simp add: k mem_read_Suc)
  also have "ceq \<dots> (65536 * unat (m p) + 256 * wsum (mem_read m (ptr_add p 1) k))"
    by (rule ceq_add [OF ceq_sym [OF ceq_65536] ceq_refl])
  finally have "unat (final16 True (rest (ptr_add p 1) (int k) ?t)) = norm1 (wsum (mem_read m p n))"
    by (intro final16_ok [OF r]) (simp add: algebra_simps)
  with True k show ?thesis by simp
next
  case False
  have e: "unat (rest p (int n) 0) = norm1 (wsum (mem_read m p n))" using rest [of n 0] by simp
  have "unat (final16 a (rest p (int n) 0)) = norm1 (wsum (mem_read m p n))"
    using False by (intro final16_ok [OF e]) auto
  with False show ?thesis by auto
qed

lemma chksum2_eq:
  "lwip_standard_chksum addr m p len =
     (if addr p mod 2 = 1 \<and> len > 0
      then final16 True (chksum_end m (ptr_add p 1) (len - 1) 0 (set_octet 1 (m p) 0))
      else final16 (addr p mod 2 = 1) (chksum_end m p len 0 0))"
  by (simp add: lwip_standard_chksum_def chksum_end_def final16_def Let_def split: prod.split)

lemma chksum2_ok:
  assumes "n \<le> 65535"
  shows "unat (lwip_standard_chksum addr m p (int n)) = norm1 (wsum (mem_read m p n))"
  unfolding chksum2_eq
proof (rule parity_ok)
  fix q k and t :: u16 assume "k \<le> n" "unat t mod 256 = 0"
  then show "unat (chksum_end m q (int k) 0 t) = norm1 (wsum (mem_read m q k) + unat t)"
    using chksum_end_ok [of 0 m q k t] wsum_small [of k m q] assms by simp
qed

subsection \<open>Algorithm 1\<close>

fun bsum :: "u8 list \<Rightarrow> nat" where
  "bsum [] = 0"
| "bsum [a] = 256 * unat a"
| "bsum (a # b # xs) = 256 * unat a + unat b + bsum xs"

lemma bsum_wsum: "ceq (bsum xs) (256 * wsum xs)"
proof (induction xs rule: bsum.induct)
  case (3 a b xs)
  have "ceq (256 * unat a + (unat b + bsum xs)) (256 * unat a + (65536 * unat b + 256 * wsum xs))"
    by (intro ceq_add ceq_refl 3 ceq_sym [OF ceq_65536])
  then show ?case by (simp add: algebra_simps)
qed simp_all

lemma bsum_le: "bsum xs \<le> 65535 * ((length xs + 1) div 2)"
proof (induction xs rule: bsum.induct)
  case (2 a)
  then show ?case using unat_u8_less [of a] by (simp del: unat_u8_less)
next
  case (3 a b xs)
  then show ?case using unat_u8_less [of a] unat_u8_less [of b] by (simp del: unat_u8_less)
qed simp

lemma unat_be16:
  fixes a b :: u8
  shows "unat (push_bit 8 (ucast a) OR ucast b :: u16) = 256 * unat a + unat b"
proof -
  have "push_bit 8 (ucast a) OR ucast b = le16 b a" by (simp add: le16_def or.commute)
  then show ?thesis by (simp add: unat_le16)
qed

lemma unat_push8: "unat (push_bit 8 (ucast (a :: u8)) :: u16) = 256 * unat a"
  using unat_be16 [of a 0] by simp

lemma chksum1_loop_ok:
  assumes "unat acc + bsum (mem_read m p n) < 4294967296"
  shows "\<exists>q k acc'. chksum1_loop m p (int n) acc = (q, k, acc') \<and>
    unat acc' + (if k > 0 then 256 * unat (m q) else 0) = unat acc + bsum (mem_read m p n)"
  using assms
proof (induction n arbitrary: p acc rule: induct_nat_012)
  case (ge2 n)
  let ?w = "push_bit 8 (ucast (m p)) OR ucast (m (ptr_add p 1)) :: u16"
  have w: "unat (acc + ucast ?w) = unat acc + unat ?w"
    using ge2.prems by (intro trans [OF unat32_add]) (simp_all add: mem_read_2 unat_be16)
  have "unat (acc + ucast ?w) + bsum (mem_read m (ptr_add p 2) n) < 4294967296"
    using ge2.prems w by (simp add: mem_read_2 unat_be16)
  from ge2.IH(1) [OF this] obtain q k acc' where
    a: "chksum1_loop m (ptr_add p 2) (int n) (acc + ucast ?w) = (q, k, acc')"
    "unat acc' + (if k > 0 then 256 * unat (m q) else 0) = unat (acc + ucast ?w) + bsum (mem_read m (ptr_add p 2) n)"
    by blast
  with w show ?case by (subst chksum1_loop.simps) (simp add: mem_read_2 unat_be16)
qed (simp_all add: chksum1_loop.simps mem_read_1)

lemma fold_if:
  assumes "unat u \<le> 131070"
  shows "unat (if u AND 0xffff0000 \<noteq> 0 then FOLD_U32T u else u) = norm1 (unat u)"
proof -
  have "u AND 0xffff0000 = 0 \<longleftrightarrow> unat u \<le> 65535"
  proof -
    have "(0xffff0000 :: u32) = NOT (mask 16)" by (simp add: mask_eq_exp_minus_1)
    then have "u AND 0xffff0000 = 0 \<longleftrightarrow> take_bit 16 u = u"
      by (auto simp: bit_eq_iff bit_simps)
    also have "\<dots> \<longleftrightarrow> unat u mod 65536 = unat u"
      using unat_parts(1) [of u] by (simp add: word_unat_eq_iff masks take_bit_eq_mask)
    also have "\<dots> \<longleftrightarrow> unat u \<le> 65535" using mod_less_divisor [of 65536 "unat u"] by (auto simp del: mod_less_divisor)
    finally show ?thesis .
  qed
  then show ?thesis
    using norm1_unique [OF ceq_fold fold_once [OF assms]] norm1_id by simp
qed

lemma swap_ucast: "unat w \<le> 65535 \<Longrightarrow> ucast (SWAP_BYTES_IN_WORD w) = lwip_htons (ucast w)"
  using ceq_swap(2) [of w] by (simp add: word_unat_eq_iff unat_htons unat_u32_u16 unat_swap)

lemma chksum1_ok:
  assumes "n \<le> 65535"
  shows "unat (lwip_standard_chksum1 m p (int n)) = norm1 (wsum (mem_read m p n))"
proof -
  have "(n + 1) div 2 \<le> 32768" using assms by linarith
  then have small: "bsum (mem_read m p n) \<le> 2147450880" using bsum_le [of "mem_read m p n"] by simp
  obtain q k acc where l: "chksum1_loop m p (int n) 0 = (q, k, acc)"
    "unat acc + (if k > 0 then 256 * unat (m q) else 0) = bsum (mem_read m p n)"
    using chksum1_loop_ok [of 0 m p n] small by auto
  define a where "a = (if k > 0 then acc + ucast (push_bit 8 (ucast (m q)) :: u16) else acc)"
  have a: "unat a = bsum (mem_read m p n)"
    using l(2) small by (auto simp: a_def unat_push8 intro: trans [OF unat32_add] split: if_splits)
  let ?f = "if FOLD_U32T a AND 0xffff0000 \<noteq> 0 then FOLD_U32T (FOLD_U32T a) else FOLD_U32T a"
  have "unat a < 4294967296" using a small by simp
  then have f1: "unat (FOLD_U32T a) \<le> 131070"
    unfolding unat_fold using mod_less_divisor [of 65536 "unat a"] less_mult_imp_div_less [of "unat a" 65536 65536] by simp
  have "unat ?f = norm1 (unat (FOLD_U32T a))" by (rule fold_if [OF f1])
  also have "\<dots> = norm1 (bsum (mem_read m p n))" using norm1_cong [OF ceq_fold [of a]] a by simp
  also have "\<dots> = norm1 (256 * wsum (mem_read m p n))" by (rule norm1_cong [OF bsum_wsum])
  finally have f: "unat ?f = norm1 (256 * wsum (mem_read m p n))" .
  have "lwip_standard_chksum1 m p (int n) = lwip_htons (ucast ?f)"
    by (simp add: lwip_standard_chksum1_def l(1) Let_def a_def FOLD_U32T_def)
  moreover have "unat (lwip_htons (ucast ?f)) = unat (final16 True ?f)"
    using swap_ucast [of ?f] f norm1_le by (simp add: final16_def)
  moreover have "unat (final16 True ?f) = norm1 (wsum (mem_read m p n))"
    by (rule final16_ok [OF f]) (simp add: ceq_sym [OF ceq_65536])
  ultimately show ?thesis by simp
qed

subsection \<open>Algorithm 3\<close>

lemma ceq_step: "0 < b \<Longrightarrow> ceq b (b + k * 65535)"
  unfolding ceq_def mod_mult_self1 by simp

lemma ceq_carry: "ceq (unat (add_carry s x)) (unat s + unat x)"
proof -
  have l: "unat s < 4294967296" "unat x < 4294967296"
    using unsigned_less [of s, where 'a = nat] unsigned_less [of x, where 'a = nat] by simp_all
  show ?thesis
  proof (cases "unat s + unat x < 4294967296")
    case True
    then have "unat (s + x) = unat s + unat x" by (rule unat32_add)
    then show ?thesis by (simp add: add_carry_def word_less_nat_alt)
  next
    case False
    then have e: "unat (s + x) = unat s + unat x - 4294967296"
      using l by (simp add: unat_word_ariths le_mod_geq)
    then have "unat (s + x) < unat s" "unat (s + x) + 1 < 4294967296" using l False by linarith+
    then have lt: "s + x < s" and "unat (s + x + 1) = unat (s + x) + 1"
      by (simp_all add: word_less_nat_alt unat32_add)
    then have "unat (add_carry s x) = unat s + unat x - 4294967295" using lt e False by (simp add: add_carry_def)
    moreover have "ceq (unat s + unat x - 4294967295) ((unat s + unat x - 4294967295) + 65537 * 65535)"
      using False by (intro ceq_step) linarith
    moreover have "(unat s + unat x - 4294967295) + 65537 * 65535 = unat s + unat x" using False by linarith
    ultimately show ?thesis by (simp only:)
  qed
qed

lemma pack32_16: "pack32 a b c d = ucast (le16 a b) + push_bit 16 (ucast (le16 c d))"
proof -
  have "pack32 a b c d = ucast (le16 a b) OR push_bit 16 (ucast (le16 c d))"
    unfolding pack32_def le16_def by (rule bytes32) (auto simp: bit_simps dest: bit_u8)
  also have "\<dots> = ucast (le16 a b) + push_bit 16 (ucast (le16 c d))"
    by (rule disjunctive_add [symmetric]) (auto simp: bit_simps dest: bit_imp_le_length)
  finally show ?thesis .
qed

lemma unat_get32: "unat (get32 m p) = unat (get16 m p) + 65536 * unat (get16 m (ptr_add p 2))"
proof -
  let ?a = "get16 m p" and ?b = "get16 m (ptr_add p 2)"
  have b: "unat (push_bit 16 (ucast ?b) :: u32) = 65536 * unat ?b"
    using unat_u16_less [of ?b] by (simp add: push_bit_eq_mult unat_word_ariths del: unat_u16_less)
  have "get32 m p = ucast ?a + push_bit 16 (ucast ?b)" by (simp add: get32_def get16_def pack32_16)
  moreover have "unat (ucast ?a :: u32) + unat (push_bit 16 (ucast ?b) :: u32) < 4294967296"
    using unat_u16_less [of ?a] unat_u16_less [of ?b] unfolding b by (simp del: unat_u16_less)
  ultimately show ?thesis using unat32_add b by simp
qed

lemma ceq_get32: "ceq (unat (get32 m p)) (wsum (mem_read m p 4))"
proof -
  have "mem_read m p 4 = [m p, m (ptr_add p 1), m (ptr_add p 2), m (ptr_add p 3)]"
    using mem_read_2 [of m p 2] mem_read_2 [of m "ptr_add p 2" 0] by (simp add: numeral_eq_Suc)
  then have "wsum (mem_read m p 4) = unat (get16 m p) + unat (get16 m (ptr_add p 2))" by (simp add: unat_get16)
  then show ?thesis unfolding unat_get32 by (simp add: ceq_add ceq_65536)
qed

lemma chksum3_loop_ok:
  "\<exists>acc'. chksum3_loop m p (int n) acc = (ptr_add p (int (n - n mod 8)), int (n mod 8), acc') \<and>
    ceq (unat acc') (unat acc + wsum (mem_read m p (n - n mod 8)))"
proof (induction n arbitrary: p acc rule: less_induct)
  case (less n)
  show ?case
  proof (cases "n < 8")
    case True
    then show ?thesis by (subst chksum3_loop.simps) simp
  next
    case False
    define k where "k = n - 8"
    have n: "n = k + 8" using False by (simp add: k_def)
    let ?a = "add_carry (add_carry acc (get32 m p)) (get32 m (ptr_add p 4))"
    obtain acc' where a: "chksum3_loop m (ptr_add p 8) (int k) ?a = (ptr_add (ptr_add p 8) (int (k - k mod 8)), int (k mod 8), acc')"
      "ceq (unat acc') (unat ?a + wsum (mem_read m (ptr_add p 8) (k - k mod 8)))"
      using less.IH [of k "ptr_add p 8" ?a] n by auto
    have c: "ceq (unat ?a) (unat acc + wsum (mem_read m p 4) + wsum (mem_read m (ptr_add p 4) 4))"
      by (intro ceq_trans [OF ceq_carry] ceq_add ceq_get32 ceq_refl)
    have "mem_read m p (8 + (k - k mod 8)) =
        mem_read m p 4 @ mem_read m (ptr_add p 4) 4 @ mem_read m (ptr_add p 8) (k - k mod 8)"
      using mem_read_add [of m p 4 "4 + (k - k mod 8)"] mem_read_add [of m "ptr_add p 4" 4 "k - k mod 8"] by simp
    then have w: "wsum (mem_read m p (n - n mod 8)) = wsum (mem_read m p 4) + wsum (mem_read m (ptr_add p 4) 4) +
        wsum (mem_read m (ptr_add p 8) (k - k mod 8))"
      using n by (simp add: wsum_append_even add.commute [of 8 k])
    have "ceq (unat acc') (unat acc + wsum (mem_read m p (n - n mod 8)))"
      using ceq_trans [OF a(2) ceq_add [OF c ceq_refl]] unfolding w by (simp only: add.assoc)
    moreover have "chksum3_loop m p (int n) acc = chksum3_loop m (ptr_add p 8) (int k) ?a"
      using n by (subst chksum3_loop.simps) simp
    ultimately show ?thesis using a(1) n by (intro exI [of _ acc']) (simp add: algebra_simps)
  qed
qed

definition chksum3_rest :: "(ptr \<Rightarrow> nat) \<Rightarrow> octets \<Rightarrow> ptr \<Rightarrow> int \<Rightarrow> u16 \<Rightarrow> u32" where
  "chksum3_rest addr m q len t =
     (let (ps, len, sm) = (if addr q mod 4 \<noteq> 0 \<and> len > 1 then (ptr_add q 2, len - 2, ucast (get16 m q)) else (q, len, 0));
          (pl, len, sm) = chksum3_loop m ps len sm
      in chksum_end m pl len (FOLD_U32T sm) t)"

lemma chksum3_eq:
  "lwip_standard_chksum3 addr m p len =
     (if addr p mod 2 = 1 \<and> len > 0
      then final16 True (chksum3_rest addr m (ptr_add p 1) (len - 1) (set_octet 1 (m p) 0))
      else final16 (addr p mod 2 = 1) (chksum3_rest addr m p len 0))"
  unfolding lwip_standard_chksum3_def chksum3_rest_def chksum_end_def final16_def Let_def case_prod_beta
  by (cases "addr p mod 2 = 1 \<and> len > 0") (simp_all only: if_True if_False fst_conv snd_conv simp_thms split: if_split)

lemma chksum3_rest_ok:
  assumes "n \<le> 65535" "unat t mod 256 = 0"
  shows "unat (chksum3_rest addr m q (int n) t) = norm1 (wsum (mem_read m q n) + unat t)"
proof -
  obtain q' k and sm :: u32 where q': "(if addr q mod 4 \<noteq> 0 \<and> int n > 1 then (ptr_add q 2, int n - 2, ucast (get16 m q))
      else (q, int n, 0)) = (q', int k, sm)" and k: "k \<le> n" and sm: "unat sm + wsum (mem_read m q' k) = wsum (mem_read m q n)"
  proof (cases "addr q mod 4 \<noteq> 0 \<and> int n > 1")
    case True
    then have "n = Suc (Suc (n - 2))" by linarith
    then obtain k where "n = Suc (Suc k)" ..
    with True show ?thesis by (intro that [of "ptr_add q 2" k "ucast (get16 m q)"]) (simp_all add: mem_read_2 unat_get16)
  next
    case False
    then show ?thesis by (intro that [of q n 0]) simp_all
  qed
  let ?e = "k - k mod 8"
  obtain sm' where l: "chksum3_loop m q' (int k) sm = (ptr_add q' (int ?e), int (k mod 8), sm')"
    "ceq (unat sm') (unat sm + wsum (mem_read m q' ?e))" using chksum3_loop_ok by blast
  have ev: "even ?e" by (simp add: minus_mod_eq_mult_div)
  have split: "wsum (mem_read m q' k) = wsum (mem_read m q' ?e) + wsum (mem_read m (ptr_add q' (int ?e)) (k mod 8))"
    using mem_read_add [of m q' ?e "k mod 8"] wsum_append_even [of "mem_read m q' ?e"] ev by simp
  let ?r = "wsum (mem_read m (ptr_add q' (int ?e)) (k mod 8))"
  have "unat (FOLD_U32T sm') \<le> 131070"
    unfolding unat_fold using mod_less_divisor [of 65536 "unat sm'"] unsigned_less [of sm', where 'a = nat]
      less_mult_imp_div_less [of "unat sm'" 65536 65536] by simp
  then have "unat (chksum_end m (ptr_add q' (int ?e)) (int (k mod 8)) (FOLD_U32T sm') t) = norm1 (unat (FOLD_U32T sm') + ?r + unat t)"
    using wsum_small [of "k mod 8" m "ptr_add q' (int ?e)"] mod_less_eq_dividend [of k 8] k assms
    by (intro chksum_end_ok) linarith+
  also have "\<dots> = norm1 (wsum (mem_read m q n) + unat t)"
  proof (rule norm1_cong)
    have "ceq (unat (FOLD_U32T sm') + ?r + unat t) (unat sm + wsum (mem_read m q' ?e) + ?r + unat t)"
      by (intro ceq_add ceq_refl ceq_trans [OF ceq_fold l(2)])
    then show "ceq (unat (FOLD_U32T sm') + ?r + unat t) (wsum (mem_read m q n) + unat t)"
      unfolding sm [symmetric] split by (simp only: add.assoc)
  qed
  finally show ?thesis by (simp only: chksum3_rest_def Let_def q' l(1) prod.case)
qed

lemma chksum3_ok:
  assumes "n \<le> 65535"
  shows "unat (lwip_standard_chksum3 addr m p (int n)) = norm1 (wsum (mem_read m p n))"
  unfolding chksum3_eq by (rule parity_ok) (use assms in \<open>auto intro: chksum3_rest_ok\<close>)

end
