(* ===== verification/Chksum_Packet.thy ===== *)
theory Chksum_Packet
  imports Chksum_Sum
begin

text \<open>
  Checksums of packets: the loop over a chain, the pseudo header, and what a receiver computes over
  data that carries its checksum.
\<close>

section \<open>Packets\<close>

text \<open>The checksum that goes with a sum: the complement of its representative.\<close>

definition cks :: "nat \<Rightarrow> u16" where
  "cks n = NOT (of_nat (norm1 n))"

lemma cks_eqI:
  fixes w :: u32
  assumes "ceq (unat w) n" "unat w \<le> 65535"
  shows "ucast (NOT (w AND 0xffff)) = cks n"
proof -
  have "ucast (NOT (w AND 0xffff)) = NOT (ucast w :: u16)"
    unfolding masks by (rule bit_word_eqI) (auto simp: bit_simps)
  moreover have "(ucast w :: u16) = of_nat (norm1 n)"
    using assms norm1_unique [OF assms] by (metis unat_u32_u16 word_of_nat_unat)
  ultimately show ?thesis by (simp add: cks_def)
qed

definition scale :: "bool \<Rightarrow> nat \<Rightarrow> nat" where
  "scale sw n = (if sw then 256 * n else n)"

lemma scale_0 [simp]: "scale sw 0 = 0" by (simp add: scale_def)

lemma scale_scale: "ceq (scale True (scale True n)) n"
  using ceq_65536 [of n] by (simp add: scale_def)

lemma ceq_scale: "ceq a b \<Longrightarrow> ceq (scale sw a) (scale sw b)"
  by (simp add: scale_def ceq_mult)

lemma scale_add: "scale sw (a + b) = scale sw a + scale sw b"
  by (simp add: scale_def)

lemma scale_wsum_append:
  "ceq (scale sw (wsum (xs @ ys))) (scale sw (wsum xs) + scale (sw \<noteq> odd (length xs)) (wsum ys))"
proof -
  have "ceq (scale sw (wsum (xs @ ys))) (scale sw (wsum xs + scale (odd (length xs)) (wsum ys)))"
    using wsum_append [of xs ys] by (intro ceq_scale) (simp add: scale_def split: if_splits)
  also have "ceq \<dots> (scale sw (wsum xs) + scale (sw \<noteq> odd (length xs)) (wsum ys))"
    unfolding scale_add
    by (intro ceq_add ceq_refl) (cases sw; cases "odd (length xs)"; simp add: scale_def ceq_65536)
  finally show ?thesis .
qed

lemma pbuf_chksum_ok:
  assumes "p_payload b = None \<longrightarrow> p_len b = 0" "pb s x = Some b"
  shows "\<exists>c. pbuf_chksum addr (octet s) (p_payload b) (p_len b) = Some c \<and> unat c = norm1 (wsum (pbytes s x))"
proof (cases "p_payload b")
  case None
  then show ?thesis using assms by (simp add: pbuf_chksum_def pbytes_def norm1_def)
next
  case (Some y)
  then show ?thesis using assms(2) chksum2_ok [of "unat (p_len b)" addr "octet s" y] unat_u16_less [of "p_len b"]
    by (simp add: pbuf_chksum_def pbytes_def uint_nat del: unat_u16_less)
qed

text \<open>The loop over a chain keeps the sum of what it has seen, swapped after an odd number of octets.\<close>

lemma chksum_chain_ok:
  assumes "pkt s q xs" "unat acc \<le> 65535" "ceq (unat acc) (scale sw a)"
  shows "\<exists>acc'. chksum_chain addr s q acc sw = Some (acc', sw \<noteq> odd (length (contents s xs))) \<and> unat acc' \<le> 65535 \<and>
    ceq (unat acc') (scale (sw \<noteq> odd (length (contents s xs))) (a + scale sw (wsum (contents s xs))))"
  using assms
proof (induction xs arbitrary: q acc sw a)
  case Nil
  then show ?case by (subst chksum_chain.simps) simp
next
  case (Cons x xs)
  then obtain b where b: "q = Some x" "pb s x = Some b" "p_payload b = None \<longrightarrow> p_len b = 0" "pkt s (p_next b) xs" by auto
  obtain c where c: "pbuf_chksum addr (octet s) (p_payload b) (p_len b) = Some c" "unat c = norm1 (wsum (pbytes s x))"
    using pbuf_chksum_ok [OF b(3,2)] by blast
  have len: "length (pbytes s x) = unat (p_len b)" using length_pbytes [OF Cons.prems(1), of x] b(2) by (simp add: plen_def)
  let ?f = "FOLD_U32T (acc + ucast c)" and ?d = "wsum (pbytes s x)"
  have s: "unat (acc + ucast c) = unat acc + unat c"
    using Cons.prems(2) norm1_le [of ?d] c(2) by (intro trans [OF unat32_add]) simp_all
  have f: "unat ?f \<le> 65535" using Cons.prems(2) norm1_le [of ?d] c(2) s by (intro fold_once) simp
  have "ceq (unat c) ?d" using c(2) ceq_norm1 by simp
  then have "ceq (unat ?f) (scale sw a + ?d)" using ceq_trans [OF ceq_fold] ceq_add [OF Cons.prems(3)] s by metis
  also have "ceq \<dots> (scale sw (a + scale sw ?d))"
    by (cases sw) (simp_all add: scale_def ceq_add ceq_sym [OF ceq_65536])
  finally have cf: "ceq (unat ?f) (scale sw (a + scale sw ?d))" .
  let ?o = "odd (length (pbytes s x))"
  let ?g = "if ?o then SWAP_BYTES_IN_WORD ?f else ?f"
  have g: "unat ?g \<le> 65535" using f ceq_swap(2) [OF f] by simp
  have cg: "ceq (unat ?g) (scale (sw \<noteq> ?o) (a + scale sw ?d))"
  proof (cases ?o)
    case True
    have "ceq (unat ?g) (scale True (scale sw (a + scale sw ?d)))"
      using True ceq_trans [OF ceq_swap(1) [OF f] ceq_mult [OF cf]] by (simp add: scale_def)
    then show ?thesis using True ceq_trans [OF _ scale_scale [of "a + scale sw ?d"]] by (cases sw) (simp_all add: scale_def)
  qed (use cf in simp)
  have step: "chksum_chain addr s q acc sw = chksum_chain addr s (p_next b) ?g (sw \<noteq> ?o)"
    using b(1,2) c(1) len by (subst chksum_chain.simps) (simp add: Let_def odd_iff_mod_2_eq_one)
  obtain acc' where ih: "chksum_chain addr s (p_next b) ?g (sw \<noteq> ?o) = Some (acc', (sw \<noteq> ?o) \<noteq> odd (length (contents s xs)))"
    "unat acc' \<le> 65535" "ceq (unat acc') (scale ((sw \<noteq> ?o) \<noteq> odd (length (contents s xs)))
      (a + scale sw ?d + scale (sw \<noteq> ?o) (wsum (contents s xs))))"
    using Cons.IH [OF b(4) g cg] by blast
  have par: "((sw \<noteq> ?o) \<noteq> odd (length (contents s xs))) = (sw \<noteq> odd (length (contents s (x # xs))))" by auto
  have "ceq (a + scale sw ?d + scale (sw \<noteq> ?o) (wsum (contents s xs))) (a + scale sw (wsum (contents s (x # xs))))"
    using ceq_add [OF ceq_refl ceq_sym [OF scale_wsum_append [of sw "pbytes s x" "contents s xs"]], of a]
    by (simp add: add.assoc)
  from ceq_trans [OF ih(3) [unfolded par] ceq_scale [OF this]] show ?case using ih(1,2) unfolding step par by blast
qed

text \<open>Undoing the last swap leaves the sum of the whole packet.\<close>

lemma unswap:
  assumes "unat acc \<le> 65535" "ceq (unat acc) (scale sw n)"
  defines "g \<equiv> (if sw then SWAP_BYTES_IN_WORD acc else acc)"
  shows "unat g \<le> 65535" "ceq (unat g) n"
proof -
  show "unat g \<le> 65535" using assms(1) ceq_swap(2) [OF assms(1)] by (simp add: g_def)
  show "ceq (unat g) n"
  proof (cases sw)
    case True
    then have "ceq (unat g) (scale True (scale True n))"
      using ceq_trans [OF ceq_swap(1) [OF assms(1)] ceq_mult [OF assms(2)]] by (simp add: g_def scale_def)
    then show ?thesis using ceq_trans [OF _ scale_scale] by blast
  qed (use assms in \<open>simp add: g_def scale_def\<close>)
qed

text \<open>The octets of the pseudo header: both addresses as they stand in memory, protocol and length.\<close>

definition octets_of :: "u32 \<Rightarrow> u8 list" where
  "octets_of w = [ucast w, ucast (drop_bit 8 w), ucast (drop_bit 16 w), ucast (drop_bit 24 w)]"

definition pseudo_header :: "u8 \<Rightarrow> u16 \<Rightarrow> u32 \<Rightarrow> u32 \<Rightarrow> u8 list" where
  "pseudo_header proto proto_len src dest =
     octets_of src @ octets_of dest @ [0, proto, ucast (drop_bit 8 proto_len), ucast proto_len]"

lemma wsum_octets_of: "wsum (octets_of w) = unat (w AND 0xffff) + unat (drop_bit 16 w AND 0xffff)"
proof -
  have m: "n mod 65536 = n mod 256 + 256 * (n div 256 mod 256)" for n :: nat
    using mod_mult2_eq [of n 256 256] by simp
  have d: "n div 16777216 = n div 65536 div 256" for n :: nat by (simp add: div_mult2_eq [symmetric])
  show ?thesis
    by (simp add: octets_of_def unat_parts unsigned_ucast_eq unsigned_drop_bit_eq take_bit_eq_mod drop_bit_eq_div unat_div m d)
qed

lemma wsum_u16: "wsum [ucast (drop_bit 8 x), ucast (x :: u16)] = unat (lwip_htons x)"
  using unat_u16_less [of x] by (simp add: unat_htons unsigned_ucast_eq unsigned_drop_bit_eq take_bit_eq_mod drop_bit_eq_div unat_div
    div_less_dividend less_mult_imp_div_less del: unat_u16_less)

lemma pseudo_addr_ok:
  "unat (pseudo_addr src dest) \<le> 65535" "ceq (unat (pseudo_addr src dest)) (wsum (octets_of src @ octets_of dest))"
proof -
  have le: "unat (x AND 0xffff) \<le> 65535" for x :: u32 by (simp add: unat_parts less_Suc_eq_le [symmetric])
  have s: "unat ((src AND 0xffff) + (drop_bit 16 src AND 0xffff) + (dest AND 0xffff) + (drop_bit 16 dest AND 0xffff)) =
    wsum (octets_of src @ octets_of dest)"
    using le [of src] le [of "drop_bit 16 src"] le [of dest] le [of "drop_bit 16 dest"]
    by (subst wsum_append_even) (simp add: octets_of_def, simp add: wsum_octets_of unat32_add)
  show "unat (pseudo_addr src dest) \<le> 65535" unfolding pseudo_addr_def Let_def fold_twice by (rule norm1_le)
  show "ceq (unat (pseudo_addr src dest)) (wsum (octets_of src @ octets_of dest))"
    unfolding pseudo_addr_def Let_def fold_twice s by (rule ceq_norm1)
qed

lemma inet_cksum_pseudo_base_ok:
  assumes "pkt s p xs" "unat acc \<le> 65535" "ceq (unat acc) a"
  shows "inet_cksum_pseudo_base addr s p proto proto_len acc =
    Some (cks (a + wsum (contents s xs) + wsum [0, proto, ucast (drop_bit 8 proto_len), ucast proto_len]))"
proof -
  let ?o = "odd (length (contents s xs))"
  have "ceq (unat acc) (scale False a)" using assms(3) by (simp add: scale_def)
  from chksum_chain_ok [OF assms(1,2) this, of addr]
  obtain acc' where c: "chksum_chain addr s p acc False = Some (acc', ?o)" "unat acc' \<le> 65535"
    "ceq (unat acc') (scale ?o (a + wsum (contents s xs)))" by (auto simp: scale_def [of False])
  define g where "g = (if ?o then SWAP_BYTES_IN_WORD acc' else acc')"
  have g: "unat g \<le> 65535" "ceq (unat g) (a + wsum (contents s xs))" using unswap [OF c(2,3)] by (simp_all add: g_def)
  let ?h = "g + ucast (lwip_htons (ucast proto)) + ucast (lwip_htons proto_len)"
  have w: "wsum [0, proto, ucast (drop_bit 8 proto_len), ucast proto_len] =
    unat (lwip_htons (ucast proto)) + unat (lwip_htons proto_len)"
    using wsum_u16 [of proto_len] unat_u8_less [of proto]
    by (simp add: unat_htons [of "ucast proto"] del: unat_u8_less)
  have "unat ?h = unat g + unat (lwip_htons (ucast proto)) + unat (lwip_htons proto_len)"
    using g(1) unat_u16_less [of "lwip_htons (ucast proto)"] unat_u16_less [of "lwip_htons proto_len"]
    by (simp add: unat32_add del: unat_u16_less)
  then have "ceq (unat ?h) (a + wsum (contents s xs) + wsum [0, proto, ucast (drop_bit 8 proto_len), ucast proto_len])"
    unfolding w using ceq_add [OF g(2) ceq_refl] by (simp add: add.assoc)
  from ceq_trans [OF ceq_norm1 this] have "ceq (unat (FOLD_U32T (FOLD_U32T ?h)))
    (a + wsum (contents s xs) + wsum [0, proto, ucast (drop_bit 8 proto_len), ucast proto_len])"
    unfolding fold_twice .
  from cks_eqI [OF this] show ?thesis
    unfolding inet_cksum_pseudo_base_def by (simp add: c(1) Let_def g_def fold_twice norm1_le)
qed

text \<open>
  C24. The checksum of a packet with a pseudo header is the Internet checksum of the octets of the
  pseudo header followed by those of the packet, wherever the packet is cut into pbufs and at
  whatever addresses their data lie.
\<close>

theorem inet_chksum_pseudo_contents:
  assumes "pkt s p xs"
  shows "inet_chksum_pseudo addr s p proto proto_len src dest =
    Some (cks (wsum (pseudo_header proto proto_len src dest @ contents s xs)))"
proof -
  have "wsum (pseudo_header proto proto_len src dest @ contents s xs) = wsum (octets_of src @ octets_of dest) +
    wsum (contents s xs) + wsum [0, proto, ucast (drop_bit 8 proto_len), ucast proto_len]"
    by (simp add: pseudo_header_def octets_of_def)
  then show ?thesis
    using inet_cksum_pseudo_base_ok [OF assms pseudo_addr_ok] by (simp add: inet_chksum_pseudo_def)
qed

text \<open>
  C23. The checksum of a packet is that of its contents.
\<close>

theorem inet_chksum_pbuf_contents:
  assumes "pkt s p xs"
  shows "inet_chksum_pbuf addr s p = Some (cks (wsum (contents s xs)))"
proof -
  obtain acc where "chksum_chain addr s p 0 False = Some (acc, odd (length (contents s xs)))" "unat acc \<le> 65535"
    "ceq (unat acc) (scale (odd (length (contents s xs))) (wsum (contents s xs)))"
    using chksum_chain_ok [OF assms, of 0 False 0] by (auto simp: scale_def [of False])
  with cks_eqI [OF unswap(2,1)] show ?thesis unfolding inet_chksum_pbuf_def by (simp add: Let_def)
qed

theorem inet_chksum_pbuf_contents_witness:
  "inet_chksum_pbuf (\<lambda>p. nat (snd p) + 7) two_pbufs (Some (Ext 0, 0)) = Some (cks (wsum [1, 2, 1, 2, 3]))"
  using inet_chksum_pbuf_contents [OF two_pbufs_ok(1)] unfolding two_pbufs_ok(4) by simp

theorem inet_chksum_pseudo_contents_witness:
  "inet_chksum_pseudo (\<lambda>p. nat (snd p) + 7) two_pbufs (Some (Ext 0, 0)) 17 5 0x0100a8c0 0x0200a8c0 =
     Some (cks (wsum [192, 168, 0, 1, 192, 168, 0, 2, 0, 17, 0, 5, 1, 2, 1, 2, 3]))"
  using inet_chksum_pseudo_contents [OF two_pbufs_ok(1), of "\<lambda>p. nat (snd p) + 7" 17 5 "0x0100a8c0" "0x0200a8c0"]
  unfolding two_pbufs_ok(4) by (simp add: pseudo_header_def octets_of_def drop_bit_eq_div)

text \<open>Replacing a 16-bit word at an even distance changes the sum by the difference.\<close>

lemma wsum_word:
  assumes "even k" "k + 2 \<le> n"
  shows "wsum (mem_read m p n) = wsum (mem_read m p k) + unat (get16 m (ptr_add p (int k))) +
    wsum (mem_read m (ptr_add p (int k + 2)) (n - k - 2))"
proof -
  have n: "n = k + Suc (Suc (n - k - 2))" using assms(2) by simp
  show ?thesis
    by (subst n) (simp only: mem_read_add mem_read_2, simp add: wsum_append_even assms(1) unat_get16 add.assoc)
qed

lemma wsum_put16:
  assumes "even k" "k + 2 \<le> n" "get16 m (ptr_add p (int k)) = 0"
  shows "wsum (mem_read (put16 (ptr_add p (int k)) c m) p n) = wsum (mem_read m p n) + unat c"
proof -
  let ?m = "put16 (ptr_add p (int k)) c m"
  have "mem_read ?m p k = mem_read m p k" "mem_read ?m (ptr_add p (int k + 2)) (n - k - 2) = mem_read m (ptr_add p (int k + 2)) (n - k - 2)"
    unfolding put16_def by (rule mem_read_write_apart; simp add: apart_def)+
  then show ?thesis using assms by (simp add: wsum_word)
qed

lemma unat_cks: "unat (cks n) = 65535 - norm1 n"
proof -
  have "unat (of_nat (norm1 n) :: u16) = norm1 n" using norm1_le [of n] by (simp add: unat_of_nat)
  moreover have "NOT w = - 1 - w" for w :: u16 by (simp add: not_eq_complement)
  moreover have "unat (- 1 :: u16) = 65535" by (simp add: unsigned_minus_1_eq_mask mask_eq_exp_minus_1)
  then have "unat (- 1 - w) = 65535 - unat w" for w :: u16
    using unat_u16_less [of w] by (subst unat_sub) (simp_all del: unat_u16_less)
  ultimately show ?thesis by (simp add: cks_def)
qed

lemma cks_complement: "cks (n + unat (cks n)) = 0"
proof -
  have "ceq (n + unat (cks n)) (norm1 n + unat (cks n))" by (rule ceq_add [OF ceq_sym [OF ceq_norm1] ceq_refl])
  then have "norm1 (n + unat (cks n)) = norm1 65535" using norm1_cong norm1_le [of n] by (simp add: unat_cks)
  then show ?thesis by (simp add: cks_def norm1_def)
qed

lemma inet_chksum_ok: "inet_chksum addr m p len = cks (wsum (mem_read m p (unat len)))"
proof -
  have "unat (lwip_standard_chksum addr m p (int (unat len))) = norm1 (wsum (mem_read m p (unat len)))"
    using unat_u16_less [of len] by (intro chksum2_ok) linarith
  then show ?thesis unfolding inet_chksum_def cks_def uint_nat by (metis word_of_nat_unat)
qed

text \<open>
  C25. A header with its checksum field, at an even offset, filled with the checksum computed over
  the header with that field zero passes the test of a receiver, wherever it lies in memory.
\<close>

theorem inet_chksum_verifies:
  assumes "even k" "k + 2 \<le> unat len" "get16 m (ptr_add p (int k)) = 0"
  shows "inet_chksum addr (put16 (ptr_add p (int k)) (inet_chksum addr' m p len) m) p len = 0"
  unfolding inet_chksum_ok wsum_put16 [OF assms] by (rule cks_complement)

theorem inet_chksum_verifies_witness:
  "let m = (\<lambda>_. 0)((Ext 0, 0) := 69, (Ext 0, 9) := 17) in
   inet_chksum (\<lambda>p. 3) (put16 (Ext 0, 10) (inet_chksum (\<lambda>p. 0) m (Ext 0, 0) 20) m) (Ext 0, 0) 20 = 0"
  using inet_chksum_verifies [of 10 20 "(\<lambda>_. 0)((Ext 0, 0) := 69, (Ext 0, 9) := 17)" "(Ext 0, 0)" "\<lambda>p. 3" "\<lambda>p. 0"]
  by (simp add: Let_def ptr_add_def get16_def le16_def)

text \<open>
  C22. The three checksum routines of the file compute the same value, the one's complement sum of
  the 16-bit words of the data, for every length a packet can have and every alignment.
\<close>

theorem chksum_algorithms:
  assumes "n \<le> 65535"
  shows "lwip_standard_chksum addr m p (int n) = of_nat (norm1 (wsum (mem_read m p n))) \<and>
    lwip_standard_chksum1 m p (int n) = lwip_standard_chksum addr m p (int n) \<and>
    lwip_standard_chksum3 addr m p (int n) = lwip_standard_chksum addr m p (int n)"
  using chksum1_ok [OF assms, of m p] chksum2_ok [OF assms, of addr m p] chksum3_ok [OF assms, of addr m p]
  by (metis word_of_nat_unat)

theorem chksum_algorithms_witness:
  "lwip_standard_chksum (\<lambda>p. 1) (\<lambda>p. 255) (Ext 0, 0) 3 = 0x0ff \<and> lwip_standard_chksum1 (\<lambda>p. 255) (Ext 0, 0) 3 = 0xff \<and>
   lwip_standard_chksum3 (\<lambda>p. 1) (\<lambda>p. 255) (Ext 0, 0) 3 = 0xff"
  using chksum_algorithms [of 3 "\<lambda>p. 1" "\<lambda>p. 255" "(Ext 0, 0)"]
  by (simp add: mem_read_def upt_rec norm1_def)

end
