(* ===== verification/Ip4_Addr.thy ===== *)
theory Ip4_Addr
  imports Chksum_Packet
begin

text \<open>
  IPv4 addresses (\<^verbatim>\<open>core/ipv4/ip4_addr.c\<close>, \<^verbatim>\<open>ip4_addr.h\<close>): the predicates on addresses and
  netmasks, and the conversion from and to text, with the data of \<^verbatim>\<open>struct netif\<close>. The lemmas show
  which netmasks are accepted and that every address is read back from its text.
\<close>

section \<open>Interfaces\<close>

text \<open>
  The fields of \<^verbatim>\<open>struct netif\<close> that hold data; addresses are kept in network order, as the
  little-endian word that their four octets form. An interface is named by a number that stands for
  the address of its structure.
\<close>

type_synonym nif = nat

record netif =
  nf_next :: "nif option"
  nf_ip_addr :: u32
  nf_netmask :: u32
  nf_gw :: u32
  nf_mtu :: u16
  nf_hwaddr :: "u8 list"
  nf_hwaddr_len :: u8
  nf_flags :: u8
  nf_name :: "u8 \<times> u8"
  nf_num :: u8

definition NETIF_FLAG_UP :: u8 where "NETIF_FLAG_UP = 0x01"

definition NETIF_FLAG_BROADCAST :: u8 where "NETIF_FLAG_BROADCAST = 0x02"

definition NETIF_FLAG_LINK_UP :: u8 where "NETIF_FLAG_LINK_UP = 0x04"

definition NETIF_FLAG_ETHARP :: u8 where "NETIF_FLAG_ETHARP = 0x08"

definition NETIF_FLAG_ETHERNET :: u8 where "NETIF_FLAG_ETHERNET = 0x10"

definition NETIF_FLAG_IGMP :: u8 where "NETIF_FLAG_IGMP = 0x20"

section \<open>Address predicates\<close>

definition IPADDR_ANY :: u32 where "IPADDR_ANY = 0x00000000"

definition IPADDR_BROADCAST :: u32 where "IPADDR_BROADCAST = 0xffffffff"

definition IPADDR_NONE :: u32 where "IPADDR_NONE = 0xffffffff"

definition IP4_ADDR :: "u32 \<Rightarrow> u32 \<Rightarrow> u32 \<Rightarrow> u32 \<Rightarrow> u32" where
  "IP4_ADDR a b c d = lwip_htonl (push_bit 24 (a AND 0xff) OR push_bit 16 (b AND 0xff) OR
     push_bit 8 (c AND 0xff) OR (d AND 0xff))"

definition ip4_addr_isloopback :: "u32 \<Rightarrow> bool" where
  "ip4_addr_isloopback a \<longleftrightarrow> a AND lwip_htonl 0xff000000 = lwip_htonl (push_bit 24 127)"

definition ip4_addr_ismulticast :: "u32 \<Rightarrow> bool" where
  "ip4_addr_ismulticast a \<longleftrightarrow> a AND lwip_htonl 0xf0000000 = lwip_htonl 0xe0000000"

definition ip4_addr_islinklocal :: "u32 \<Rightarrow> bool" where
  "ip4_addr_islinklocal a \<longleftrightarrow> a AND lwip_htonl 0xffff0000 = lwip_htonl 0xa9fe0000"

definition ip4_addr_get_network :: "u32 \<Rightarrow> u32 \<Rightarrow> u32" where
  "ip4_addr_get_network host netmask = host AND netmask"

definition ip4_addr_net_eq :: "u32 \<Rightarrow> u32 \<Rightarrow> u32 \<Rightarrow> bool" where
  "ip4_addr_net_eq addr1 addr2 nm \<longleftrightarrow> addr1 AND nm = addr2 AND nm"

definition ip4_addr_isbroadcast_u32 :: "u32 \<Rightarrow> 'a netif_scheme \<Rightarrow> bool" where
  "ip4_addr_isbroadcast_u32 a netif \<longleftrightarrow>
     (if NOT a = IPADDR_ANY \<or> a = IPADDR_ANY then True
      else if nf_flags netif AND NETIF_FLAG_BROADCAST = 0 then False
      else if a = nf_ip_addr netif then False
      else if ip4_addr_net_eq a (nf_ip_addr netif) (nf_netmask netif) \<and>
        a AND NOT (nf_netmask netif) = IPADDR_BROADCAST AND NOT (nf_netmask netif) then True
      else False)"

lemma unat_drop_1_less: "mk \<noteq> 0 \<Longrightarrow> unat (drop_bit 1 mk :: u32) < unat mk"
  by (simp add: drop_bit_eq_div unat_div unat_gt_0)

text \<open>The two loops of \<^verbatim>\<open>ip4_addr_netmask_valid\<close>.\<close>

function first_zero :: "u32 \<Rightarrow> u32 \<Rightarrow> u32" where
  "first_zero nm mk = (if mk \<noteq> 0 then if nm AND mk = 0 then mk else first_zero nm (drop_bit 1 mk) else mk)"
  by pat_completeness auto
termination
  by (relation "measure (\<lambda>(nm, mk). unat mk)") (simp_all add: unat_drop_1_less del: One_nat_def)

function no_one :: "u32 \<Rightarrow> u32 \<Rightarrow> bool" where
  "no_one nm mk = (if mk \<noteq> 0 then if nm AND mk \<noteq> 0 then False else no_one nm (drop_bit 1 mk) else True)"
  by pat_completeness auto
termination
  by (relation "measure (\<lambda>(nm, mk). unat mk)") (simp_all add: unat_drop_1_less del: One_nat_def)

declare first_zero.simps [simp del] no_one.simps [simp del]

definition ip4_addr_netmask_valid :: "u32 \<Rightarrow> bool" where
  "ip4_addr_netmask_valid netmask =
     (let nm_hostorder = lwip_htonl netmask in no_one nm_hostorder (first_zero nm_hostorder (push_bit 31 1)))"

section \<open>Addresses as text\<close>

definition lwip_isdigit :: "u8 \<Rightarrow> bool" where
  "lwip_isdigit c \<longleftrightarrow> 48 \<le> c \<and> c \<le> 57"

definition lwip_islower :: "u8 \<Rightarrow> bool" where
  "lwip_islower c \<longleftrightarrow> 97 \<le> c \<and> c \<le> 122"

definition lwip_isxdigit :: "u8 \<Rightarrow> bool" where
  "lwip_isxdigit c \<longleftrightarrow> lwip_isdigit c \<or> (97 \<le> c \<and> c \<le> 102) \<or> (65 \<le> c \<and> c \<le> 70)"

definition lwip_isspace :: "u8 \<Rightarrow> bool" where
  "lwip_isspace c \<longleftrightarrow> c = 32 \<or> c = 12 \<or> c = 10 \<or> c = 13 \<or> c = 9 \<or> c = 11"

text \<open>
  The inner loop collects one number and returns it with the pointer to the character behind it;
  the arithmetic is that of \<^verbatim>\<open>u32_t\<close> and wraps around.
\<close>

partial_function (option) aton_number :: "octets \<Rightarrow> ptr \<Rightarrow> u32 \<Rightarrow> u32 \<Rightarrow> (u32 \<times> ptr) option" where
  "aton_number m cp base val =
     (let c = m cp in
      if lwip_isdigit c then
        if base = 8 \<and> 8 \<le> (ucast c - 48 :: u32) then Some (val, cp)
        else aton_number m (ptr_add cp 1) base (val * base + (ucast c - 48))
      else if base = 16 \<and> lwip_isxdigit c then
        aton_number m (ptr_add cp 1) base (push_bit 4 val OR (ucast c + 10 - (if lwip_islower c then 97 else 65)))
      else Some (val, cp))"

text \<open>
  The outer loop: the parts before the last one, the last number and the character behind it, or
  \<^term>\<open>None\<close> inside where the code returns 0.
\<close>

partial_function (option) aton_loop :: "octets \<Rightarrow> ptr \<Rightarrow> u32 list \<Rightarrow> (u32 list \<times> u32 \<times> u8) option option" where
  "aton_loop m cp parts =
     (if \<not> lwip_isdigit (m cp) then Some None
      else do {
        let (base, cp) = (if m cp = 48 then
            (let cp = ptr_add cp 1 in
             if m cp = 120 \<or> m cp = 88 then (16, ptr_add cp 1) else (8, cp))
          else (10, cp));
        (val, cp) \<leftarrow> aton_number m cp base 0;
        if m cp = 46 then
          if 3 \<le> length parts then Some None
          else aton_loop m (ptr_add cp 1) (parts @ [val])
        else Some (Some (parts, val, m cp))
      })"

text \<open>
  The result is the value stored through \<^verbatim>\<open>addr\<close> when the function returns 1; the inner
  \<^term>\<open>None\<close> is the return value 0.
\<close>

definition aton_concoct :: "u32 list \<Rightarrow> u32 \<Rightarrow> u32 option" where
  "aton_concoct parts val = (case parts of
     [] \<Rightarrow> Some val
   | [p0] \<Rightarrow> if 0xffffff < val then None else if 0xff < p0 then None
       else Some (val OR push_bit 24 p0)
   | [p0, p1] \<Rightarrow> if 0xffff < val then None else if 0xff < p0 \<or> 0xff < p1 then None
       else Some (val OR (push_bit 24 p0 OR push_bit 16 p1))
   | [p0, p1, p2] \<Rightarrow> if 0xff < val then None else if 0xff < p0 \<or> 0xff < p1 \<or> 0xff < p2 then None
       else Some (val OR (push_bit 24 p0 OR push_bit 16 p1 OR push_bit 8 p2))
   | _ \<Rightarrow> None)"

definition ip4addr_aton :: "octets \<Rightarrow> ptr \<Rightarrow> u32 option option" where
  "ip4addr_aton m cp = do {
     r \<leftarrow> aton_loop m cp [];
     case r of None \<Rightarrow> Some None
     | Some (parts, val, c) \<Rightarrow>
         if c \<noteq> 0 \<and> \<not> lwip_isspace c then Some None
         else (case aton_concoct parts val of None \<Rightarrow> Some None | Some v \<Rightarrow> Some (Some (lwip_htonl v)))
   }"

definition ipaddr_addr :: "octets \<Rightarrow> ptr \<Rightarrow> u32 option" where
  "ipaddr_addr m cp = do {
     r \<leftarrow> ip4addr_aton m cp;
     Some (case r of Some v \<Rightarrow> v | None \<Rightarrow> IPADDR_NONE)
   }"

text \<open>
  The digits of an octet from the last to the first, as they are put into \<^verbatim>\<open>inv\<close>, and the loop
  that writes them to the buffer from the last one on; \<open>len\<close> characters have been written. The
  flag tells that the buffer was too small.
\<close>

function ntoa_inv :: "u8 \<Rightarrow> u8 list" where
  "ntoa_inv a = (48 + a mod 10) # (if a div 10 = 0 then [] else ntoa_inv (a div 10))"
  by pat_completeness auto
termination by (relation "measure unat") (auto simp: unat_div dest: unat_gt_0 [THEN iffD2])

declare ntoa_inv.simps [simp del]

fun ntoa_put :: "ptr \<Rightarrow> int \<Rightarrow> u8 list \<Rightarrow> nat \<Rightarrow> octets \<Rightarrow> bool \<times> nat \<times> octets" where
  "ntoa_put buf buflen [] len m = (True, len, m)"
| "ntoa_put buf buflen (c # cs) len m =
     (if buflen \<le> int len then (False, len + 1, m)
      else ntoa_put buf buflen cs (len + 1) (m(ptr_add buf (int len) := c)))"

fun ntoa_loop :: "ptr \<Rightarrow> int \<Rightarrow> u8 list \<Rightarrow> nat \<Rightarrow> octets \<Rightarrow> bool \<times> nat \<times> octets" where
  "ntoa_loop buf buflen [] len m = (True, len, m)"
| "ntoa_loop buf buflen (a # as) len m =
     (let (ok, len, m) = ntoa_put buf buflen (rev (ntoa_inv a)) len m in
      if \<not> ok then (False, len, m)
      else (let (ok, len, m) = ntoa_put buf buflen [46] len m in
        if \<not> ok then (False, len, m) else ntoa_loop buf buflen as len m))"

definition ip4addr_ntoa_r :: "u32 \<Rightarrow> ptr \<Rightarrow> int \<Rightarrow> octets \<Rightarrow> ptr option \<times> octets" where
  "ip4addr_ntoa_r s_addr buf buflen m =
     (let (ok, len, m) = ntoa_loop buf buflen
        [ucast s_addr, ucast (drop_bit 8 s_addr), ucast (drop_bit 16 s_addr), ucast (drop_bit 24 s_addr)] 0 m
      in if ok then (Some buf, m(ptr_add buf (int len - 1) := 0)) else (None, m))"

text \<open>\<open>str\<close> is the address of the static buffer of \<^verbatim>\<open>ip4addr_ntoa\<close>.\<close>

definition ip4addr_ntoa :: "u32 \<Rightarrow> ptr \<Rightarrow> octets \<Rightarrow> ptr option \<times> octets" where
  "ip4addr_ntoa a str m = ip4addr_ntoa_r a str 16 m"


section \<open>Netmasks\<close>

definition bm :: "nat \<Rightarrow> u32" where
  "bm j = (if j = 0 then 0 else push_bit (j - 1) 1)"

lemma bm_simps:
  "bm 0 = 0" "j < 32 \<Longrightarrow> drop_bit (Suc 0) (bm (Suc j)) = bm j" "j < 32 \<Longrightarrow> bm (Suc j) \<noteq> 0"
  "(nm AND bm (Suc j) = 0) = (\<not> bit nm j)"
proof -
  show "bm 0 = 0" by (simp add: bm_def)
  show "j < 32 \<Longrightarrow> drop_bit (Suc 0) (bm (Suc j)) = bm j"
    unfolding bm_def by (rule bit_word_eqI) (auto simp: bit_simps)
  show "j < 32 \<Longrightarrow> bm (Suc j) \<noteq> 0"
    using bit_push_bit_iff [of j "1 :: u32" j] by (auto simp: bm_def bit_simps dest!: arg_cong [where f = "\<lambda>w. bit w j"])
  show "(nm AND bm (Suc j) = 0) = (\<not> bit nm j)"
    using bit_imp_le_length [of nm j]
    by (auto simp: bm_def bit_eq_iff [of "nm AND _"] bit_simps)
qed

lemma first_zero_bm:
  "j \<le> 32 \<Longrightarrow> \<exists>i\<le>j. first_zero nm (bm j) = bm i \<and> (\<forall>n. i \<le> n \<and> n < j \<longrightarrow> bit nm n) \<and> (i = 0 \<or> \<not> bit nm (i - 1))"
proof (induction j)
  case 0
  then show ?case by (subst first_zero.simps) (auto simp: bm_simps)
next
  case (Suc j)
  show ?case
  proof (cases "bit nm j")
    case True
    obtain i where "i \<le> j" "first_zero nm (bm j) = bm i" "\<forall>n. i \<le> n \<and> n < j \<longrightarrow> bit nm n" "i = 0 \<or> \<not> bit nm (i - 1)"
      using Suc by auto
    with True Suc.prems show ?thesis
      by (subst first_zero.simps) (auto simp: bm_simps less_Suc_eq intro!: exI [of _ i])
  next
    case False
    with Suc.prems show ?thesis by (subst first_zero.simps) (auto simp: bm_simps intro!: exI [of _ "Suc j"])
  qed
qed

lemma no_one_bm: "j \<le> 32 \<Longrightarrow> no_one nm (bm j) \<longleftrightarrow> (\<forall>n<j. \<not> bit nm n)"
proof (induction j)
  case 0
  then show ?case by (subst no_one.simps) (simp add: bm_simps)
next
  case (Suc j)
  then show ?case by (subst no_one.simps) (auto simp: bm_simps less_Suc_eq)
qed

text \<open>
  A netmask is accepted exactly when, in host order, it consists of ones followed by zeros.
\<close>

theorem netmask_valid_prefix:
  "ip4_addr_netmask_valid netmask \<longleftrightarrow> (\<exists>k. k \<le> 32 \<and> lwip_htonl netmask = NOT (mask k))"
proof -
  define nm where "nm = lwip_htonl netmask"
  obtain i where i: "i \<le> 32" "first_zero nm (bm 32) = bm i" "\<forall>n. i \<le> n \<and> n < 32 \<longrightarrow> bit nm n" "i = 0 \<or> \<not> bit nm (i - 1)"
    using first_zero_bm [of 32 nm] by auto
  have v: "ip4_addr_netmask_valid netmask \<longleftrightarrow> (\<forall>n<i. \<not> bit nm n)"
    using i no_one_bm [of i nm] by (simp add: ip4_addr_netmask_valid_def nm_def [symmetric] bm_def [of 32])
  have b: "nm = NOT (mask k) \<longleftrightarrow> (\<forall>n<32. bit nm n \<longleftrightarrow> k \<le> n)" for k
    by (auto simp: bit_eq_iff [of nm] bit_simps dest: bit_imp_le_length)
  show ?thesis
  proof
    assume "ip4_addr_netmask_valid netmask"
    then have "nm = NOT (mask i)" using i(3) v unfolding b by (auto simp: not_le [symmetric])
    then show "\<exists>k\<le>32. lwip_htonl netmask = NOT (mask k)" using i(1) nm_def by auto
  next
    assume "\<exists>k\<le>32. lwip_htonl netmask = NOT (mask k)"
    then obtain k where k: "\<forall>n<32. bit nm n \<longleftrightarrow> k \<le> n" using b nm_def by blast
    then have "i \<le> k" using i(1,4) by (cases "i = 0") (auto dest: spec [of _ "i - 1"])
    then show "ip4_addr_netmask_valid netmask" using k i(1) unfolding v by auto
  qed
qed

section \<open>Writing addresses\<close>

text \<open>The dotted decimal notation.\<close>

definition dotted :: "u32 \<Rightarrow> u8 list" where
  "dotted a = decimal (unat (ucast a :: u8)) @ 46 # decimal (unat (ucast (drop_bit 8 a) :: u8)) @
     46 # decimal (unat (ucast (drop_bit 16 a) :: u8)) @ 46 # decimal (unat (ucast (drop_bit 24 a) :: u8))"

lemma mem_write_over:
  "(mem_write m p (xs @ [x]))(ptr_add p (int (length xs)) := y) = mem_write m p (xs @ [y])"
  by (simp add: mem_write_single mem_write_append [symmetric]) (simp add: mem_write_def fun_eq_iff)

lemma rev_ntoa_inv: "rev (ntoa_inv a) = decimal (unat a)"
proof (induction a rule: ntoa_inv.induct)
  case (1 a)
  have d: "48 + a mod 10 = (of_nat (48 + unat a mod 10) :: u8)"
    by (simp add: word_unat_eq_iff unat_word_ariths unat_mod unsigned_of_nat take_bit_eq_mod)
  show ?case
  proof (cases "a div 10 = 0")
    case True
    then have "unat a < 10" by (simp add: word_unat_eq_iff unat_div)
    with True d show ?thesis by (simp add: ntoa_inv.simps [of a] decimal.simps [of "unat a"])
  next
    case False
    then have "\<not> unat a < 10" by (simp add: word_unat_eq_iff unat_div)
    with False d 1 show ?thesis by (simp add: ntoa_inv.simps [of a] decimal.simps [of "unat a"] unat_div)
  qed
qed

lemma ntoa_put_append:
  "ntoa_put buf buflen (cs @ ds) len m = (let (ok, len, m) = ntoa_put buf buflen cs len m in
     if \<not> ok then (False, len, m) else ntoa_put buf buflen ds len m)"
  by (induction cs arbitrary: len m) auto

lemma ntoa_loop_put:
  "ntoa_loop buf buflen as len m = ntoa_put buf buflen (concat (map (\<lambda>a. decimal (unat a) @ [46]) as)) len m"
  by (induction as arbitrary: len m) (simp_all add: ntoa_put_append rev_ntoa_inv Let_def split: prod.split)

lemma ntoa_put_fits:
  "int (len + length cs) \<le> buflen \<Longrightarrow>
   ntoa_put buf buflen cs len m = (True, len + length cs, mem_write m (ptr_add buf (int len)) cs)"
proof (induction cs arbitrary: len m)
  case (Cons c cs)
  then show ?case
    using mem_write_append [of m "ptr_add buf (int len)" "[c]" cs] Cons.IH [of "Suc len" "m(ptr_add buf (int len) := c)"]
    by (simp add: mem_write_single add.commute)
qed simp

lemma ntoa_put_short:
  assumes "buflen < int (len + length cs)" "int len \<le> buflen"
  shows "\<exists>l m'. ntoa_put buf buflen cs len m = (False, l, m') \<and> (\<forall>q. off_buf buf 0 (nat buflen) q \<longrightarrow> m' q = m q)"
  using assms
proof (induction cs arbitrary: len m)
  case (Cons c cs)
  show ?case
  proof (cases "buflen = int len")
    case False
    then have "off_buf buf 0 (nat buflen) q \<Longrightarrow> q \<noteq> ptr_add buf (int len)" for q
      using Cons.prems(2) by (auto simp: off_buf_def)
    with Cons.IH [of "Suc len" "m(ptr_add buf (int len) := c)"] Cons.prems False show ?thesis by fastforce
  qed simp
qed simp

lemma mem_write_off: "off_buf p 0 n q \<Longrightarrow> length cs \<le> n \<Longrightarrow> mem_write m p cs q = m q"
  by (auto simp: mem_write_def off_buf_def)

lemma ntoa_r_dotted:
  assumes "0 \<le> buflen"
  shows "\<exists>m'. ip4addr_ntoa_r a buf buflen m = (if int (length (dotted a)) < buflen then Some buf else None, m') \<and>
    (int (length (dotted a)) < buflen \<longrightarrow> str_at m' buf (dotted a)) \<and>
    (\<forall>q. off_buf buf 0 (nat buflen) q \<longrightarrow> m' q = m q)"
proof -
  let ?b = "[ucast a, ucast (drop_bit 8 a), ucast (drop_bit 16 a), ucast (drop_bit 24 a)] :: u8 list"
  have t: "concat (map (\<lambda>a. decimal (unat a) @ [46]) ?b) = dotted a @ [46]" by (simp add: dotted_def)
  show ?thesis
  proof (cases "int (length (dotted a)) < buflen")
    case True
    then have r: "ip4addr_ntoa_r a buf buflen m = (Some buf, mem_write m buf (dotted a @ [0]))"
      unfolding ip4addr_ntoa_r_def ntoa_loop_put t
      by (simp add: ntoa_put_fits mem_write_over)
    have "0 \<notin> set (dotted a)" by (simp add: dotted_def decimal_nz)
    with r True str_at_write mem_write_off [of buf "nat buflen" _ "dotted a @ [0]" m] show ?thesis by simp
  next
    case False
    then show ?thesis using ntoa_put_short [of buflen 0 "dotted a @ [46]" buf m] assms
      unfolding ip4addr_ntoa_r_def ntoa_loop_put t by auto
  qed
qed

section \<open>Reading addresses\<close>

lemma digit_facts:
  assumes "d < 10"
  shows "lwip_isdigit (of_nat (48 + d))" "ucast (of_nat (48 + d) :: u8) - 48 = (of_nat d :: u32)"
proof -
  show "lwip_isdigit (of_nat (48 + d))"
    using assms by (simp add: lwip_isdigit_def word_le_nat_alt unat_of_nat8 del: of_nat_add)
  have "ucast (of_nat (48 + d) :: u8) = (of_nat (48 + d) :: u32)"
    using assms by (subst word_unat_eq_iff) (simp add: unsigned_ucast_eq unsigned_of_nat take_bit_eq_mod del: of_nat_add)
  then show "ucast (of_nat (48 + d) :: u8) - 48 = (of_nat d :: u32)" by simp
qed

lemma decimal_digits: "list_all lwip_isdigit (decimal n)"
proof (induction n rule: decimal.induct)
  case (1 n)
  then show ?case using digit_facts(1) [of n] digit_facts(1) [of "n mod 10"] by (subst decimal.simps) auto
qed

lemma decimal_value: "foldl (\<lambda>v d. v * 10 + (ucast d - 48)) 0 (decimal n) = (of_nat n :: u32)"
proof (induction n rule: decimal.induct)
  case (1 n)
  have "of_nat (n div 10) * 10 + of_nat (n mod 10) = (of_nat n :: u32)"
    by (metis of_nat_add of_nat_mult of_nat_numeral div_mult_mod_eq)
  then show ?case using 1 digit_facts(2) [of n] digit_facts(2) [of "n mod 10"] by (subst decimal.simps) auto
qed

lemma hd_decimal: "0 < n \<Longrightarrow> hd (decimal n) \<noteq> 48"
proof (induction n rule: decimal.induct)
  case (1 n)
  have "(of_nat (48 + n) :: u8) \<noteq> 48" if "n < 10"
    using that 1(2) by (simp add: word_unat_eq_iff unat_of_nat8 del: of_nat_add)
  with 1 show ?case by (subst decimal.simps) (auto simp: hd_append decimal_ne)
qed

lemma aton_number_digits:
  assumes "mem_read m cp (length ds) = ds" "list_all lwip_isdigit ds" "\<not> lwip_isdigit (m (ptr_add cp (int (length ds))))"
  shows "aton_number m cp 10 v = Some (foldl (\<lambda>v d. v * 10 + (ucast d - 48)) v ds, ptr_add cp (int (length ds)))"
  using assms
proof (induction ds arbitrary: cp v)
  case Nil
  then show ?case by (subst aton_number.simps) simp
next
  case (Cons d ds)
  then have "m cp = d" "mem_read m (ptr_add cp 1) (length ds) = ds" by (simp_all add: mem_read_Suc)
  with Cons show ?case by (subst aton_number.simps) (simp add: add.commute)
qed

text \<open>A round of the outer loop reads a decimal number without leading zeros.\<close>

definition ends :: "u8 \<Rightarrow> bool" where
  "ends c \<longleftrightarrow> c = 46 \<or> c = 0"

lemma aton_round:
  assumes "mem_read m cp (length (decimal n)) = decimal n" "ends (m (ptr_add cp (int (length (decimal n)))))"
  defines "e \<equiv> ptr_add cp (int (length (decimal n)))"
  shows "aton_loop m cp parts = (if m e = 46 then if 3 \<le> length parts then Some None
    else aton_loop m (ptr_add e 1) (parts @ [of_nat n]) else Some (Some (parts, of_nat n, m e)))"
proof -
  have e: "\<not> lwip_isdigit (m e)" "m e \<noteq> 120" "m e \<noteq> 88" "\<not> lwip_isxdigit (m e)"
    using assms(2) by (auto simp: e_def ends_def lwip_isdigit_def lwip_isxdigit_def)
  obtain d ds where d: "decimal n = d # ds" using decimal_ne by (cases "decimal n") auto
  have hd: "m cp = d" using assms(1) d by (simp add: mem_read_Suc)
  have dig: "lwip_isdigit (m cp)" using decimal_digits [of n] d hd by simp
  show ?thesis
  proof (cases "n = 0")
    case True
    then have "decimal n = [48]" by (subst decimal.simps) simp
    then have "m cp = 48" "e = ptr_add cp 1" using hd d by (simp_all add: e_def)
    moreover have "aton_number m e 8 0 = Some (0, e)" using e by (subst aton_number.simps) simp
    ultimately show ?thesis using dig e True by (subst aton_loop.simps) simp
  next
    case False
    then have "m cp \<noteq> 48" using hd_decimal [of n] d hd by simp
    moreover have "aton_number m cp 10 0 = Some (of_nat n, e)"
      using aton_number_digits [OF assms(1) decimal_digits] e decimal_value [of n] by (simp add: e_def)
    ultimately show ?thesis using dig by (subst aton_loop.simps) simp
  qed
qed

lemma str_at_part:
  assumes "str_at m p (as @ c # bs)"
  shows "mem_read m p (length as) = as" "m (ptr_add p (int (length as))) = c"
    "str_at m (ptr_add p (int (length as) + 1)) bs"
proof -
  let ?n = "length as"
  have r: "mem_read m p (?n + Suc (length bs)) = as @ c # bs" and z: "0 \<notin> set (as @ c # bs)"
    "m (ptr_add p (int (?n + Suc (length bs)))) = 0"
    using assms by (simp_all add: str_at_def)
  then have s: "mem_read m p ?n @ m (ptr_add p (int ?n)) # mem_read m (ptr_add p (int ?n + 1)) (length bs) = as @ c # bs"
    by (simp only: mem_read_add mem_read_Suc) simp
  then show "mem_read m p ?n = as" "m (ptr_add p (int ?n)) = c" by simp_all
  have "mem_read m (ptr_add p (int ?n + 1)) (length bs) = bs" using s by simp
  then show "str_at m (ptr_add p (int ?n + 1)) bs" using z by (simp add: str_at_def algebra_simps)
qed

lemma aton_dotted:
  assumes "str_at m p (dotted a)"
  shows "ip4addr_aton m p = Some (Some a)"
proof -
  define b0 b1 b2 b3 :: u8 where "b0 = ucast a" "b1 = ucast (drop_bit 8 a)" "b2 = ucast (drop_bit 16 a)" "b3 = ucast (drop_bit 24 a)"
  let ?d = "\<lambda>b :: u8. decimal (unat b)" and ?l = "\<lambda>b :: u8. int (length (decimal (unat b)))"
  define p1 p2 p3 where "p1 = ptr_add p (?l b0 + 1)" "p2 = ptr_add p1 (?l b1 + 1)" "p3 = ptr_add p2 (?l b2 + 1)"
  have s0: "str_at m p (?d b0 @ 46 # ?d b1 @ 46 # ?d b2 @ 46 # ?d b3)"
    using assms by (simp add: dotted_def b0_b1_b2_b3_def)
  have s1: "str_at m p1 (?d b1 @ 46 # ?d b2 @ 46 # ?d b3)" using str_at_part(3) [OF s0] by (simp add: p1_p2_p3_def)
  have s2: "str_at m p2 (?d b2 @ 46 # ?d b3)" using str_at_part(3) [OF s1] by (simp add: p1_p2_p3_def)
  have s3: "str_at m p3 (?d b3)" using str_at_part(3) [OF s2] by (simp add: p1_p2_p3_def)
  have r0: "aton_loop m p parts = aton_loop m p1 (parts @ [of_nat (unat b0)])" if "length parts < 3" for parts
    using aton_round [of m p "unat b0" parts] str_at_part(1,2) [OF s0] that by (simp add: ends_def p1_p2_p3_def)
  have r1: "aton_loop m p1 parts = aton_loop m p2 (parts @ [of_nat (unat b1)])" if "length parts < 3" for parts
    using aton_round [of m p1 "unat b1" parts] str_at_part(1,2) [OF s1] that by (simp add: ends_def p1_p2_p3_def)
  have r2: "aton_loop m p2 parts = aton_loop m p3 (parts @ [of_nat (unat b2)])" if "length parts < 3" for parts
    using aton_round [of m p2 "unat b2" parts] str_at_part(1,2) [OF s2] that by (simp add: ends_def p1_p2_p3_def)
  have r3: "aton_loop m p3 parts = Some (Some (parts, of_nat (unat b3), 0))" for parts
    using aton_round [of m p3 "unat b3" parts] s3 by (simp add: ends_def str_at_def)
  have loop: "aton_loop m p [] = Some (Some ([of_nat (unat b0), of_nat (unat b1), of_nat (unat b2)], of_nat (unat b3), 0))"
    by (simp add: r0 r1 r2 r3)
  have u: "(of_nat (unat b) :: u32) = ucast b" for b :: u8 by (simp add: of_nat_unat)
  have le: "\<not> 0xff < (ucast b :: u32)" for b :: u8
    using unat_u8_less [of b] by (simp add: word_less_nat_alt unsigned_ucast_eq take_bit_eq_mod del: unat_u8_less)
  have "aton_concoct [of_nat (unat b0), of_nat (unat b1), of_nat (unat b2)] (of_nat (unat b3)) = Some (pack32 b3 b2 b1 b0)"
    unfolding u by (simp add: aton_concoct_def le pack32_def or.assoc or.left_commute or.commute)
  with loop show ?thesis by (simp add: ip4addr_aton_def b0_b1_b2_b3_def)
qed


text \<open>
  C26. \<^verbatim>\<open>ip4addr_ntoa_r\<close> leaves the dotted decimal notation of an address as a string in a buffer
  that has room for it and the terminator, and \<^verbatim>\<open>ip4addr_aton\<close> and \<^verbatim>\<open>ipaddr_addr\<close> read the address
  back from there; for a smaller buffer it returns NULL. Nothing outside the buffer is written.
\<close>

theorem ip4addr_text_roundtrip:
  assumes "0 \<le> buflen"
  shows "\<exists>m'. ip4addr_ntoa_r a buf buflen m = (if int (length (dotted a)) < buflen then Some buf else None, m') \<and>
    (int (length (dotted a)) < buflen \<longrightarrow>
      str_at m' buf (dotted a) \<and> ip4addr_aton m' buf = Some (Some a) \<and> ipaddr_addr m' buf = Some a) \<and>
    (\<forall>q. off_buf buf 0 (nat buflen) q \<longrightarrow> m' q = m q)"
proof -
  obtain m' where "ip4addr_ntoa_r a buf buflen m = (if int (length (dotted a)) < buflen then Some buf else None, m')"
    "int (length (dotted a)) < buflen \<longrightarrow> str_at m' buf (dotted a)" "\<forall>q. off_buf buf 0 (nat buflen) q \<longrightarrow> m' q = m q"
    using ntoa_r_dotted [OF assms] by blast
  then show ?thesis using aton_dotted [of m' buf a] by (intro exI [of _ m']) (auto simp: ipaddr_addr_def)
qed

theorem ip4addr_text_roundtrip_witness:
  "\<exists>m'. ip4addr_ntoa_r 0x0100a8c0 (Ext 0, 0) 16 (\<lambda>_. 7) = (Some (Ext 0, 0), m') \<and>
     str_at m' (Ext 0, 0) [49, 57, 50, 46, 49, 54, 56, 46, 48, 46, 49] \<and>
     ip4addr_aton m' (Ext 0, 0) = Some (Some 0x0100a8c0)"
proof -
  have "dotted 0x0100a8c0 = [49, 57, 50, 46, 49, 54, 56, 46, 48, 46, 49]"
    by (simp add: dotted_def drop_bit_eq_div decimal.simps)
  then show ?thesis using ip4addr_text_roundtrip [of 16 "0x0100a8c0" "(Ext 0, 0)" "\<lambda>_. 7"] by auto
qed

text \<open>
  A string that is one decimal number is accepted whatever its size; the address is the number
  modulo \<open>2\<^sup>3\<^sup>2\<close>.
\<close>

lemma aton_decimal_wraps:
  assumes "str_at m p (decimal n)"
  shows "ip4addr_aton m p = Some (Some (lwip_htonl (of_nat n)))"
  using aton_round [of m p n "[]"] assms by (simp add: ends_def str_at_def ip4addr_aton_def aton_concoct_def)

lemma aton_wraps_example:
  "ip4addr_aton (mem_write (\<lambda>_. 0) (Ext 0, 0) (decimal 4294967296 @ [0])) (Ext 0, 0) = Some (Some 0)"
  using aton_decimal_wraps [OF str_at_write [OF decimal_nz]] by (simp add: lwip_htonl_def)

end
