(* ===== verification/Timeouts.thy ===== *)
theory Timeouts
  imports Pbuf_Mem
begin

text \<open>
  The timers of \<^verbatim>\<open>core/timeouts.c\<close>: the list of timeouts, its elements taken from the pool
  \<^verbatim>\<open>MEMP_SYS_TIMEOUT\<close>, and the cyclic timers of the stack. Timeout handlers and the clock are
  parameters; the clock of this port is \<open>sys_now\<close>.
\<close>

section \<open>Data\<close>

text \<open>The functions a timeout can call, the arguments it can pass, and the cyclic timer functions.\<close>

datatype timer_handler = H_tcpip_tcp_timer | H_lwip_cyclic_timer | H_other nat

datatype timer_arg = A_null | A_cyclic nat | A_ptr ptr

datatype cyclic_handler = C_tcp_tmr | C_ip_reass_tmr | C_etharp_tmr | C_dhcp_coarse_tmr | C_dhcp_fine_tmr |
  C_acd_tmr | C_dns_tmr

record lwip_cyclic_timer_t =
  interval_ms :: u32
  c_handler :: cyclic_handler

record sys_timeo =
  t_next :: "ptr option"
  t_time :: u32
  t_h :: "timer_handler option"
  t_arg :: timer_arg

record timers = stack +
  timeo :: "ptr \<Rightarrow> sys_timeo option"
  next_timeout :: "ptr option"
  current_timeout_due_time :: u32
  tcpip_tcp_timer_active :: bool
  tcp_active_pcbs :: "ptr option"
  tcp_tw_pcbs :: "ptr option"

text \<open>
  What the timers call and read: the clock, the cyclic handlers, other timeout handlers and
  \<^verbatim>\<open>pbuf_free_ooseq\<close>.
\<close>

record 's hooks =
  hk_now :: "'s \<Rightarrow> u32"
  hk_tmr :: "cyclic_handler \<Rightarrow> 's \<Rightarrow> 's option"
  hk_other :: "nat \<Rightarrow> timer_arg \<Rightarrow> 's \<Rightarrow> 's option"
  hk_free_ooseq :: "'s \<Rightarrow> 's option"

definition LWIP_MAX_TIMEOUT :: u32 where
  "LWIP_MAX_TIMEOUT = 0x7fffffff"

definition TIME_LESS_THAN :: "u32 \<Rightarrow> u32 \<Rightarrow> bool" where
  "TIME_LESS_THAN t compare_to \<longleftrightarrow> t - compare_to > LWIP_MAX_TIMEOUT"

definition TCP_TMR_INTERVAL :: u32 where
  "TCP_TMR_INTERVAL = 250"

definition lwip_cyclic_timers :: "lwip_cyclic_timer_t list" where
  "lwip_cyclic_timers =
     [\<lparr>interval_ms = TCP_TMR_INTERVAL, c_handler = C_tcp_tmr\<rparr>,
      \<lparr>interval_ms = 1000, c_handler = C_ip_reass_tmr\<rparr>,
      \<lparr>interval_ms = 1000, c_handler = C_etharp_tmr\<rparr>,
      \<lparr>interval_ms = 60 * 1000, c_handler = C_dhcp_coarse_tmr\<rparr>,
      \<lparr>interval_ms = 500, c_handler = C_dhcp_fine_tmr\<rparr>,
      \<lparr>interval_ms = 100, c_handler = C_acd_tmr\<rparr>,
      \<lparr>interval_ms = 1000, c_handler = C_dns_tmr\<rparr>]"

text \<open>The clock of this port.\<close>

definition sys_now :: "'s \<Rightarrow> u32" where
  "sys_now s = 0"

section \<open>Operations\<close>

definition upd_timeo :: "ptr \<Rightarrow> (sys_timeo \<Rightarrow> sys_timeo) \<Rightarrow> 'a timers_scheme \<Rightarrow> 'a timers_scheme" where
  "upd_timeo p f s = s\<lparr>timeo := (timeo s)(p := map_option f (timeo s p))\<rparr>"

text \<open>The loop that links the new timeout behind the last one that is not later.\<close>

partial_function (option) timeout_insert :: "ptr \<Rightarrow> u32 \<Rightarrow> ptr option \<Rightarrow> 'a timers_scheme \<Rightarrow> 'a timers_scheme option" where
  "timeout_insert timeout tm t s = (case t of None \<Rightarrow> Some s | Some t \<Rightarrow> do {
     e \<leftarrow> timeo s t;
     later \<leftarrow> (case t_next e of None \<Rightarrow> Some True | Some n \<Rightarrow> do { ne \<leftarrow> timeo s n; Some (TIME_LESS_THAN tm (t_time ne)) });
     if later then Some (upd_timeo t (t_next_update (\<lambda>_. Some timeout)) (upd_timeo timeout (t_next_update (\<lambda>_. t_next e)) s))
     else timeout_insert timeout tm (t_next e) s
   })"

definition sys_timeout_abs :: "u32 \<Rightarrow> timer_handler option \<Rightarrow> timer_arg \<Rightarrow> 'a timers_scheme \<Rightarrow> 'a timers_scheme option" where
  "sys_timeout_abs abs_time handler arg s =
     (case memp_malloc MEMP_SYS_TIMEOUT s of
       (None, s) \<Rightarrow> Some (LWIP_ASSERT ''sys_timeout: timeout != NULL, pool MEMP_SYS_TIMEOUT is empty'' False s)
     | (Some timeout, s) \<Rightarrow> do {
         let s = s\<lparr>timeo := (timeo s)(timeout \<mapsto> \<lparr>t_next = None, t_time = abs_time, t_h = handler, t_arg = arg\<rparr>)\<rparr>;
         case next_timeout s of
           None \<Rightarrow> Some (s\<lparr>next_timeout := Some timeout\<rparr>)
         | Some f \<Rightarrow> do {
             e \<leftarrow> timeo s f;
             if TIME_LESS_THAN abs_time (t_time e)
             then Some (upd_timeo timeout (t_next_update (\<lambda>_. Some f)) s\<lparr>next_timeout := Some timeout\<rparr>)
             else timeout_insert timeout abs_time (Some f) s
           }
       })"

definition sys_timeout ::
  "'a timers_scheme hooks \<Rightarrow> u32 \<Rightarrow> timer_handler option \<Rightarrow> timer_arg \<Rightarrow> 'a timers_scheme \<Rightarrow> 'a timers_scheme option" where
  "sys_timeout H msecs handler arg s =
     (let s = LWIP_ASSERT ''Timeout time too long, max is LWIP_UINT32_MAX/4 msecs'' (msecs \<le> 0xffffffff div 4) s
      in sys_timeout_abs (hk_now H s + msecs) handler arg s)"

definition tcpip_tcp_timer :: "'a timers_scheme hooks \<Rightarrow> 'a timers_scheme \<Rightarrow> 'a timers_scheme option" where
  "tcpip_tcp_timer H s = do {
     s \<leftarrow> hk_tmr H C_tcp_tmr s;
     if tcp_active_pcbs s \<noteq> None \<or> tcp_tw_pcbs s \<noteq> None
     then sys_timeout H TCP_TMR_INTERVAL (Some H_tcpip_tcp_timer) A_null s
     else Some (s\<lparr>tcpip_tcp_timer_active := False\<rparr>)
   }"

definition tcp_timer_needed :: "'a timers_scheme hooks \<Rightarrow> 'a timers_scheme \<Rightarrow> 'a timers_scheme option" where
  "tcp_timer_needed H s =
     (if \<not> tcpip_tcp_timer_active s \<and> (tcp_active_pcbs s \<noteq> None \<or> tcp_tw_pcbs s \<noteq> None)
      then sys_timeout H TCP_TMR_INTERVAL (Some H_tcpip_tcp_timer) A_null (s\<lparr>tcpip_tcp_timer_active := True\<rparr>)
      else Some s)"

text \<open>The argument is the index of the entry of \<^verbatim>\<open>lwip_cyclic_timers\<close> that is passed.\<close>

definition lwip_cyclic_timer :: "'a timers_scheme hooks \<Rightarrow> nat \<Rightarrow> 'a timers_scheme \<Rightarrow> 'a timers_scheme option" where
  "lwip_cyclic_timer H i s =
     (if length lwip_cyclic_timers \<le> i then None
      else do {
        let cyclic = lwip_cyclic_timers ! i;
        s \<leftarrow> hk_tmr H (c_handler cyclic) s;
        let now = hk_now H s;
        let next_timeout_time = current_timeout_due_time s + interval_ms cyclic;
        if TIME_LESS_THAN next_timeout_time now
        then sys_timeout_abs (now + interval_ms cyclic) (Some H_lwip_cyclic_timer) (A_cyclic i) s
        else sys_timeout_abs next_timeout_time (Some H_lwip_cyclic_timer) (A_cyclic i) s
      })"

fun timeouts_init_loop :: "'a timers_scheme hooks \<Rightarrow> nat list \<Rightarrow> 'a timers_scheme \<Rightarrow> 'a timers_scheme option" where
  "timeouts_init_loop H [] s = Some s"
| "timeouts_init_loop H (i # is) s = do {
     s \<leftarrow> sys_timeout H (interval_ms (lwip_cyclic_timers ! i)) (Some H_lwip_cyclic_timer) (A_cyclic i) s;
     timeouts_init_loop H is s
   }"

definition sys_timeouts_init :: "'a timers_scheme hooks \<Rightarrow> 'a timers_scheme \<Rightarrow> 'a timers_scheme option" where
  "sys_timeouts_init H s = timeouts_init_loop H [1..<length lwip_cyclic_timers] s"

partial_function (option) untimeout_loop ::
  "timer_handler option \<Rightarrow> timer_arg \<Rightarrow> ptr option \<Rightarrow> ptr option \<Rightarrow> 'a timers_scheme \<Rightarrow> 'a timers_scheme option" where
  "untimeout_loop handler arg prev_t t s = (case t of None \<Rightarrow> Some s | Some a \<Rightarrow> do {
     e \<leftarrow> timeo s a;
     if t_h e = handler \<and> t_arg e = arg
     then (let s = (case prev_t of None \<Rightarrow> s\<lparr>next_timeout := t_next e\<rparr>
                    | Some q \<Rightarrow> upd_timeo q (t_next_update (\<lambda>_. t_next e)) s);
               s = memp_free MEMP_SYS_TIMEOUT (Some a) s
           in Some (s\<lparr>timeo := (timeo s)(a := None)\<rparr>))
     else untimeout_loop handler arg (Some a) (t_next e) s
   })"

definition sys_untimeout :: "timer_handler option \<Rightarrow> timer_arg \<Rightarrow> 'a timers_scheme \<Rightarrow> 'a timers_scheme option" where
  "sys_untimeout handler arg s = untimeout_loop handler arg None (next_timeout s) s"

definition call_handler ::
  "'a timers_scheme hooks \<Rightarrow> timer_handler \<Rightarrow> timer_arg \<Rightarrow> 'a timers_scheme \<Rightarrow> 'a timers_scheme option" where
  "call_handler H h arg s = (case h of
     H_tcpip_tcp_timer \<Rightarrow> tcpip_tcp_timer H s
   | H_lwip_cyclic_timer \<Rightarrow> (case arg of A_cyclic i \<Rightarrow> lwip_cyclic_timer H i s | _ \<Rightarrow> None)
   | H_other n \<Rightarrow> hk_other H n arg s)"

definition PBUF_CHECK_FREE_OOSEQ :: "'a timers_scheme hooks \<Rightarrow> 'a timers_scheme \<Rightarrow> 'a timers_scheme option" where
  "PBUF_CHECK_FREE_OOSEQ H s = (if pbuf_free_ooseq_pending s then hk_free_ooseq H s else Some s)"

partial_function (option) check_timeouts_loop ::
  "'a timers_scheme hooks \<Rightarrow> u32 \<Rightarrow> 'a timers_scheme \<Rightarrow> 'a timers_scheme option" where
  "check_timeouts_loop H now s = do {
     s \<leftarrow> PBUF_CHECK_FREE_OOSEQ H s;
     case next_timeout s of
       None \<Rightarrow> Some s
     | Some tmptimeout \<Rightarrow> do {
         e \<leftarrow> timeo s tmptimeout;
         if TIME_LESS_THAN now (t_time e) then Some s
         else do {
           let s = s\<lparr>next_timeout := t_next e\<rparr>;
           let s = s\<lparr>current_timeout_due_time := t_time e\<rparr>;
           let s = memp_free MEMP_SYS_TIMEOUT (Some tmptimeout) (s\<lparr>timeo := (timeo s)(tmptimeout := None)\<rparr>);
           s \<leftarrow> (case t_h e of None \<Rightarrow> Some s | Some handler \<Rightarrow> call_handler H handler (t_arg e) s);
           check_timeouts_loop H now s
         }
       }
   }"

definition sys_check_timeouts :: "'a timers_scheme hooks \<Rightarrow> 'a timers_scheme \<Rightarrow> 'a timers_scheme option" where
  "sys_check_timeouts H s = check_timeouts_loop H (hk_now H s) s"

partial_function (option) restart_loop :: "u32 \<Rightarrow> u32 \<Rightarrow> ptr option \<Rightarrow> 'a timers_scheme \<Rightarrow> 'a timers_scheme option" where
  "restart_loop now base t s = (case t of None \<Rightarrow> Some s | Some a \<Rightarrow> do {
     e \<leftarrow> timeo s a;
     restart_loop now base (t_next e) (upd_timeo a (t_time_update (\<lambda>x. (x - base) + now)) s)
   })"

definition sys_restart_timeouts :: "'a timers_scheme hooks \<Rightarrow> 'a timers_scheme \<Rightarrow> 'a timers_scheme option" where
  "sys_restart_timeouts H s = (case next_timeout s of None \<Rightarrow> Some s
   | Some f \<Rightarrow> do {
       let now = hk_now H s;
       e \<leftarrow> timeo s f;
       restart_loop now (t_time e) (next_timeout s) s
     })"

definition sys_timeouts_sleeptime :: "'a timers_scheme hooks \<Rightarrow> 'a timers_scheme \<Rightarrow> (u32 \<times> 'a timers_scheme) option" where
  "sys_timeouts_sleeptime H s = (case next_timeout s of None \<Rightarrow> Some (0xFFFFFFFF, s)
   | Some f \<Rightarrow> do {
       let now = hk_now H s;
       e \<leftarrow> timeo s f;
       if TIME_LESS_THAN (t_time e) now then Some (0, s)
       else (let ret = t_time e - now in Some (ret, LWIP_ASSERT ''invalid sleeptime'' (ret \<le> LWIP_MAX_TIMEOUT) s))
     })"

end
