(* ===== verification/Timeout_Queue.thy ===== *)
theory Timeout_Queue
  imports Timeouts "HOL-Library.Multiset"
begin

text \<open>
  The list of timeouts as a queue ordered by due time, across the wrap-around of the clock, and that
  checking the cyclic timers returns with every timer armed again.
\<close>

declare split_paired_All [simp del] split_paired_Ex [simp del]

section \<open>Time\<close>

definition ahead :: "u32 \<Rightarrow> u32 \<Rightarrow> nat" where
  "ahead r t = unat (t - r)"

definition soon :: "u32 \<Rightarrow> u32 \<Rightarrow> bool" where
  "soon r t \<longleftrightarrow> ahead r t \<le> 0x7fffffff"

lemma time_less:
  assumes "soon r a" "soon r b"
  shows "TIME_LESS_THAN a b \<longleftrightarrow> ahead r a < ahead r b"
proof -
  define x y where "x = a - r" "y = b - r"
  have e: "a - b = x - y" by (simp add: x_y_def)
  have le: "unat x \<le> 0x7fffffff" "unat y \<le> 0x7fffffff" using assms by (simp_all add: x_y_def soon_def ahead_def)
  have u: "unat (x - y) = (if unat y \<le> unat x then unat x - unat y else unat x + 4294967296 - unat y)"
    by (simp add: unat_sub_if')
  have "TIME_LESS_THAN a b \<longleftrightarrow> 0x7fffffff < unat (x - y)"
    unfolding TIME_LESS_THAN_def LWIP_MAX_TIMEOUT_def e by (simp add: word_less_nat_alt)
  also have "\<dots> \<longleftrightarrow> unat x < unat y" unfolding u using le by (simp split: if_split) linarith
  finally show ?thesis by (simp add: ahead_def x_y_def)
qed

section \<open>The list\<close>

lemma links_suffix: "links n p (as @ x # bs) \<Longrightarrow> links n (Some x) (x # bs)"
  by (induction as arbitrary: p) auto

lemma links_distinct: "links n p xs \<Longrightarrow> distinct xs"
proof (induction xs arbitrary: p)
  case (Cons x xs)
  have "x \<notin> set xs"
  proof
    assume "x \<in> set xs"
    then obtain as bs where e: "xs = as @ x # bs" by (rule in_set_split)
    with Cons.prems have "links n (Some x) (x # xs)" "links n (Some x) (x # bs)"
      using links_suffix [of n "n x" as x bs] by simp_all
    from links_unique [OF this] e show False by simp
  qed
  with Cons.IH [of "n x"] Cons.prems show ?case by simp
qed simp

definition tnext :: "(ptr \<Rightarrow> sys_timeo option) \<Rightarrow> ptr \<Rightarrow> ptr option" where
  "tnext m x = Option.bind (m x) t_next"

type_synonym timer = "u32 \<times> timer_handler option \<times> timer_arg"

definition ent :: "sys_timeo \<Rightarrow> timer" where
  "ent e = (t_time e, t_h e, t_arg e)"

definition entry :: "(ptr \<Rightarrow> sys_timeo option) \<Rightarrow> ptr \<Rightarrow> timer" where
  "entry m x = ent (the (m x))"

text \<open>
  The elements of the pool in use are those of the list, and the list holds the timers \<open>ts\<close>.
\<close>

definition tq :: "'a timers_scheme \<Rightarrow> ptr list \<Rightarrow> bool" where
  "tq s xs \<longleftrightarrow> pools_inv s \<and> links (tnext (timeo s)) (next_timeout s) xs \<and> dom (timeo s) = set xs \<and>
     set xs = elems s MEMP_SYS_TIMEOUT - set (free_list s MEMP_SYS_TIMEOUT)"

definition holds_timers :: "u32 \<Rightarrow> 'a timers_scheme \<Rightarrow> timer list \<Rightarrow> bool" where
  "holds_timers r s ts \<longleftrightarrow> (\<exists>xs. tq s xs \<and> ts = map (entry (timeo s)) xs) \<and>
     sorted (map (ahead r \<circ> fst) ts) \<and> list_all (soon r \<circ> fst) ts"

definition tinsert :: "u32 \<Rightarrow> timer \<Rightarrow> timer list \<Rightarrow> timer list" where
  "tinsert r t ts = takeWhile (\<lambda>u. ahead r (fst u) \<le> ahead r (fst t)) ts @ t #
     dropWhile (\<lambda>u. ahead r (fst u) \<le> ahead r (fst t)) ts"

definition set_next :: "ptr \<Rightarrow> ptr option \<Rightarrow> (ptr \<Rightarrow> sys_timeo option) \<Rightarrow> ptr \<Rightarrow> sys_timeo option" where
  "set_next p v m = m(p := map_option (t_next_update (\<lambda>_. v)) (m p))"

lemma upd_next: "upd_timeo p (t_next_update (\<lambda>_. v)) s = s\<lparr>timeo := set_next p v (timeo s)\<rparr>"
  by (simp add: upd_timeo_def set_next_def)

lemma set_next_simps [simp]:
  "dom (set_next p v m) = dom m" "map_option ent (set_next p v m y) = map_option ent (m y)"
  "y \<noteq> p \<Longrightarrow> set_next p v m y = m y"
  by (auto simp: set_next_def ent_def [abs_def] option.map_comp o_def dom_def)

lemma tnext_set_next [simp]: "p \<in> dom m \<Longrightarrow> tnext (set_next p v m) = (tnext m)(p := v)"
  by (auto simp: tnext_def set_next_def fun_eq_iff)

lemma insert_loop:
  assumes "links (tnext m) (Some x) (x # bs)" "set (x # bs) \<subseteq> dom m" "timeout \<notin> set (x # bs)" "timeout \<in> dom m"
    "soon r tm" "\<forall>y\<in>set bs. soon r (fst (entry m y))" "timeo s = m"
  defines "P \<equiv> \<lambda>y. ahead r (fst (entry m y)) \<le> ahead r tm"
  shows "\<exists>m'. timeout_insert timeout tm (Some x) s = Some (s\<lparr>timeo := m'\<rparr>) \<and> dom m' = dom m \<and>
    links (tnext m') (Some x) (x # takeWhile P bs @ timeout # dropWhile P bs) \<and>
    (\<forall>y. map_option ent (m' y) = map_option ent (m y)) \<and> (\<forall>y. y \<notin> set (x # bs) \<longrightarrow> y \<noteq> timeout \<longrightarrow> m' y = m y)"
  using assms(1-4,6,7) unfolding P_def
proof (induction bs arbitrary: x)
  case Nil
  then obtain e where e: "m x = Some e" "t_next e = None" by (auto simp: tnext_def)
  let ?m' = "set_next x (Some timeout) (set_next timeout None m)"
  have "timeout_insert timeout tm (Some x) s = Some (s\<lparr>timeo := ?m'\<rparr>)"
    using e Nil.prems by (subst timeout_insert.simps) (simp add: upd_next)
  with Nil.prems show ?case by (intro exI [of _ ?m']) auto
next
  case (Cons n bs)
  obtain e where e: "m x = Some e" "t_next e = Some n" using Cons.prems(1,2) by (auto simp: tnext_def)
  obtain ne where ne: "m n = Some ne" using Cons.prems(2) by auto
  have sn: "soon r (t_time ne)" using Cons.prems(5) ne by (simp add: entry_def ent_def)
  have less: "TIME_LESS_THAN tm (t_time ne) \<longleftrightarrow> \<not> ahead r (fst (entry m n)) \<le> ahead r tm"
    unfolding time_less [OF assms(5) sn] using ne by (simp add: entry_def ent_def not_le)
  have d: "distinct (x # n # bs)" by (rule links_distinct [OF Cons.prems(1)])
  show ?case
  proof (cases "TIME_LESS_THAN tm (t_time ne)")
    case True
    let ?m' = "set_next x (Some timeout) (set_next timeout (Some n) m)"
    have "timeout_insert timeout tm (Some x) s = Some (s\<lparr>timeo := ?m'\<rparr>)"
      using e ne True Cons.prems by (subst timeout_insert.simps) (simp add: upd_next)
    moreover have "links (tnext ?m') (Some x) (x # timeout # n # bs)"
      using Cons.prems d by (auto simp: links_upd)
    ultimately show ?thesis using True less by (intro exI [of _ ?m']) auto
  next
    case False
    have "links (tnext m) (Some n) (n # bs)" using Cons.prems(1) by simp
    from Cons.IH [OF this] Cons.prems obtain m' where
      m': "timeout_insert timeout tm (Some n) s = Some (s\<lparr>timeo := m'\<rparr>)" "dom m' = dom m"
      "links (tnext m') (Some n) (n # takeWhile (\<lambda>y. ahead r (fst (entry m y)) \<le> ahead r tm) bs @ timeout #
         dropWhile (\<lambda>y. ahead r (fst (entry m y)) \<le> ahead r tm) bs)"
      "\<forall>y. map_option ent (m' y) = map_option ent (m y)" "\<forall>y. y \<notin> set (n # bs) \<longrightarrow> y \<noteq> timeout \<longrightarrow> m' y = m y"
      by auto
    have "m' x = m x" using m'(5) [rule_format, of x] d Cons.prems(3) by auto
    then have "tnext m' x = Some n" using e by (simp add: tnext_def)
    moreover have "timeout_insert timeout tm (Some x) s = timeout_insert timeout tm (Some n) s"
      using e ne False Cons.prems by (subst timeout_insert.simps) simp
    ultimately show ?thesis using m' False less by (intro exI [of _ m']) auto
  qed
qed


section \<open>Frames\<close>

lemma timers_frame [simp]:
  fixes s :: "'a timers_scheme"
  shows "timeo (memp_free t p s) = timeo s" "next_timeout (memp_free t p s) = next_timeout s"
    "current_timeout_due_time (memp_free t p s) = current_timeout_due_time s"
  by (simp_all add: memp_free_def do_memp_free_pool_def MEM_ALIGNMENT_def Let_def split: option.split)

lemma memp_free_pools [simp]: "memp_pools (memp_free t p s) = memp_pools s"
  by (simp add: memp_free_def do_memp_free_pool_def MEM_ALIGNMENT_def Let_def split: option.split)

lemma timers_malloc:
  fixes s :: "'a timers_scheme"
  assumes "memp_malloc t s = (p, s')"
  shows "timeo s' = timeo s" "next_timeout s' = next_timeout s" "current_timeout_due_time s' = current_timeout_due_time s"
proof -
  have e: "s' = snd (memp_malloc t s)" using assms by simp
  show "timeo s' = timeo s" "next_timeout s' = next_timeout s" "current_timeout_due_time s' = current_timeout_due_time s"
    unfolding e by (simp_all add: memp_malloc_def do_memp_malloc_pool_def MEM_ALIGNMENT_def Let_def split: option.split)
qed

lemma pools_upd [simp]:
  fixes s :: "'a timers_scheme"
  shows "pools_inv (timeo_update f s) = pools_inv s" "free_list (timeo_update f s) = free_list s" "elems (timeo_update f s) = elems s"
    "pools_inv (next_timeout_update g s) = pools_inv s" "free_list (next_timeout_update g s) = free_list s"
    "elems (next_timeout_update g s) = elems s"
    "pools_inv (current_timeout_due_time_update h s) = pools_inv s"
    "free_list (current_timeout_due_time_update h s) = free_list s"
    "elems (current_timeout_due_time_update h s) = elems s"
    "pools_inv (LWIP_ASSERT msg b s) = pools_inv s" "free_list (LWIP_ASSERT msg b s) = free_list s"
    "elems (LWIP_ASSERT msg b s) = elems s"
  by (simp_all add: LWIP_ASSERT_def pools_inv_def pool_ok_def free_list_def elems_def fun_eq_iff)

lemma entry_cong: "map_option ent (m' y) = map_option ent (m y) \<Longrightarrow> y \<in> dom m \<Longrightarrow> entry m' y = entry m y"
  by (auto simp: entry_def)

lemma tinsert_map:
  "tinsert r t (map f xs) = map f (takeWhile (\<lambda>y. ahead r (fst (f y)) \<le> ahead r (fst t)) xs) @ t #
     map f (dropWhile (\<lambda>y. ahead r (fst (f y)) \<le> ahead r (fst t)) xs)"
  by (simp add: tinsert_def takeWhile_map dropWhile_map o_def)

text \<open>Taking an element of the pool for a new timeout.\<close>

lemma timeout_fresh:
  assumes q: "tq s xs" and free: "free_list s MEMP_SYS_TIMEOUT \<noteq> []"
  shows "\<exists>x s1. memp_malloc MEMP_SYS_TIMEOUT s = (Some x, s1) \<and> x \<notin> set xs \<and>
    free_list s MEMP_SYS_TIMEOUT = x # free_list s1 MEMP_SYS_TIMEOUT \<and> memp_pools s1 = memp_pools s \<and> pools_inv s1 \<and>
    timeo s1 = timeo s \<and> next_timeout s1 = next_timeout s \<and> current_timeout_due_time s1 = current_timeout_due_time s \<and>
    elems s1 MEMP_SYS_TIMEOUT - set (free_list s1 MEMP_SYS_TIMEOUT) = insert x (set xs)"
proof -
  obtain p s1 where m: "memp_malloc MEMP_SYS_TIMEOUT s = (p, s1)" by fastforce
  have inv: "pools_inv s" using q by (simp add: tq_def)
  note ok = memp_malloc_ok [OF inv m]
  obtain x where x: "p = Some x" using ok free by (cases p) auto
  with ok have f: "x \<in> elems s MEMP_SYS_TIMEOUT" "free_list s MEMP_SYS_TIMEOUT = x # free_list s1 MEMP_SYS_TIMEOUT"
    "memp_pools s1 = memp_pools s" "pools_inv s1" by simp_all
  have d: "distinct (free_list s MEMP_SYS_TIMEOUT)" using inv by (simp add: pools_inv_def pool_ok_def)
  have "set xs = elems s MEMP_SYS_TIMEOUT - set (free_list s MEMP_SYS_TIMEOUT)" using q by (simp add: tq_def)
  then have "x \<notin> set xs" "elems s1 MEMP_SYS_TIMEOUT - set (free_list s1 MEMP_SYS_TIMEOUT) = insert x (set xs)"
    using f d elems_frame [OF f(3)] by auto
  with m x f timers_malloc [OF m] show ?thesis by blast
qed

lemma tqI:
  assumes "pools_inv s" "elems s MEMP_SYS_TIMEOUT - set (free_list s MEMP_SYS_TIMEOUT) = set xs"
    "links (tnext (timeo s)) (next_timeout s) xs" "dom (timeo s) = set xs"
  shows "tq s xs"
  using assms by (simp add: tq_def)

lemma set_take_drop: "set (takeWhile P xs) \<union> set (dropWhile P xs) = set xs"
  by (metis set_append takeWhile_dropWhile_id)

text \<open>A timeout put into the list goes behind all that are not later.\<close>

lemma timeout_abs_tq:
  assumes q: "tq s xs" and so: "soon r tm" "\<forall>y\<in>set xs. soon r (fst (entry (timeo s) y))"
    and free: "free_list s MEMP_SYS_TIMEOUT \<noteq> []"
  defines "P \<equiv> \<lambda>y. ahead r (fst (entry (timeo s) y)) \<le> ahead r tm"
  shows "\<exists>s' x. sys_timeout_abs tm h a s = Some s' \<and> tq s' (takeWhile P xs @ x # dropWhile P xs) \<and>
    entry (timeo s') x = (tm, h, a) \<and> (\<forall>y\<in>set xs. entry (timeo s') y = entry (timeo s) y) \<and>
    free_list s MEMP_SYS_TIMEOUT = x # free_list s' MEMP_SYS_TIMEOUT \<and> memp_pools s' = memp_pools s \<and>
    current_timeout_due_time s' = current_timeout_due_time s"
proof -
  obtain x s1 where m: "memp_malloc MEMP_SYS_TIMEOUT s = (Some x, s1)" and x: "x \<notin> set xs"
    and f: "free_list s MEMP_SYS_TIMEOUT = x # free_list s1 MEMP_SYS_TIMEOUT" "memp_pools s1 = memp_pools s" "pools_inv s1"
    and t: "timeo s1 = timeo s" "next_timeout s1 = next_timeout s" "current_timeout_due_time s1 = current_timeout_due_time s"
    and e: "elems s1 MEMP_SYS_TIMEOUT - set (free_list s1 MEMP_SYS_TIMEOUT) = insert x (set xs)"
    using timeout_fresh [OF q free] by blast
  have li: "links (tnext (timeo s)) (next_timeout s) xs" and d: "dom (timeo s) = set xs" using q by (simp_all add: tq_def)
  define e0 where "e0 = \<lparr>t_next = None, t_time = tm, t_h = h, t_arg = a\<rparr>"
  define m2 where "m2 = (timeo s)(x \<mapsto> e0)"
  have m2: "dom m2 = insert x (set xs)" "tnext m2 = (tnext (timeo s))(x := None)" "entry m2 x = (tm, h, a)"
    using d by (auto simp: m2_def tnext_def entry_def ent_def e0_def)
  have en: "\<forall>y\<in>set xs. entry m2 y = entry (timeo s) y" using x by (auto simp: m2_def entry_def)
  have li2: "links (tnext m2) (next_timeout s) xs" using li x by (simp add: m2(2) links_upd)
  have fin: ?thesis if r: "sys_timeout_abs tm h a s = Some (s1\<lparr>timeo := m', next_timeout := n'\<rparr>)"
    and l: "links (tnext m') n' (takeWhile P xs @ x # dropWhile P xs)"
    and o: "dom m' = dom m2" "\<forall>y. map_option ent (m' y) = map_option ent (m2 y)" for m' n'
  proof -
    have "entry m' y = entry m2 y" if "y \<in> dom m2" for y using o(2) that by (intro entry_cong) auto
    moreover have "tq (s1\<lparr>timeo := m', next_timeout := n'\<rparr>) (takeWhile P xs @ x # dropWhile P xs)"
      using f l o m2 e by (intro tqI) (simp_all add: set_take_drop)
    ultimately show ?thesis using r f t m2 en by (intro exI [of _ "s1\<lparr>timeo := m', next_timeout := n'\<rparr>"] exI [of _ x]) auto
  qed
  show ?thesis
  proof (cases "next_timeout s")
    case None
    then have "xs = []" using li by (cases xs) auto
    then show ?thesis using m t None m2 by (intro fin [where m' = m2 and n' = "Some x"]) (auto simp: sys_timeout_abs_def e0_def m2_def)
  next
    case (Some g)
    then obtain bs where xs: "xs = g # bs" using li by (cases xs) auto
    then obtain ge where ge: "timeo s g = Some ge" using d by auto
    have sg: "soon r (t_time ge)" using so(2) xs ge by (simp add: entry_def ent_def)
    have Pg: "P g \<longleftrightarrow> \<not> TIME_LESS_THAN tm (t_time ge)"
      unfolding P_def time_less [OF so(1) sg] using ge by (auto simp: entry_def ent_def)
    have gx: "g \<noteq> x" using x xs by auto
    have xg: "m2 g = Some ge" using ge x xs by (auto simp: m2_def)
    show ?thesis
    proof (cases "TIME_LESS_THAN tm (t_time ge)")
      case True
      have "sys_timeout_abs tm h a s = Some (s1\<lparr>timeo := set_next x (Some g) m2, next_timeout := Some x\<rparr>)"
        using m t Some xg True by (simp add: sys_timeout_abs_def m2_def [symmetric] e0_def [symmetric] upd_next)
      from fin [OF this] show ?thesis using True Pg xs li2 Some x gx m2 by (simp add: links_upd)
    next
      case False
      have "set (g # bs) \<subseteq> dom m2" "x \<notin> set (g # bs)" "x \<in> dom m2" "\<forall>y\<in>set bs. soon r (fst (entry m2 y))"
        "links (tnext m2) (Some g) (g # bs)" "timeo (s1\<lparr>timeo := m2\<rparr>) = m2"
        using m2 x xs so(2) en li2 Some by auto
      from insert_loop [OF this(5,1-3) so(1) this(4,6)] obtain m' where
        i: "timeout_insert x tm (Some g) (s1\<lparr>timeo := m2\<rparr>) = Some (s1\<lparr>timeo := m'\<rparr>)" "dom m' = dom m2"
        "links (tnext m') (Some g) (g # takeWhile (\<lambda>y. ahead r (fst (entry m2 y)) \<le> ahead r tm) bs @ x #
           dropWhile (\<lambda>y. ahead r (fst (entry m2 y)) \<le> ahead r tm) bs)"
        "\<forall>y. map_option ent (m' y) = map_option ent (m2 y)"
        by auto
      have w: "takeWhile (\<lambda>y. ahead r (fst (entry m2 y)) \<le> ahead r tm) bs = takeWhile P bs"
        "dropWhile (\<lambda>y. ahead r (fst (entry m2 y)) \<le> ahead r tm) bs = dropWhile P bs"
        using en xs by (auto simp: P_def intro!: takeWhile_cong dropWhile_cong)
      have "sys_timeout_abs tm h a s = Some (s1\<lparr>timeo := m', next_timeout := Some g\<rparr>)"
        using m t Some xg False i(1) by (simp add: sys_timeout_abs_def m2_def [symmetric] e0_def [symmetric])
      from fin [OF this] show ?thesis using False Pg xs i w by simp
    qed
  qed
qed

section \<open>Refinement\<close>

lemma tq_length:
  assumes "tq s xs"
  shows "length xs + length (free_list s MEMP_SYS_TIMEOUT) = d_num (memp_pools s MEMP_SYS_TIMEOUT)" "distinct xs"
proof -
  have ok: "pool_ok s MEMP_SYS_TIMEOUT" and e: "set xs = elems s MEMP_SYS_TIMEOUT - set (free_list s MEMP_SYS_TIMEOUT)"
    using assms by (simp_all add: tq_def pools_inv_def)
  show d: "distinct xs" using assms links_distinct by (auto simp: tq_def)
  have sub: "set (free_list s MEMP_SYS_TIMEOUT) \<subseteq> elems s MEMP_SYS_TIMEOUT" "distinct (free_list s MEMP_SYS_TIMEOUT)"
    using ok by (simp_all add: pool_ok_def)
  have "card (elems s MEMP_SYS_TIMEOUT) = d_num (memp_pools s MEMP_SYS_TIMEOUT)" using ok elems_card [of s MEMP_SYS_TIMEOUT] by (simp add: pool_ok_def)
  then have "card (set xs) = d_num (memp_pools s MEMP_SYS_TIMEOUT) - length (free_list s MEMP_SYS_TIMEOUT)"
    using card_Diff_subset [OF _ sub(1)] sub(2) unfolding e by (simp add: distinct_card)
  then show "length xs + length (free_list s MEMP_SYS_TIMEOUT) = d_num (memp_pools s MEMP_SYS_TIMEOUT)"
    using free_length [OF ok] d by (simp add: distinct_card)
qed

lemma tinsert_sorted:
  "sorted (map (ahead r \<circ> fst) ts) \<Longrightarrow> sorted (map (ahead r \<circ> fst) (tinsert r t ts))"
proof (induction ts)
  case (Cons u ts)
  show ?case
  proof (cases "ahead r (fst u) \<le> ahead r (fst t)")
    case True
    then have e: "tinsert r t (u # ts) = u # tinsert r t ts" by (simp add: tinsert_def)
    have "set (tinsert r t ts) = insert t (set ts)" using set_take_drop [of _ ts] by (simp add: tinsert_def)
    with Cons True show ?thesis unfolding e by simp
  next
    case False
    with Cons.prems show ?thesis by (auto simp: tinsert_def intro: order_trans)
  qed
qed (simp add: tinsert_def)

lemma mset_tinsert: "mset (tinsert r t ts) = add_mset t (mset ts)"
  by (simp add: tinsert_def) (metis mset_append takeWhile_dropWhile_id)

lemma set_tinsert: "set (tinsert r t ts) = insert t (set ts)"
  using mset_tinsert [of r t ts] by (metis set_mset_add_mset_insert set_mset_mset)

lemma timeout_abs_ok:
  assumes "holds_timers r s ts" "soon r tm" "length ts < d_num (memp_pools s MEMP_SYS_TIMEOUT)"
  shows "\<exists>s'. sys_timeout_abs tm h a s = Some s' \<and> holds_timers r s' (tinsert r (tm, h, a) ts) \<and>
    memp_pools s' = memp_pools s \<and> current_timeout_due_time s' = current_timeout_due_time s"
proof -
  obtain xs where q: "tq s xs" and ts: "ts = map (entry (timeo s)) xs"
    and so: "sorted (map (ahead r \<circ> fst) ts)" "list_all (soon r \<circ> fst) ts"
    using assms(1) by (auto simp: holds_timers_def)
  have f: "free_list s MEMP_SYS_TIMEOUT \<noteq> []" using tq_length(1) [OF q] assms(3) ts by auto
  have w: "\<forall>y\<in>set xs. soon r (fst (entry (timeo s) y))" using so(2) ts by (auto simp: list_all_iff)
  let ?P = "\<lambda>y. ahead r (fst (entry (timeo s) y)) \<le> ahead r tm"
  obtain s' x where s': "sys_timeout_abs tm h a s = Some s'" "tq s' (takeWhile ?P xs @ x # dropWhile ?P xs)"
    "entry (timeo s') x = (tm, h, a)" "\<forall>y\<in>set xs. entry (timeo s') y = entry (timeo s) y"
    "memp_pools s' = memp_pools s" "current_timeout_due_time s' = current_timeout_due_time s"
    using timeout_abs_tq [OF q assms(2) w f] by blast
  have "map (entry (timeo s')) (takeWhile ?P xs @ x # dropWhile ?P xs) = tinsert r (tm, h, a) ts"
    using s'(3,4) set_take_drop [of ?P xs] unfolding ts tinsert_map by auto
  moreover have "list_all (soon r \<circ> fst) (tinsert r (tm, h, a) ts)"
    using so(2) assms(2) by (simp add: list_all_iff set_tinsert)
  ultimately show ?thesis using s' tinsert_sorted [OF so(1)] by (auto simp: holds_timers_def)
qed

text \<open>With no element left in the pool a timeout is dropped and reported.\<close>

lemma timeout_abs_full:
  assumes "holds_timers r s ts" "length ts = d_num (memp_pools s MEMP_SYS_TIMEOUT)"
  shows "\<exists>s'. sys_timeout_abs tm h a s = Some s' \<and> holds_timers r s' ts \<and> length (diag s') = length (diag s) + 1"
proof -
  obtain xs where q: "tq s xs" and ts: "ts = map (entry (timeo s)) xs" using assms(1) by (auto simp: holds_timers_def)
  have f: "free_list s MEMP_SYS_TIMEOUT = []" using tq_length(1) [OF q] assms(2) ts by auto
  obtain p s1 where m: "memp_malloc MEMP_SYS_TIMEOUT s = (p, s1)" by fastforce
  have inv: "pools_inv s" using q by (simp add: tq_def)
  have ok: "p = None" "pools_inv s1" "memp_pools s1 = memp_pools s" "free_list s1 MEMP_SYS_TIMEOUT = free_list s MEMP_SYS_TIMEOUT"
    using memp_malloc_ok [OF inv m] f by (cases p; simp)+
  let ?s = "LWIP_ASSERT ''sys_timeout: timeout != NULL, pool MEMP_SYS_TIMEOUT is empty'' False s1"
  have t: "timeo ?s = timeo s" "next_timeout ?s = next_timeout s" using timers_malloc [OF m] by (simp_all add: LWIP_ASSERT_def)
  have "tq ?s xs" using q ok t elems_frame [OF ok(3)] unfolding tq_def by simp
  moreover have "sys_timeout_abs tm h a s = Some ?s" using m ok(1) by (simp add: sys_timeout_abs_def)
  moreover have "length (diag ?s) = length (diag s) + 1" using memp_malloc_fields(6) [OF m] by (simp add: LWIP_ASSERT_def)
  ultimately show ?thesis using assms(1) ts t by (auto simp: holds_timers_def)
qed

section \<open>Taking timeouts out\<close>

lemma links_splice: "links n p (as @ q # y # ds) \<Longrightarrow> links (n(q := n y)) p (as @ q # ds)"
proof -
  assume l: "links n p (as @ q # y # ds)"
  have "q \<notin> set as" "q \<notin> set ds" using links_distinct [OF l] by auto
  with l show ?thesis by (induction as arbitrary: p) (auto simp: links_upd)
qed

lemma tnext_None: "tnext (m(y := None)) = (tnext m)(y := None)"
  by (auto simp: tnext_def)

text \<open>Giving an unlinked element back to the pool.\<close>

lemma tq_release:
  assumes q: "tq s (as @ y # ds)" and s1: "pools_inv s1" "free_list s1 = free_list s" "memp_pools s1 = memp_pools s"
    and m: "dom m = set (as @ ds)" "links (tnext m) n (as @ ds)"
    and s2: "s2 = memp_free MEMP_SYS_TIMEOUT (Some y) s1" "pools_inv s' = pools_inv s2" "free_list s' = free_list s2"
    "memp_pools s' = memp_pools s2" "timeo s' = m" "next_timeout s' = n"
  shows "tq s' (as @ ds)"
proof -
  have e: "set (as @ y # ds) = elems s MEMP_SYS_TIMEOUT - set (free_list s MEMP_SYS_TIMEOUT)" using q by (simp add: tq_def)
  have y: "y \<in> elems s1 MEMP_SYS_TIMEOUT" "y \<notin> set (free_list s1 MEMP_SYS_TIMEOUT)"
    using e s1 elems_frame [OF s1(3)] by auto
  note ok = memp_free_ok [OF s1(1) y, folded s2(1)]
  have "elems s' MEMP_SYS_TIMEOUT = elems s MEMP_SYS_TIMEOUT" using s2 ok s1(3) by (intro elems_frame) simp
  moreover have "y \<notin> set (as @ ds)" using tq_length(2) [OF q] by auto
  ultimately have "elems s' MEMP_SYS_TIMEOUT - set (free_list s' MEMP_SYS_TIMEOUT) = set (as @ ds)"
    using e ok s1(2) s2(3) by auto
  then show ?thesis using ok s2 m by (intro tqI) simp_all
qed

fun tremove :: "timer_handler option \<Rightarrow> timer_arg \<Rightarrow> timer list \<Rightarrow> timer list" where
  "tremove h a [] = []"
| "tremove h a (t # ts) = (if snd t = (h, a) then ts else t # tremove h a ts)"

lemma untimeout_loop_ok:
  assumes "tq s (as @ bs)" "prev = (if as = [] then None else Some (last as))"
    "t = (case bs of [] \<Rightarrow> None | x # _ \<Rightarrow> Some x)"
  shows "\<exists>s' cs. untimeout_loop h a prev t s = Some s' \<and> tq s' (as @ cs) \<and> set cs \<subseteq> set bs \<and>
    map (entry (timeo s)) cs = tremove h a (map (entry (timeo s)) bs) \<and>
    (\<forall>y\<in>set (as @ cs). entry (timeo s') y = entry (timeo s) y) \<and> memp_pools s' = memp_pools s"
  using assms
proof (induction bs arbitrary: as prev t)
  case Nil
  then show ?case by (subst untimeout_loop.simps) auto
next
  case (Cons y ds)
  have li: "links (tnext (timeo s)) (next_timeout s) (as @ y # ds)" and d: "dom (timeo s) = set (as @ y # ds)"
    and inv: "pools_inv s" using Cons.prems(1) by (simp_all add: tq_def)
  have y: "y \<notin> set as" "y \<notin> set ds" using links_distinct [OF li] by auto
  obtain e where e: "timeo s y = Some e" using d by auto
  have ny: "links (tnext (timeo s)) (Some y) (y # ds)" by (rule links_suffix [OF li])
  then have hd: "t_next e = (case ds of [] \<Rightarrow> None | x # _ \<Rightarrow> Some x)" using e by (cases ds) (auto simp: tnext_def)
  have en: "entry (timeo s) y = ent e" using e by (simp add: entry_def)
  show ?case
  proof (cases "t_h e = h \<and> t_arg e = a")
    case False
    have "untimeout_loop h a prev t s = untimeout_loop h a (Some y) (t_next e) s"
      using e False Cons.prems(3) by (subst untimeout_loop.simps) auto
    moreover obtain s' cs where "untimeout_loop h a (Some y) (t_next e) s = Some s'" "tq s' ((as @ [y]) @ cs)" "set cs \<subseteq> set ds"
      "map (entry (timeo s)) cs = tremove h a (map (entry (timeo s)) ds)"
      "\<forall>x\<in>set ((as @ [y]) @ cs). entry (timeo s') x = entry (timeo s) x" "memp_pools s' = memp_pools s"
      using Cons.IH [of "as @ [y]" "Some y" "t_next e"] Cons.prems(1) hd by auto
    ultimately show ?thesis using False en by (intro exI [of _ s'] exI [of _ "y # cs"]) (auto simp: ent_def)
  next
    case True
    define m where "m = (case prev of None \<Rightarrow> timeo s | Some q \<Rightarrow> set_next q (t_next e) (timeo s))"
    define n where "n = (case prev of None \<Rightarrow> t_next e | Some q \<Rightarrow> next_timeout s)"
    define s1 where "s1 = s\<lparr>timeo := m, next_timeout := n\<rparr>"
    define s' where "s' = memp_free MEMP_SYS_TIMEOUT (Some y) s1\<lparr>timeo := m(y := None)\<rparr>"
    have r: "untimeout_loop h a prev t s = Some s'"
      using e True Cons.prems(3)
      by (subst untimeout_loop.simps) (cases prev; simp add: s'_def s1_def m_def n_def Let_def upd_next)
    have lk: "links (tnext m) n (as @ ds) \<and> dom m = dom (timeo s)"
    proof (cases as rule: rev_cases)
      case Nil
      then show ?thesis using Cons.prems(2) ny e by (simp add: m_def n_def tnext_def)
    next
      case (snoc as' q)
      have "q \<in> dom (timeo s)" using d snoc by simp
      moreover have "tnext (timeo s) y = t_next e" using e by (simp add: tnext_def)
      ultimately show ?thesis
        using links_splice [of "tnext (timeo s)" "next_timeout s" as' q y ds] li snoc Cons.prems(2)
        by (simp add: m_def n_def)
    qed
    have k: "dom (m(y := None)) = set (as @ ds)" "links (tnext (m(y := None))) n (as @ ds)"
      using lk d y by (auto simp: tnext_None links_upd)
    have "tq s' (as @ ds)"
      by (rule tq_release [OF Cons.prems(1) _ _ _ k, of s1 "memp_free MEMP_SYS_TIMEOUT (Some y) s1"]) (simp_all add: s1_def s'_def inv)
    moreover have "entry (timeo s') x = entry (timeo s) x" if "x \<in> set (as @ ds)" for x
      using that y by (auto simp: s'_def m_def entry_def set_next_def ent_def map_option_case split: option.split)
    moreover have "memp_pools s' = memp_pools s" by (simp add: s'_def s1_def memp_free_pools)
    ultimately show ?thesis using r True en by (intro exI [of _ s'] exI [of _ ds]) (auto simp: ent_def)
  qed
qed

lemma tremove_set: "set (tremove h a ts) \<subseteq> set ts"
  by (induction ts) auto

lemma tremove_sorted: "sorted (map f ts) \<Longrightarrow> sorted (map f (tremove h a ts))"
  using tremove_set by (induction ts) fastforce+

lemma untimeout_ok:
  assumes "holds_timers r s ts"
  shows "\<exists>s'. sys_untimeout h a s = Some s' \<and> holds_timers r s' (tremove h a ts)"
proof -
  obtain xs where q: "tq s xs" and ts: "ts = map (entry (timeo s)) xs"
    and so: "sorted (map (ahead r \<circ> fst) ts)" "list_all (soon r \<circ> fst) ts"
    using assms by (auto simp: holds_timers_def)
  have "next_timeout s = (case xs of [] \<Rightarrow> None | x # _ \<Rightarrow> Some x)" using q by (cases xs) (auto simp: tq_def)
  from untimeout_loop_ok [of s "[]" xs None _ h a] q this obtain s' cs where
    u: "sys_untimeout h a s = Some s'" "tq s' cs" "map (entry (timeo s)) cs = tremove h a ts"
    "\<forall>y\<in>set cs. entry (timeo s') y = entry (timeo s) y"
    using ts by (auto simp: sys_untimeout_def)
  moreover have "map (entry (timeo s')) cs = tremove h a ts" using u(3,4) by (metis map_cong)
  moreover have "list_all (soon r \<circ> fst) (tremove h a ts)" using so(2) tremove_set [of h a ts] by (auto simp: list_all_iff)
  ultimately show ?thesis using tremove_sorted [OF so(1)] by (auto simp: holds_timers_def)
qed

lemma sleeptime_ok:
  assumes "holds_timers r s ts" "soon r (hk_now H s)"
  shows "sys_timeouts_sleeptime H s =
    Some (case ts of [] \<Rightarrow> 0xffffffff | t # _ \<Rightarrow> of_nat (ahead r (fst t) - ahead r (hk_now H s)), s)"
proof -
  obtain xs where q: "tq s xs" and ts: "ts = map (entry (timeo s)) xs" and so: "list_all (soon r \<circ> fst) ts"
    using assms by (auto simp: holds_timers_def)
  show ?thesis
  proof (cases xs)
    case Nil
    then show ?thesis using q ts by (simp add: sys_timeouts_sleeptime_def tq_def)
  next
    case (Cons x ys)
    then obtain e where e: "next_timeout s = Some x" "timeo s x = Some e" using q by (auto simp: tq_def)
    have t: "soon r (t_time e)" "ts = ent e # map (entry (timeo s)) ys" using so ts Cons e by (simp_all add: entry_def ent_def)
    have u: "unat (t_time e - hk_now H s) = ahead r (t_time e) - ahead r (hk_now H s)"
      if "ahead r (hk_now H s) \<le> ahead r (t_time e)"
    proof -
      have "t_time e - hk_now H s = (t_time e - r) - (hk_now H s - r)" by simp
      then show ?thesis using that unfolding ahead_def by (metis unat_sub word_le_nat_alt)
    qed
    then have "t_time e - hk_now H s = of_nat (ahead r (t_time e) - ahead r (hk_now H s))"
      if "ahead r (hk_now H s) \<le> ahead r (t_time e)" using that by (metis word_of_nat_unat)
    with u show ?thesis
      using e t time_less [OF t(1) assms(2)] t(1)
      by (auto simp: sys_timeouts_sleeptime_def Let_def ent_def soon_def not_less LWIP_MAX_TIMEOUT_def word_le_nat_alt
          simp del: of_nat_diff)
  qed
qed

text \<open>
  C27. The list of timeouts implements a queue ordered by due time, as long as all times lie within
  half the range of the clock from a common point \<open>r\<close>, also where the clock wraps around:
  \<^verbatim>\<open>sys_timeout\<close> puts a timeout behind all that are not later (and drops it, with a report, when
  the pool is used up), \<^verbatim>\<open>sys_untimeout\<close> removes the first one with the given handler and argument,
  and \<^verbatim>\<open>sys_timeouts_sleeptime\<close> gives the time to the first one.
\<close>

theorem timer_queue_refines:
  assumes "holds_timers r s ts" "soon r (hk_now H s)" "soon r (hk_now H s + msecs)" "msecs \<le> 0x3fffffff"
  shows "(\<exists>s'. sys_timeout H msecs h a s = Some s' \<and> holds_timers r s'
      (if length ts < d_num (memp_pools s MEMP_SYS_TIMEOUT) then tinsert r (hk_now H s + msecs, h, a) ts else ts)) \<and>
    (\<exists>s'. sys_untimeout h a s = Some s' \<and> holds_timers r s' (tremove h a ts)) \<and>
    sys_timeouts_sleeptime H s =
      Some (case ts of [] \<Rightarrow> 0xffffffff | t # _ \<Rightarrow> of_nat (ahead r (fst t) - ahead r (hk_now H s)), s)"
proof -
  have st: "sys_timeout H msecs h a s = sys_timeout_abs (hk_now H s + msecs) h a s"
    using assms(4) by (simp add: sys_timeout_def)
  have "length ts \<le> d_num (memp_pools s MEMP_SYS_TIMEOUT)"
    using assms(1) tq_length(1) by (fastforce simp: holds_timers_def)
  then show ?thesis
    unfolding st using timeout_abs_ok [where h = h and a = a, OF assms(1,3)]
      timeout_abs_full [where h = h and a = a and tm = "hk_now H s + msecs", OF assms(1)] untimeout_ok [OF assms(1)]
      sleeptime_ok [where H = H, OF assms(1,2)] by (auto simp: le_less)
qed


section \<open>Checking the cyclic timers\<close>

text \<open>What a handler keeps: the timeouts, the pool they come from and the static variable.\<close>

definition same_timers :: "'a timers_scheme \<Rightarrow> 'a timers_scheme \<Rightarrow> bool" where
  "same_timers s s' \<longleftrightarrow> timeo s' = timeo s \<and> next_timeout s' = next_timeout s \<and>
     current_timeout_due_time s' = current_timeout_due_time s \<and> memp_pools s' = memp_pools s \<and>
     free_list s' MEMP_SYS_TIMEOUT = free_list s MEMP_SYS_TIMEOUT \<and> (pools_inv s \<longrightarrow> pools_inv s')"

definition quiet :: "('a timers_scheme \<Rightarrow> 'a timers_scheme option) \<Rightarrow> bool" where
  "quiet f \<longleftrightarrow> (\<forall>s. \<exists>s'. f s = Some s' \<and> same_timers s s')"

lemma holds_same:
  assumes "holds_timers r s ts" "same_timers s s'"
  shows "holds_timers r s' ts"
proof -
  have "tq s' xs" if "tq s xs" for xs
    using that assms(2) elems_frame [of s' s] by (simp add: tq_def same_timers_def)
  then show ?thesis using assms by (auto simp: holds_timers_def same_timers_def)
qed

definition is_cyclic :: "timer \<Rightarrow> bool" where
  "is_cyclic t \<longleftrightarrow> (\<exists>i. i < length lwip_cyclic_timers \<and> snd t = (Some H_lwip_cyclic_timer, A_cyclic i))"

text \<open>The first timeout is taken from the list.\<close>

lemma pop_ok:
  assumes "holds_timers r s (t # ts)"
  shows "\<exists>x e. next_timeout s = Some x \<and> timeo s x = Some e \<and> t = ent e \<and>
    holds_timers r (memp_free MEMP_SYS_TIMEOUT (Some x) (s\<lparr>next_timeout := t_next e,
      current_timeout_due_time := t_time e, timeo := (timeo s)(x := None)\<rparr>)) ts \<and>
    length ts < d_num (memp_pools s MEMP_SYS_TIMEOUT)"
proof -
  obtain x ys where q: "tq s (x # ys)" and ts: "t = entry (timeo s) x" "ts = map (entry (timeo s)) ys"
    and so: "sorted (map (ahead r \<circ> fst) (t # ts))" "list_all (soon r \<circ> fst) (t # ts)"
    using assms by (auto simp: holds_timers_def map_eq_Cons_conv eq_commute [of "_ # _"])
  have li: "links (tnext (timeo s)) (next_timeout s) (x # ys)" and d: "dom (timeo s) = set (x # ys)" and inv: "pools_inv s"
    using q by (simp_all add: tq_def)
  obtain e where e: "timeo s x = Some e" using d by auto
  have x: "x \<notin> set ys" using links_distinct [OF li] by simp
  let ?s1 = "s\<lparr>next_timeout := t_next e, current_timeout_due_time := t_time e, timeo := (timeo s)(x := None)\<rparr>"
  let ?s = "memp_free MEMP_SYS_TIMEOUT (Some x) ?s1"
  have "dom ((timeo s)(x := None)) = set ([] @ ys)" "links (tnext ((timeo s)(x := None))) (t_next e) ([] @ ys)"
    using li d x e by (auto simp: tnext_None links_upd tnext_def)
  note k = this
  have "tq s ([] @ x # ys)" using q by simp
  from tq_release [OF this _ _ _ k, of ?s1 ?s ?s] inv have "tq ?s ys" by simp
  moreover have "ts = map (entry (timeo ?s)) ys" using ts x by (auto simp: entry_def)
  moreover have "length ts < d_num (memp_pools s MEMP_SYS_TIMEOUT)" using tq_length(1) [OF q] ts(2) by simp
  ultimately show ?thesis using li e ts(1) so by (auto simp: holds_timers_def entry_def)
qed

lemma ahead_add: "ahead r d + unat iv < 4294967296 \<Longrightarrow> ahead r (d + iv) = ahead r d + unat iv"
proof -
  have "d + iv - r = (d - r) + iv" by simp
  moreover have "unat (d - r) + unat iv < 4294967296 \<Longrightarrow> unat ((d - r) + iv) = unat (d - r) + unat iv"
    by (simp only: unat_word_ariths) simp
  ultimately show "ahead r d + unat iv < 4294967296 \<Longrightarrow> ?thesis" unfolding ahead_def by metis
qed

lemma interval_bounds:
  "i < length lwip_cyclic_timers \<Longrightarrow>
   0 < unat (interval_ms (lwip_cyclic_timers ! i)) \<and> unat (interval_ms (lwip_cyclic_timers ! i)) \<le> 60000"
proof -
  have "\<forall>c\<in>set lwip_cyclic_timers. 0 < unat (interval_ms c) \<and> unat (interval_ms c) \<le> 60000"
    by (simp add: lwip_cyclic_timers_def TCP_TMR_INTERVAL_def)
  then show "i < length lwip_cyclic_timers \<Longrightarrow> ?thesis" using nth_mem by blast
qed

lemma cyclic_step:
  assumes "holds_timers r s ts" "length ts < d_num (memp_pools s MEMP_SYS_TIMEOUT)" "i < length lwip_cyclic_timers"
    and d: "current_timeout_due_time s = d" "ahead r d \<le> ahead r now" "ahead r now + 60000 \<le> 0x7fffffff"
    and H: "\<forall>c. quiet (hk_tmr H c)" "\<forall>s. hk_now H s = now"
  shows "\<exists>s' t'. lwip_cyclic_timer H i s = Some s' \<and> memp_pools s' = memp_pools s \<and>
    holds_timers r s' (tinsert r (t', Some H_lwip_cyclic_timer, A_cyclic i) ts) \<and>
    ahead r now \<le> ahead r t' \<and> (ahead r d = ahead r now \<longrightarrow> ahead r now < ahead r t')"
proof -
  define iv where "iv = interval_ms (lwip_cyclic_timers ! i)"
  have iv: "0 < unat iv" "unat iv \<le> 60000" using interval_bounds [OF assms(3)] by (simp_all add: iv_def)
  obtain s1 where s1: "hk_tmr H (c_handler (lwip_cyclic_timers ! i)) s = Some s1" "same_timers s s1"
    using H(1) by (auto simp: quiet_def)
  have a: "ahead r (d + iv) = ahead r d + unat iv" "ahead r (now + iv) = ahead r now + unat iv"
    using ahead_add [of r d iv] ahead_add [of r now iv] iv(2) d(2,3) by linarith+
  then have so: "soon r (d + iv)" "soon r (now + iv)" "soon r now" using iv d by (simp_all add: soon_def)
  define t' where "t' = (if TIME_LESS_THAN (d + iv) now then now + iv else d + iv)"
  have less: "TIME_LESS_THAN (d + iv) now \<longleftrightarrow> ahead r (d + iv) < ahead r now" by (rule time_less [OF so(1,3)])
  have t': "soon r t'" "ahead r now \<le> ahead r t'" "ahead r d = ahead r now \<longrightarrow> ahead r now < ahead r t'"
    using so a less iv by (auto simp: t'_def)
  have "current_timeout_due_time s1 = d" "memp_pools s1 = memp_pools s" using s1(2) d(1) by (simp_all add: same_timers_def)
  then have "lwip_cyclic_timer H i s = sys_timeout_abs t' (Some H_lwip_cyclic_timer) (A_cyclic i) s1"
    using assms(3) s1(1) H(2) by (simp add: lwip_cyclic_timer_def Let_def iv_def [symmetric] t'_def)
  with timeout_abs_ok [OF holds_same [OF assms(1) s1(2)] t'(1), of "Some H_lwip_cyclic_timer" "A_cyclic i"]
  show ?thesis using t' assms(2) \<open>memp_pools s1 = memp_pools s\<close> by auto
qed

text \<open>How often a timeout can still expire in the running check.\<close>

definition weight :: "u32 \<Rightarrow> u32 \<Rightarrow> timer \<Rightarrow> nat" where
  "weight r now t = (if ahead r (fst t) < ahead r now then 2 else if ahead r (fst t) = ahead r now then 1 else 0)"

lemma sum_weight: "sum_list (map (weight r now) (tinsert q t ts)) = weight r now t + sum_list (map (weight r now) ts)"
  unfolding tinsert_def by (induction ts) auto

lemma check_loop_ok:
  assumes "holds_timers r s ts" "\<forall>t\<in>set ts. is_cyclic t" "ahead r now + 60000 \<le> 0x7fffffff"
    and H: "\<forall>c. quiet (hk_tmr H c)" "quiet (hk_free_ooseq H)" "\<forall>s. hk_now H s = now"
  shows "\<exists>s' ts'. check_timeouts_loop H now s = Some s' \<and> holds_timers r s' ts' \<and>
    mset (map snd ts') = mset (map snd ts) \<and> (\<forall>t\<in>set ts'. ahead r now < ahead r (fst t))"
  using assms(1,2)
proof (induction "sum_list (map (weight r now) ts)" arbitrary: s ts rule: less_induct)
  case less
  obtain s1 where s1: "PBUF_CHECK_FREE_OOSEQ H s = Some s1" "same_timers s s1"
    using H(2) by (cases "pbuf_free_ooseq_pending s") (auto simp: PBUF_CHECK_FREE_OOSEQ_def quiet_def same_timers_def)
  note h1 = holds_same [OF less.prems(1) s1(2)]
  have sn: "soon r now" using assms(3) by (simp add: soon_def)
  show ?case
  proof (cases ts)
    case Nil
    then have "next_timeout s1 = None" using h1 by (auto simp: holds_timers_def tq_def)
    then show ?thesis using s1(1) h1 Nil by (subst check_timeouts_loop.simps) auto
  next
    case (Cons t us)
    from pop_ok [OF h1 [unfolded Cons]] obtain x e where x: "next_timeout s1 = Some x" "timeo s1 x = Some e" "t = ent e"
      and room: "length us < d_num (memp_pools s1 MEMP_SYS_TIMEOUT)"
      and h2: "holds_timers r (memp_free MEMP_SYS_TIMEOUT (Some x) (s1\<lparr>next_timeout := t_next e,
        current_timeout_due_time := t_time e, timeo := (timeo s1)(x := None)\<rparr>)) us" by blast
    let ?s2 = "memp_free MEMP_SYS_TIMEOUT (Some x) (s1\<lparr>next_timeout := t_next e,
        current_timeout_due_time := t_time e, timeo := (timeo s1)(x := None)\<rparr>)"
    have st: "soon r (t_time e)" "sorted (map (ahead r \<circ> fst) ts)"
      using h1 Cons x(3) by (simp_all add: holds_timers_def ent_def)
    have lt: "TIME_LESS_THAN now (t_time e) \<longleftrightarrow> ahead r now < ahead r (t_time e)" by (rule time_less [OF sn st(1)])
    show ?thesis
    proof (cases "TIME_LESS_THAN now (t_time e)")
      case True
      then have "check_timeouts_loop H now s = Some s1" using s1(1) x by (subst check_timeouts_loop.simps) simp
      moreover have "\<forall>u\<in>set ts. ahead r now < ahead r (fst u)" using True lt st(2) Cons x(3) by (auto simp: ent_def)
      ultimately show ?thesis using h1 by blast
    next
      case False
      obtain i where i: "i < length lwip_cyclic_timers" "t_h e = Some H_lwip_cyclic_timer" "t_arg e = A_cyclic i"
        using less.prems(2) Cons x(3) by (auto simp: is_cyclic_def ent_def)
      have "length us < d_num (memp_pools ?s2 MEMP_SYS_TIMEOUT)" "current_timeout_due_time ?s2 = t_time e"
        "ahead r (t_time e) \<le> ahead r now" using room False lt by simp_all
      from cyclic_step [OF h2 this(1) i(1) this(2,3) assms(3) H(1,3)] obtain s3 t' where
        c: "lwip_cyclic_timer H i ?s2 = Some s3" "holds_timers r s3 (tinsert r (t', Some H_lwip_cyclic_timer, A_cyclic i) us)"
        "ahead r now \<le> ahead r t'" "ahead r (t_time e) = ahead r now \<longrightarrow> ahead r now < ahead r t'" by auto
      let ?ts = "tinsert r (t', Some H_lwip_cyclic_timer, A_cyclic i) us"
      have "sum_list (map (weight r now) ?ts) < sum_list (map (weight r now) ts)"
        unfolding sum_weight using Cons x(3) c(3,4) False lt by (auto simp: weight_def ent_def)
      moreover have "\<forall>u\<in>set ?ts. is_cyclic u" using less.prems(2) Cons i(1) by (auto simp: set_tinsert is_cyclic_def)
      moreover have "check_timeouts_loop H now s = check_timeouts_loop H now s3"
        using s1(1) x i False c(1) by (subst check_timeouts_loop.simps) (simp add: call_handler_def)
      moreover have "mset (map snd ?ts) = mset (map snd ts)"
        using Cons x(3) i by (simp add: mset_tinsert ent_def)
      ultimately show ?thesis using less.hyps [of ?ts s3] c(2) by auto
    qed
  qed
qed

text \<open>
  C28. As long as no handler interferes with the timers, every call of \<^verbatim>\<open>sys_check_timeouts\<close> in a system
  of cyclic timers returns; all timers stay armed and none is due any more afterwards, however long
  ago the last call was.
\<close>

theorem check_timeouts_cyclic:
  assumes "holds_timers r s ts" "\<forall>t\<in>set ts. is_cyclic t" "ahead r now + 60000 \<le> 0x7fffffff"
    "\<forall>c. quiet (hk_tmr H c)" "quiet (hk_free_ooseq H)" "\<forall>s. hk_now H s = now"
  shows "\<exists>s' ts'. sys_check_timeouts H s = Some s' \<and> holds_timers r s' ts' \<and>
    mset (map snd ts') = mset (map snd ts) \<and> (\<forall>t\<in>set ts'. ahead r now < ahead r (fst t))"
  unfolding sys_check_timeouts_def using check_loop_ok [OF assms] assms(6) by simp

section \<open>The state after initialisation\<close>

definition timers_boot :: "(memp_t \<Rightarrow> memp_desc) \<Rightarrow> timers" where
  "timers_boot D = stack.extend (stack_boot D) (timers.fields Map.empty None 0 False None None)"

lemma timers_boot_sel [simp]:
  "timeo (timers_boot D) = Map.empty" "next_timeout (timers_boot D) = None"
  "pbuf_free_ooseq_pending (timers_boot D) = pbuf_free_ooseq_pending (stack_boot D)"
  "memp_pools (timers_boot D) = memp_pools (stack_boot D)" "pools_inv (timers_boot D) = pools_inv (stack_boot D)"
  "free_list (timers_boot D) = free_list (stack_boot D)" "elems (timers_boot D) = elems (stack_boot D)"
  by (simp_all add: timers_boot_def stack.defs timers.defs pools_inv_def pool_ok_def free_list_def elems_def fun_eq_iff)

lemma timers_boot_ok:
  assumes "\<forall>t. 0 < d_size (D t) \<and> d_num (D t) < 65536"
    "d_size (D MEMP_PBUF_POOL) = SIZEOF_STRUCT_PBUF + PBUF_POOL_BUFSIZE_ALIGNED"
  shows "holds_timers r (timers_boot D) []" "memp_pools (timers_boot D) = D"
proof -
  note b = stack_boot_ok [OF assms]
  have inv: "pools_inv (stack_boot D)" using mem_okD(2) [OF b(1)] by simp
  show m: "memp_pools (timers_boot D) = D"
    using memp_init_ok(1) [of "mem_init (stack_zero D)"] assms(1) by (simp add: stack_boot_def)
  have ok: "pool_ok (stack_boot D) MEMP_SYS_TIMEOUT" using inv by (simp add: pools_inv_def)
  have "set (free_list (stack_boot D) MEMP_SYS_TIMEOUT) = elems (stack_boot D) MEMP_SYS_TIMEOUT"
    using ok b(4) [of MEMP_SYS_TIMEOUT] elems_card [of "stack_boot D" MEMP_SYS_TIMEOUT] m
    by (intro card_subset_eq) (simp_all add: pool_ok_def distinct_card)
  then show "holds_timers r (timers_boot D) []"
    using inv by (auto simp: holds_timers_def intro!: exI [of _ "[]"] tqI)
qed


lemma timers_boot_two: "holds_timers r (timers_boot desc_two) []" "memp_pools (timers_boot desc_two) = desc_two"
  using timers_boot_ok [of desc_two] by (simp_all add: desc_two_def layout_simps)

text \<open>Hooks that leave the state alone, with the clock at a given time.\<close>

definition still_hooks :: "u32 \<Rightarrow> timers hooks" where
  "still_hooks now = \<lparr>hk_now = (\<lambda>_. now), hk_tmr = (\<lambda>_. Some), hk_other = (\<lambda>_ _. Some), hk_free_ooseq = Some\<rparr>"

lemma still_hooks_sel [simp]: "hk_now (still_hooks now) s = now" "quiet (hk_tmr (still_hooks now) c)" "quiet (hk_free_ooseq (still_hooks now))"
  by (auto simp: still_hooks_def quiet_def same_timers_def)

lemma wrapped: "(4294967312 :: u32) = 16"
  by (simp add: word_unat_eq_iff)

theorem timer_queue_refines_witness:
  "\<exists>s'. sys_timeout (still_hooks 0xfffffff0) 0x20 (Some (H_other 1)) A_null (timers_boot desc_two) = Some s' \<and>
     holds_timers 0xffffff00 s' [(0x10, Some (H_other 1), A_null)]"
  using timer_queue_refines [of "0xffffff00" "timers_boot desc_two" "[]" "still_hooks 0xfffffff0" "0x20" "Some (H_other 1)" A_null]
    timers_boot_two by (simp add: wrapped soon_def ahead_def desc_two_def tinsert_def)

theorem check_timeouts_cyclic_witness:
  "\<exists>s s' ts'. sys_timeout_abs 1000 (Some H_lwip_cyclic_timer) (A_cyclic 1) (timers_boot desc_two) = Some s \<and>
     sys_check_timeouts (still_hooks 5000) s = Some s' \<and> holds_timers 0 s' ts' \<and>
     mset (map snd ts') = {#(Some H_lwip_cyclic_timer, A_cyclic 1)#} \<and> (\<forall>t\<in>set ts'. 5000 < ahead 0 (fst t))"
proof -
  obtain s where s: "sys_timeout_abs 1000 (Some H_lwip_cyclic_timer) (A_cyclic 1) (timers_boot desc_two) = Some s"
    "holds_timers 0 s [(1000, Some H_lwip_cyclic_timer, A_cyclic 1)]"
    using timeout_abs_ok [of 0 "timers_boot desc_two" "[]" 1000 "Some H_lwip_cyclic_timer" "A_cyclic 1"] timers_boot_two
    by (auto simp: soon_def ahead_def desc_two_def tinsert_def)
  moreover have "\<exists>s' ts'. sys_check_timeouts (still_hooks 5000) s = Some s' \<and> holds_timers 0 s' ts' \<and>
    mset (map snd ts') = mset (map snd [(1000 :: u32, Some H_lwip_cyclic_timer, A_cyclic 1)]) \<and>
    (\<forall>t\<in>set ts'. ahead 0 5000 < ahead 0 (fst t))"
    by (rule check_timeouts_cyclic [OF s(2)]) (simp_all add: is_cyclic_def ahead_def lwip_cyclic_timers_def)
  ultimately show ?thesis by (auto simp: ahead_def)
qed

text \<open>
  With the clock of this port, which always reads 0, no timeout that is not due at once ever expires.
\<close>

lemma timers_never_expire:
  assumes "holds_timers 0 s ts" "\<forall>t\<in>set ts. fst t \<noteq> 0" "\<not> pbuf_free_ooseq_pending s" "hk_now H = sys_now"
  shows "sys_check_timeouts H s = Some s"
proof -
  obtain xs where q: "tq s xs" "ts = map (entry (timeo s)) xs" "list_all (soon 0 \<circ> fst) ts"
    using assms(1) by (auto simp: holds_timers_def)
  have o: "PBUF_CHECK_FREE_OOSEQ H s = Some s" using assms(3) by (simp add: PBUF_CHECK_FREE_OOSEQ_def)
  show ?thesis
  proof (cases xs)
    case Nil
    then show ?thesis using q(1) o unfolding sys_check_timeouts_def
      by (subst check_timeouts_loop.simps) (simp add: tq_def)
  next
    case (Cons x ys)
    then obtain e where e: "next_timeout s = Some x" "timeo s x = Some e" using q(1) by (auto simp: tq_def)
    have t: "soon 0 (t_time e)" "t_time e \<noteq> 0" using q(2,3) assms(2) Cons e by (simp_all add: entry_def ent_def)
    have "TIME_LESS_THAN 0 (t_time e)"
      unfolding time_less [OF _ t(1), of 0, simplified soon_def ahead_def, simplified] using t(2) by (simp add: ahead_def unat_gt_0)
    then show ?thesis using e o assms(4) unfolding sys_check_timeouts_def
      by (subst check_timeouts_loop.simps) (simp add: sys_now_def)
  qed
qed

end
