(* ===== verification/Pbuf_Refs.thy ===== *)
theory Pbuf_Refs
  imports Pbuf_Chain
begin

text \<open>
  Ownership of pbufs: the reference counts equal the references there are, whatever sequence of
  allocations, \<^verbatim>\<open>pbuf_ref\<close> and \<^verbatim>\<open>pbuf_free\<close> of \<^verbatim>\<open>pbuf.c\<close> a client makes.
\<close>

section \<open>References\<close>

text \<open>
  The references to a pbuf are those of other pbufs that have it as their next one and those
  held outside; \<open>R\<close> lists the latter, a pbuf once for every reference.
\<close>

definition preds :: "'a stack_scheme \<Rightarrow> ptr \<Rightarrow> ptr set" where
  "preds s x = {y. \<exists>b. pb s y = Some b \<and> p_next b = Some x}"

definition owned :: "'a stack_scheme \<Rightarrow> ptr list \<Rightarrow> bool" where
  "owned s R \<longleftrightarrow> mem_ok s \<and> finite (dom (pb s)) \<and> (\<forall>x b. pb s x = Some b \<longrightarrow> \<not> custom b) \<and>
     (\<forall>x. count_list R x + card (preds s x) = refs s x) \<and>
     (\<forall>x \<in> dom (pb s). 0 < refs s x \<and> (\<exists>xs. linked s (Some x) xs))"

lemma ownedD:
  assumes "owned s R"
  shows "mem_ok s" "finite (dom (pb s))" "pb s x = Some b \<Longrightarrow> \<not> custom b"
    "count_list R x + card (preds s x) = refs s x" "pb s x = Some b \<Longrightarrow> \<exists>xs. linked s (Some x) xs"
    "pb s x = Some b \<Longrightarrow> 0 < refs s x"
  using assms by (auto simp: owned_def)

lemma owned_cong: "(\<And>x. count_list R' x = count_list R x) \<Longrightarrow> owned s R' = owned s R"
  by (simp add: owned_def)

lemma owned_swap: "owned s (a # b # R) = owned s (b # a # R)" "owned s (Q @ a # R) = owned s (a # Q @ R)"
  by (rule owned_cong, simp)+

lemma preds_alt: "preds s x = {y. map_option p_next (pb s y) = Some (Some x)}"
  by (auto simp: preds_def)

lemma finite_preds: "finite (dom (pb s)) \<Longrightarrow> finite (preds s x)"
  by (rule finite_subset [of _ "dom (pb s)"]) (auto simp: preds_def)

lemma owned_root: "owned s R \<Longrightarrow> x \<in> set R \<Longrightarrow> \<exists>b. pb s x = Some b \<and> 0 < p_ref b"
  using ownedD(4) [of s R x] count_list_0_iff [of R x]
  by (cases "pb s x") (auto simp: refs_def word_less_nat_alt simp del: unat_gt_0)

lemma linked_preds: "linked s p xs \<Longrightarrow> x \<in> set xs \<Longrightarrow> p \<noteq> Some x \<Longrightarrow> preds s x \<noteq> {}"
proof (induction xs arbitrary: p)
  case (Cons y xs)
  then obtain b where b: "p = Some y" "pb s y = Some b" "linked s (p_next b) xs" "x \<in> set xs" by auto
  show ?case
  proof (cases "p_next b = Some x")
    case True
    then show ?thesis using b by (auto simp: preds_def)
  qed (use Cons.IH b in blast)
qed simp

lemma linked_next_cong:
  "(\<And>x. x \<in> set xs \<Longrightarrow> map_option p_next (pb s' x) = map_option p_next (pb s x)) \<Longrightarrow> linked s' p xs = linked s p xs"
proof (induction xs arbitrary: p)
  case (Cons x xs)
  have "map_option p_next (pb s' x) = map_option p_next (pb s x)" by (rule Cons.prems) simp
  moreover have "linked s' q xs = linked s q xs" for q by (rule Cons.IH) (simp add: Cons.prems)
  ultimately show ?case by (cases "pb s x"; cases "pb s' x") auto
qed simp

lemma stack_more_frame [simp]:
  fixes s :: "'a stack_scheme"
  shows "stack.more (upd_pbuf p f s) = stack.more s" "stack.more (memp_free t q s) = stack.more s"
    "stack.more (LWIP_ASSERT msg c s) = stack.more s" "stack.more (octet_update h s) = stack.more s"
  by (simp_all add: upd_pbuf_def memp_free_def do_memp_free_pool_def LWIP_ASSERT_def MEM_ALIGNMENT_def Let_def split: option.split)

lemma heap_stack_more: "heap.more (s' :: 'a stack_scheme) = heap.more s \<Longrightarrow> stack.more s' = stack.more s"
  by (cases s; cases s'; simp)

lemma release_more:
  assumes "\<not> custom b" "pbuf_release cf p b s = Some s'"
  shows "stack.more s' = stack.more s"
  using assms heap_stack_more [OF heap_more_mem_free, of "Some (snd p)" "s\<lparr>pb := (pb s)(p := None)\<rparr>"]
  by (auto simp: pbuf_release_def custom_def Let_def split: if_splits)

text \<open>Taking the only reference away and dropping the pbuf passes its reference to the next one on.\<close>

lemma owned_drop:
  assumes o: "owned s (x # R)" and b: "pb s x = Some b" and one: "refs s x = 1"
    and s1: "mem_ok s1" "pb s1 = (pb s)(x := None)"
  shows "owned s1 (case p_next b of None \<Rightarrow> R | Some y \<Rightarrow> y # R)"
proof -
  note od = ownedD [OF o]
  have none: "count_list R x = 0" "preds s x = {}"
    using od(4) [of x] one finite_preds [OF od(2), of x] by auto
  have fin: "finite (dom (pb s1))" using od(2) s1(2) by simp
  have p1: "preds s1 z = preds s z - {x}" for z using s1(2) by (auto simp: preds_def)
  have cnt: "count_list (case p_next b of None \<Rightarrow> R | Some y \<Rightarrow> y # R) z + card (preds s1 z) = refs s1 z" for z
  proof (cases "z = x")
    case True
    have "p_next b \<noteq> Some x" using none(2) b by (auto simp: preds_def)
    then show ?thesis using True none s1(2) by (simp add: p1 refs_def split: option.split)
  next
    case False
    have r: "refs s1 z = refs s z" using False s1(2) by (simp add: refs_def)
    show ?thesis
    proof (cases "p_next b = Some z")
      case True
      then have "x \<in> preds s z" using b by (auto simp: preds_def)
      then have "card (preds s z) = Suc (card (preds s1 z))" unfolding p1
        using card_Suc_Diff1 [OF finite_preds [OF od(2)]] by metis
      then show ?thesis using od(4) [of z] True r False by simp
    next
      case n: False
      then have "preds s1 z = preds s z" unfolding p1 using b by (auto simp: preds_def)
      then show ?thesis using od(4) [of z] r n False by (auto split: option.split)
    qed
  qed
  have lin: "\<exists>zs. linked s1 (Some z) zs" if z: "z \<in> dom (pb s1)" for z
  proof -
    obtain d where "pb s z = Some d" using z s1(2) by (auto split: if_splits)
    then obtain zs where zs: "linked s (Some z) zs" using od(5) by blast
    have "x \<notin> set zs" using linked_preds [OF zs, of x] none(2) z s1(2) by auto
    then show ?thesis using zs linked_next_cong [of zs s1 s] s1(2) by (metis fun_upd_apply)
  qed
  have "\<not> custom c" if "pb s1 z = Some c" for z c using that s1(2) od(3) [of z c] by (auto split: if_splits)
  moreover have "0 < refs s1 z" if "z \<in> dom (pb s1)" for z using that s1(2) od(6) [of z] by (auto simp: refs_def split: if_splits)
  ultimately show ?thesis using s1(1) fin cnt lin by (simp add: owned_def)
qed

text \<open>A change that keeps the links, and the counts in step with the references.\<close>

lemma owned_transfer:
  assumes o: "owned s R" and m: "mem_ok s'" and n: "\<And>z. map_option p_next (pb s' z) = map_option p_next (pb s z)"
    and nc: "\<And>z b. pb s' z = Some b \<Longrightarrow> \<not> custom b" 
    and pos: "\<And>z b. pb s' z = Some b \<Longrightarrow> 0 < refs s' z" and c: "\<And>z. count_list R' z + refs s z = count_list R z + refs s' z"
  shows "owned s' R'"
proof -
  note od = ownedD [OF o]
  have p: "preds s' z = preds s z" for z unfolding preds_alt n ..
  have d: "dom (pb s') = dom (pb s)" using n by (metis domIff map_option_is_None subsetI subset_antisym)
  have "count_list R' z + card (preds s' z) = refs s' z" for z
    using od(4) [of z] c [of z] unfolding p by linarith
  moreover have "\<exists>zs. linked s' (Some z) zs" if z: "z \<in> dom (pb s')" for z
  proof -
    obtain e where "pb s z = Some e" using z d by auto
    then obtain zs where "linked s (Some z) zs" using od(5) by blast
    then show ?thesis using linked_next_cong [of zs s' s, OF n] by blast
  qed
  moreover have "0 < refs s' z" if "z \<in> dom (pb s')" for z using that pos by blast
  ultimately show ?thesis using m nc od(2) d by (auto simp: owned_def)
qed

lemma owned_ref:
  assumes o: "owned s R" and b: "pb s x = Some b"
    and r: "count_list R' x + unat (p_ref b) = count_list R x + unat r" "0 < r" and c: "\<And>z. z \<noteq> x \<Longrightarrow> count_list R' z = count_list R z"
  shows "owned (upd_pbuf x (p_ref_update (\<lambda>_. r)) s) R'"
proof (rule owned_transfer [OF o mem_ok_fields(2) [OF ownedD(1) [OF o]]])
  fix z
  show "map_option p_next (pb (upd_pbuf x (p_ref_update (\<lambda>_. r)) s) z) = map_option p_next (pb s z)" using b by simp
  show "0 < refs (upd_pbuf x (p_ref_update (\<lambda>_. r)) s) z" if "pb (upd_pbuf x (p_ref_update (\<lambda>_. r)) s) z = Some d" for d
    using that b r(2) ownedD(6) [OF o, of z] by (cases "z = x") (auto simp: refs_def word_less_nat_alt simp del: unat_gt_0)
  show "count_list R' z + refs s z = count_list R z + refs (upd_pbuf x (p_ref_update (\<lambda>_. r)) s) z"
    using b r(1) c [of z] by (simp add: refs_def)
  show "\<not> custom d" if "pb (upd_pbuf x (p_ref_update (\<lambda>_. r)) s) z = Some d" for d
    using that b ownedD(3) [OF o, of z] by (cases "z = x") (auto simp: custom_def)
qed

text \<open>Freeing takes whole pbufs away with their memory; those that stay lose references at most.\<close>

definition shed :: "'a stack_scheme \<Rightarrow> 'a stack_scheme \<Rightarrow> bool" where
  "shed s s' \<longleftrightarrow> (\<forall>y. pb s y \<noteq> None \<and> pb s' y = None \<and> mlive s' y = None \<or>
     mlive s' y = mlive s y \<and> (\<exists>k. pb s' y = map_option (p_ref_update k) (pb s y)))"

lemma shed_trans:
  assumes "shed s s1" "shed s1 s2"
  shows "shed s s2"
  unfolding shed_def
proof
  fix y
  have "pb s y \<noteq> None \<and> pb s1 y = None \<and> mlive s1 y = None \<or>
     mlive s1 y = mlive s y \<and> (\<exists>k. pb s1 y = map_option (p_ref_update k) (pb s y))"
    "pb s1 y \<noteq> None \<and> pb s2 y = None \<and> mlive s2 y = None \<or>
     mlive s2 y = mlive s1 y \<and> (\<exists>k. pb s2 y = map_option (p_ref_update k) (pb s1 y))"
    using assms by (auto simp: shed_def)
  then show "pb s y \<noteq> None \<and> pb s2 y = None \<and> mlive s2 y = None \<or>
     mlive s2 y = mlive s y \<and> (\<exists>k. pb s2 y = map_option (p_ref_update k) (pb s y))"
  proof (elim disjE conjE exE)
    fix k k' assume k: "pb s1 y = map_option (p_ref_update k) (pb s y)" "pb s2 y = map_option (p_ref_update k') (pb s1 y)"
      "mlive s1 y = mlive s y" "mlive s2 y = mlive s1 y"
    then have "pb s2 y = map_option (p_ref_update (k' \<circ> k)) (pb s y)" by (cases "pb s y") simp_all
    with k(3,4) show ?thesis by metis
  qed auto
qed

lemma p_ref_same: "map_option (p_ref_update (\<lambda>r. r)) b = b"
  by (cases b) simp_all

lemma shed_same: "pb s' y = pb s y \<Longrightarrow> \<exists>k. pb s' y = map_option (p_ref_update k) (pb s y)"
  using p_ref_same by metis

lemma shed_upd: "shed s (upd_pbuf x (p_ref_update k) s)"
  unfolding shed_def
proof (intro allI disjI2 conjI)
  show "\<exists>k'. pb (upd_pbuf x (p_ref_update k) s) y = map_option (p_ref_update k') (pb s y)" for y
    by (cases "y = x") (auto simp: upd_pbuf_def intro: shed_same)
qed simp

lemma shed_drop:
  assumes "pb s1 = (pb s)(x := None)" "mlive s1 = (mlive s)(x := None)" "pb s x \<noteq> None"
  shows "shed s s1"
  unfolding shed_def
proof
  show "pb s y \<noteq> None \<and> pb s1 y = None \<and> mlive s1 y = None \<or>
     mlive s1 y = mlive s y \<and> (\<exists>k. pb s1 y = map_option (p_ref_update k) (pb s y))" for y
    by (cases "y = x") (use assms shed_same [of s1 y s] in auto)
qed

lemma free_loop_owned:
  assumes "owned s (x # R)" "linked s (Some x) xs"
  shows "\<exists>n s'. pbuf_free_loop cf (Some x) c s = Some (n, s') \<and> owned s' R \<and> octet s' = octet s \<and> diag s' = diag s \<and>
    stack.more s' = stack.more s \<and> shed s s'"
  using assms
proof (induction xs arbitrary: x c s)
  case (Cons z xs)
  have "z = x" "\<exists>b. pb s x = Some b \<and> linked s (p_next b) xs" using Cons.prems(2) by simp_all
  then obtain b where b: "pb s x = Some b" "linked s (p_next b) xs" "z = x" by blast
  note od = ownedD [OF Cons.prems(1)]
  have r: "refs s x = unat (p_ref b)" using b(1) by (simp add: refs_def)
  have pos: "p_ref b > 0" using od(4) [of x] r by (simp add: word_less_nat_alt del: unat_gt_0)
  let ?u = "upd_pbuf x (p_ref_update (\<lambda>_. p_ref b - 1)) s"
  have one: "p_ref b - 1 = 0 \<longleftrightarrow> refs s x = 1" by (simp add: r word_unat_eq_iff [of "p_ref b" 1])
  show ?case
  proof (cases "refs s x = 1")
    case False
    have "unat (p_ref b - 1) = unat (p_ref b) - 1" using pos by (simp add: unat_minus_one)
    moreover from this False pos r have "0 < p_ref b - 1" by (simp add: word_less_nat_alt del: unat_gt_0)
    ultimately have "owned ?u R" using owned_ref [OF Cons.prems(1) b(1), of R "p_ref b - 1"] r od(6) [OF b(1)] by simp
    then show ?thesis using b(1) pos one False shed_upd by (subst pbuf_free_loop.simps) simp
  next
    case True
    have oku: "mem_ok ?u" by (rule mem_ok_fields(2) [OF od(1)])
    obtain s1 where s1: "pbuf_release cf x b ?u = Some s1" "mem_ok s1" "pb s1 = (pb s)(x := None)"
      "octet s1 = octet s" "diag s1 = diag s" "mlive s1 = (mlive s)(x := None)"
      using release_ok [OF oku, of x "p_ref_update (\<lambda>_. p_ref b - 1) b" b "\<lambda>_. p_ref b" cf] b(1) od(3) [OF b(1)] by auto
    have m: "stack.more s1 = stack.more s" using release_more [OF od(3) [OF b(1)] s1(1)] by simp
    have sh: "shed s s1" using shed_drop [OF s1(3,6)] b(1) by simp
    note o1 = owned_drop [OF Cons.prems(1) b(1) True s1(2,3)]
    have step: "pbuf_free_loop cf (Some x) c s = pbuf_free_loop cf (p_next b) (c + 1) s1"
      using b pos one True s1(1) by (subst pbuf_free_loop.simps) simp
    show ?thesis
    proof (cases "p_next b")
      case None
      then show ?thesis using step o1 s1 m sh by (simp add: pbuf_free_loop.simps [of cf None])
    next
      case (Some y)
      have "x \<notin> set xs" using linked_distinct [OF Cons.prems(2)] b(3) by simp
      then have "pb s1 z = pb s z" if "z \<in> set xs" for z using s1(3) that by auto
      then have "linked s1 (Some y) xs" using b(2) Some linked_cong [of xs s1 s] by simp
      from Cons.IH [OF _ this, of "c + 1"] o1 Some step s1 m shed_trans [OF sh] show ?thesis by auto
    qed
  qed
qed simp

lemma pbuf_free_owned:
  assumes "owned s (p # R)"
  shows "\<exists>n s'. pbuf_free cf (Some p) s = Some (n, s') \<and> owned s' R \<and> octet s' = octet s \<and> diag s' = diag s \<and>
    stack.more s' = stack.more s \<and> shed s s'"
proof -
  obtain b where "pb s p = Some b" using owned_root [OF assms, of p] by auto
  then obtain xs where "linked s (Some p) xs" using ownedD(5) [OF assms] by blast
  with free_loop_owned [OF assms] show ?thesis by (simp add: pbuf_free_def)
qed


lemma pbuf_ref_owned:
  assumes o: "owned s R" and b: "pb s p = Some b" and r: "refs s p < 255"
  shows "pbuf_ref (Some p) s = Some (upd_pbuf p (p_ref_update (\<lambda>r. r + 1)) s) \<and>
    owned (upd_pbuf p (p_ref_update (\<lambda>r. r + 1)) s) (p # R)"
proof -
  have u: "unat (p_ref b + 1) = unat (p_ref b) + 1" using b r by (simp add: refs_def unat_word_ariths)
  then have "p_ref b + 1 > 0" by (simp add: word_less_nat_alt del: unat_gt_0)
  moreover have "upd_pbuf p (p_ref_update (\<lambda>r. r + 1)) s = upd_pbuf p (p_ref_update (\<lambda>_. p_ref b + 1)) s"
    using b by (cases b) (simp add: upd_pbuf_def)
  moreover have "owned (upd_pbuf p (p_ref_update (\<lambda>_. p_ref b + 1)) s) (p # R)"
    using u calculation by (intro owned_ref [OF o b]) auto
  ultimately show ?thesis using b by (simp add: pbuf_ref_def)
qed

section \<open>New packets\<close>

lemma chain_preds:
  "linked s p ys \<Longrightarrow> card {y \<in> set ys. y \<in> preds s x} + (if p = Some x then 1 else 0) = (if x \<in> set ys then 1 else 0)"
proof (induction ys arbitrary: p)
  case (Cons z zs)
  have "p = Some z" "\<exists>b. pb s z = Some b \<and> linked s (p_next b) zs" using Cons.prems by simp_all
  then obtain b where b: "p = Some z" "pb s z = Some b" "linked s (p_next b) zs" by blast
  have d: "z \<notin> set zs" using linked_distinct [OF Cons.prems] by simp
  note ih = Cons.IH [OF b(3)]
  show ?case
  proof (cases "p_next b = Some x")
    case True
    then have "{y \<in> set (z # zs). y \<in> preds s x} = insert z {y \<in> set zs. y \<in> preds s x}" using b(2) by (auto simp: preds_def)
    moreover have "x \<in> set zs" using b(3) True by (cases zs) auto
    ultimately show ?thesis using ih True b(1) d by auto
  next
    case False
    then have "{y \<in> set (z # zs). y \<in> preds s x} = {y \<in> set zs. y \<in> preds s x}" using b(2) by (auto simp: preds_def)
    then show ?thesis using ih False b(1) d by (auto split: if_splits)
  qed
qed simp


lemma linked_alloced: "linked s p xs \<Longrightarrow> y \<in> set xs \<Longrightarrow> \<exists>b. pb s y = Some b"
  by (induction xs arbitrary: p) auto

lemma linked_pb: "pb s' = pb s \<Longrightarrow> linked s' p xs = linked s p xs"
  by (rule linked_cong) simp

lemma owned_pb:
  assumes o: "owned s R" and ok: "mem_ok s'" and e: "pb s' = pb s"
  shows "owned s' R"
proof -
  have "linked s' = linked s" by (intro ext linked_pb [OF e])
  with o ok show ?thesis by (simp add: owned_def preds_def refs_def e)
qed

lemma owned_new:
  assumes o: "owned s R" and ok: "mem_ok s'" and p: "part s' 0 (Some p) ys" and l: "\<And>y. y \<in> set ys \<Longrightarrow> mlive s y = None"
    and f: "\<And>y. y \<notin> set ys \<Longrightarrow> pb s' y = pb s y"
  shows "owned s' (p # R)"
proof -
  have lk: "linked s' (Some p) ys" by (rule part_linked [OF p])
  have no: "pb s y = None" if "y \<in> set ys" for y
    using fresh_unused [OF ownedD(1) [OF o] ok p that l [OF that]] .
  have al: "\<exists>b. pb s' y = Some b \<and> \<not> custom b" if "y \<in> set ys" for y using part_alloced [OF p that] .
  have d: "dom (pb s') \<subseteq> dom (pb s) \<union> set ys" using f by (auto simp: dom_def)
  have nx: "y \<notin> set ys" if "y \<in> preds s x" for x y using no [of y] that by (auto simp: preds_def)
  have sp: "preds s' x = preds s x \<union> {y \<in> set ys. y \<in> preds s' x}" for x
    using nx [of _ x] f by (auto simp: preds_def)
  have c: "count_list (p # R) x + card (preds s' x) = refs s' x" for x
  proof -
    define k where "k = card {y \<in> set ys. y \<in> preds s' x}"
    have "card (preds s' x) = card (preds s x) + k"
      unfolding k_def by (subst sp, rule card_Un_disjoint) (use nx [of _ x] finite_preds [OF ownedD(2) [OF o], of x] in auto)
    moreover have "count_list R x + card (preds s x) = refs s x" using ownedD(4) [OF o, of x] .
    moreover have "refs s' x = (if x \<in> set ys then 1 else refs s x)"
      using part_refs [OF p, of x] f [of x] by (auto simp: refs_def)
    moreover have "refs s x = 0" if "x \<in> set ys" using no [OF that] by (simp add: refs_def)
    ultimately show ?thesis using chain_preds [OF lk, of x, folded k_def] by (auto split: if_splits)
  qed
  have cu: "\<not> custom b" if "pb s' y = Some b" for y b
    using al [of y] f [of y] ownedD(3) [OF o, of y b] that by (cases "y \<in> set ys") auto
  have li: "\<exists>xs. linked s' (Some x) xs" if b: "pb s' x = Some b" for x b
  proof (cases "x \<in> set ys")
    case True
    then obtain as bs where "ys = as @ x # bs" by (meson split_list)
    then show ?thesis using linked_suffix [of s' "Some p" as x bs] lk by blast
  next
    case False
    then obtain xs where xs: "linked s (Some x) xs" using b f [of x] ownedD(5) [OF o, of x b] by auto
    have "y \<notin> set ys" if "y \<in> set xs" for y using linked_alloced [OF xs that] no [of y] by auto
    then have "linked s' (Some x) xs = linked s (Some x) xs" by (intro linked_cong f)
    with xs show ?thesis by blast
  qed
  have "finite (dom (pb s'))" using d finite_subset ownedD(2) [OF o] by (metis finite_UnI List.finite_set)
  moreover have "0 < refs s' x" if "pb s' x = Some b" for x b
    using that part_refs [OF p, of x] f [of x] ownedD(6) [OF o, of x b] by (cases "x \<in> set ys") (auto simp: refs_def)
  ultimately show ?thesis using ok c cu li unfolding owned_def by blast
qed

lemma stack_more_malloc: "memp_malloc t (s :: 'a stack_scheme) = (r, s') \<Longrightarrow> stack.more s' = stack.more s"
  by (auto simp: memp_malloc_def do_memp_malloc_pool_def MEM_ALIGNMENT_def Let_def LWIP_ASSERT_def split: option.splits if_splits)

lemma free_part_more:
  assumes "mem_ok s" "part s r p xs" "pbuf_free_loop cf p c s = Some (n, s')"
  shows "stack.more s' = stack.more s"
  using assms
proof (induction xs arbitrary: p c s)
  case Nil
  then show ?case by (simp add: pbuf_free_loop.simps)
next
  case (Cons x xs)
  have "p = Some x" "\<exists>b. pb s x = Some b \<and> p_ref b = 1 \<and> \<not> custom b \<and> part s r (p_next b) xs" using Cons.prems(2) by auto
  then obtain b where b: "p = Some x" "pb s x = Some b" "p_ref b = 1" "\<not> custom b" "part s r (p_next b) xs" by blast
  let ?u = "upd_pbuf x (p_ref_update (\<lambda>_. 0)) s"
  have oku: "mem_ok ?u" by (rule mem_ok_fields(2) [OF Cons.prems(1)])
  obtain s1 where s1: "pbuf_release cf x b ?u = Some s1" "mem_ok s1" "pb s1 = (pb s)(x := None)"
    using release_ok [OF oku, of x "p_ref_update (\<lambda>_. 0) b" b "\<lambda>_. 1" cf] b by auto
  have "stack.more s1 = stack.more s" using release_more [OF b(4) s1(1)] by simp
  moreover have "pbuf_free_loop cf (p_next b) (c + 1) s1 = Some (n, s')"
    using Cons.prems(3) b(1-3) s1(1) by (subst (asm) pbuf_free_loop.simps) simp
  moreover have "part s1 r (p_next b) xs"
  proof -
    have "x \<notin> set xs" using linked_distinct [OF part_linked [OF Cons.prems(2)]] by simp
    then have "pb s1 y = pb s y" if "y \<in> set xs" for y using s1(3) that by auto
    then show ?thesis using b(5) part_cong [of xs s1 s] by blast
  qed
  ultimately show ?case using Cons.IH [OF s1(2)] by metis
qed

lemma grown_more: "stack.more (grown q offset rem_len qlen xs s) = stack.more s"
  by (simp add: grown_def Let_def pbuf_init_alloced_pbuf_def)

text \<open>New pbufs of the loop are elements of the pool.\<close>

lemma pool_loop_frame:
  assumes "mem_ok s" "part s (unat rem_len) p xs" "lst = (if xs = [] then None else Some (last xs))" "unat offset < 592"
    "pbuf_alloc_pool_loop cf offset rem_len p lst s = Some (r, s')"
  shows "stack.more s' = stack.more s \<and> (\<forall>y. pb s' y \<noteq> None \<longrightarrow> pb s y = None \<longrightarrow> fst y = Pool MEMP_PBUF_POOL)"
  using assms
proof (induction "unat rem_len" arbitrary: rem_len p xs lst s offset rule: less_induct)
  case less
  obtain q s1 where m: "memp_malloc MEMP_PBUF_POOL s = (q, s1)" by (cases "memp_malloc MEMP_PBUF_POOL s")
  note inv = mem_okD [OF less.prems(1)]
  note m1 = stack_more_malloc [OF m] and st = memp_malloc_state [OF inv(1,2) m] and f = memp_malloc_fields [OF m]
  have xp: "p = None \<longleftrightarrow> xs = []" using less.prems(2) by (cases xs) auto
  show ?case
  proof (cases q)
    case None
    let ?s = "pbuf_pool_is_empty s1"
    have mo: "stack.more ?s = stack.more s" using m1 by (simp add: pbuf_pool_is_empty_def)
    have "pb s' = (pb s) |` (- set xs)"
      using pool_loop_empty [OF less.prems(1,2), of s1 cf offset rem_len lst] m None less.prems(5) by (auto simp: pool_result_def)
    then have sub: "pb s y \<noteq> None" if "pb s' y \<noteq> None" for y using that by (auto simp: restrict_map_def split: if_splits)
    have "stack.more s' = stack.more s"
    proof (cases "p = None")
      case True
      then show ?thesis using less.prems(5) None m mo by (subst (asm) pbuf_alloc_pool_loop.simps) simp
    next
      case False
      have ok1: "mem_ok ?s" using st f inv None by (auto intro!: mem_okI [of s1 s] less.prems(1))
      have part1: "part ?s (unat rem_len) p xs" using less.prems(2) f(7) part_cong [of xs ?s s] by simp
      obtain n where "pbuf_free cf p ?s = Some (n, s')"
        using less.prems(5) None m False by (subst (asm) pbuf_alloc_pool_loop.simps) (auto simp: bind_eq_Some_conv)
      then show ?thesis using free_part_more [OF ok1 part1] mo False by (auto simp: pbuf_free_def split: option.splits)
    qed
    with sub show ?thesis by blast
  next
    case (Some x)
    define ql where "ql = min rem_len (of_nat (PBUF_POOL_BUFSIZE_ALIGNED - LWIP_MEM_ALIGN_SIZE (unat offset)))"
    have ql: "unat ql = min (unat rem_len) (592 - unat offset)"
      unfolding ql_def using less.prems(4) by (intro qlen_le) simp
    define g where "g = grown x offset rem_len ql xs s1"
    let ?p = "if p = None then Some x else p"
    note g = grown_ok [OF less.prems(1) m [unfolded Some] less.prems(4) less.prems(2) ql, folded g_def]
    have rl: "unat (rem_len - ql) = unat rem_len - unat ql" by (rule unat_sub) (simp add: word_le_nat_alt ql)
    have mo: "stack.more g = stack.more s" using m1 by (simp add: g_def grown_more)
    have new: "fst y = Pool MEMP_PBUF_POOL" if y: "pb g y \<noteq> None" "pb s y = None" for y
    proof (cases "y \<in> set xs")
      case True
      then show ?thesis using part_alloced [OF less.prems(2), of y] y(2) by simp
    next
      case False
      then have "y = x" using g(7) y by auto
      then show ?thesis using st(4) Some by simp
    qed
    have step: "pbuf_alloc_pool_loop cf offset rem_len p lst s =
      (if rem_len - ql > 0 then pbuf_alloc_pool_loop cf 0 (rem_len - ql) ?p (Some x) g else Some (?p, g))"
      using m Some xp less.prems(3,4)
      by (subst pbuf_alloc_pool_loop.simps) (simp add: g_def ql_def grown_def Let_def pool_consts)
    show ?thesis
    proof (cases "rem_len - ql > 0")
      case False
      then show ?thesis using step less.prems(5) mo new by auto
    next
      case True
      then have "0 < unat (rem_len - ql)" by (simp add: word_less_nat_alt)
      then have lt: "unat (rem_len - ql) < unat rem_len" using rl ql less.prems(4) by simp
      have pt: "part g (unat (rem_len - ql)) ?p (xs @ [x])" using g(2) rl by simp
      have "stack.more s' = stack.more g" "\<And>y. pb s' y \<noteq> None \<Longrightarrow> pb g y = None \<Longrightarrow> fst y = Pool MEMP_PBUF_POOL"
        using less.hyps [OF lt g(1) pt, of "Some x" 0] step True less.prems(5) by simp_all
      then show ?thesis using mo new by metis
    qed
  qed
qed

lemma alloc_ram_more:
  "pbuf_alloc cf l n PBUF_RAM s = Some (r, s') \<Longrightarrow> stack.more s' = stack.more s \<and> (\<forall>p. r = Some p \<longrightarrow> fst p = Ram)"
  by (auto simp: pbuf_alloc_def Let_def pbuf_init_alloced_pbuf_def bind_eq_Some_conv
      dest!: heap_more_malloc heap_stack_more split: if_splits option.splits)

lemma pbuf_alloc_owned:
  assumes o: "owned s R" and t: "t = PBUF_RAM \<or> t = PBUF_POOL"
  shows "\<exists>r s'. pbuf_alloc cf l n t s = Some (r, s') \<and> octet s' = octet s \<and> diag s' = diag s \<and> stack.more s' = stack.more s \<and>
    (r = None \<longrightarrow> owned s' R \<and> pb s' = pb s \<and> mlive s' = mlive s) \<and>
    (\<forall>p. r = Some p \<longrightarrow> owned s' (p # R) \<and> (\<exists>xs. part s' 0 r xs \<and> pkt_len s' xs = unat n \<and> (t = PBUF_RAM \<longrightarrow> xs = [p]) \<and>
       (\<forall>y \<in> set xs. pb s y = None \<and> mlive s y = None \<and> (fst y = Ram \<or> fst y = Pool MEMP_PBUF_POOL)) \<and> (\<forall>y. y \<notin> set xs \<longrightarrow> pb s' y = pb s y \<and> mlive s' y = mlive s y)))"
proof -
  note ok = ownedD(1) [OF o]
  have *: ?thesis if e: "pbuf_alloc cf l n t s = Some (r, s')" "mem_ok s'" "octet s' = octet s" "diag s' = diag s" "stack.more s' = stack.more s"
      and N: "r = None \<Longrightarrow> pb s' = pb s \<and> mlive s' = mlive s"
      and S: "r \<noteq> None \<Longrightarrow> \<exists>xs. part s' 0 r xs \<and> pkt_len s' xs = unat n \<and> (t = PBUF_RAM \<longrightarrow> xs = [the r]) \<and>
        (\<forall>y \<in> set xs. mlive s y = None \<and> (fst y = Ram \<or> fst y = Pool MEMP_PBUF_POOL)) \<and>
        (\<forall>y. y \<notin> set xs \<longrightarrow> pb s' y = pb s y \<and> mlive s' y = mlive s y)" for r s'
  proof (cases r)
    case None
    have "owned s' R" by (rule owned_pb [OF o e(2)]) (simp add: N [OF None])
    with None e N show ?thesis by auto
  next
    case (Some p)
    with S obtain xs where xs: "part s' 0 (Some p) xs" "pkt_len s' xs = unat n" "t = PBUF_RAM \<longrightarrow> xs = [p]"
      "\<forall>y \<in> set xs. mlive s y = None \<and> (fst y = Ram \<or> fst y = Pool MEMP_PBUF_POOL)"
      "\<forall>y. y \<notin> set xs \<longrightarrow> pb s' y = pb s y \<and> mlive s' y = mlive s y" by auto
    have "owned s' (p # R)" by (rule owned_new [OF o e(2) xs(1)]) (use xs in blast)+
    moreover have "\<forall>y \<in> set xs. pb s y = None" using fresh_unused [OF ok e(2) xs(1)] xs(4) by blast
    ultimately show ?thesis using e Some xs by (intro exI [of _ r] exI [of _ s']) auto
  qed
  show ?thesis
  proof (cases "t = PBUF_RAM")
    case True
    obtain r s' where r: "pbuf_alloc cf l n t s = Some (r, s')" "mem_ok s'"
      "octet s' = octet s" "diag s' = diag s" "r = None \<longrightarrow> pb s' = pb s \<and> mlive s' = mlive s" 
      "\<forall>x. r = Some x \<longrightarrow> part s' 0 r [x] \<and> pkt_len s' [x] = unat n \<and> mlive s x = None \<and>
         (\<exists>k. mlive s' = (mlive s)(x \<mapsto> k)) \<and> (\<forall>y. y \<noteq> x \<longrightarrow> pb s' y = pb s y)"
      using alloc_ram_ok [OF ok, of cf l n, folded True] by (elim exE conjE) (rule that; assumption)
    have mo: "stack.more s' = stack.more s" "\<forall>p. r = Some p \<longrightarrow> fst p = Ram"
      using alloc_ram_more [of cf l n s r s'] r(1) True by simp_all
    show ?thesis
    proof (rule * [OF r(1-4) mo(1)])
      assume "r \<noteq> None"
      then obtain x where "r = Some x" by blast
      with spec [OF r(6), of x] show "\<exists>xs. part s' 0 r xs \<and> pkt_len s' xs = unat n \<and> (t = PBUF_RAM \<longrightarrow> xs = [the r]) \<and>
        (\<forall>y \<in> set xs. mlive s y = None \<and> (fst y = Ram \<or> fst y = Pool MEMP_PBUF_POOL)) \<and>
        (\<forall>y. y \<notin> set xs \<longrightarrow> pb s' y = pb s y \<and> mlive s' y = mlive s y)"
        using mo(2) by (intro exI [of _ "[x]"]) auto
    qed (use r(5) in blast)
  next
    case False
    then have t': "t = PBUF_POOL" using t by blast
    have off: "unat (layer_offset l) < 592" by (cases l) simp_all
    obtain r s' where r: "pbuf_alloc_pool_loop cf (layer_offset l) n None None s = Some (r, s')"
      "pool_result (unat (layer_offset l)) (unat n) [] s r s'"
      using pool_loop_ok [OF ok, of n None "[]" None "layer_offset l" cf] off by auto
    have "pbuf_alloc cf l n t s = Some (r, s')" using r(1) by (simp add: pbuf_alloc_def t')
    moreover have fr: "stack.more s' = stack.more s" "\<And>y. pb s' y \<noteq> None \<Longrightarrow> pb s y = None \<Longrightarrow> fst y = Pool MEMP_PBUF_POOL"
      using pool_loop_frame [OF ok _ _ off r(1), of "[]"] by simp_all
    ultimately show ?thesis using r(2)
    proof (intro *)
      assume "r \<noteq> None"
      then obtain xs where xs: "part s' 0 r xs" "pkt_len s' xs = unat n" "set xs \<inter> dom (mlive s) = {}"
        "mlive s' = (\<lambda>y. if y \<in> set xs then Some 608 else mlive s y)" "\<forall>y. y \<notin> set xs \<longrightarrow> pb s' y = pb s y"
        using r(2) unfolding pool_result_def by auto
      have "mlive s y = None \<and> fst y = Pool MEMP_PBUF_POOL" if y: "y \<in> set xs" for y
      proof
        show l: "mlive s y = None" using xs(3) y by auto
        have "mem_ok s'" using r(2) by (simp add: pool_result_def)
        then show "fst y = Pool MEMP_PBUF_POOL"
          using fr(2) part_alloced [OF xs(1) y] fresh_unused [OF ok _ xs(1) y l] by blast
      qed
      with xs False show "\<exists>xs. part s' 0 r xs \<and> pkt_len s' xs = unat n \<and> (t = PBUF_RAM \<longrightarrow> xs = [the r]) \<and>
        (\<forall>y \<in> set xs. mlive s y = None \<and> (fst y = Ram \<or> fst y = Pool MEMP_PBUF_POOL)) \<and>
        (\<forall>y. y \<notin> set xs \<longrightarrow> pb s' y = pb s y \<and> mlive s' y = mlive s y)"
        by (intro exI [of _ xs]) simp
    qed (use r(2) in \<open>auto simp: pool_result_def restrict_map_UNIV\<close>)
  qed
qed


lemma alloc_ownedD:
  assumes o: "owned s R" and t: "t = PBUF_RAM \<or> t = PBUF_POOL" and e: "pbuf_alloc cf l n t s = Some (r, s')"
  shows "octet s' = octet s" "diag s' = diag s" "stack.more s' = stack.more s"
    "r = None \<Longrightarrow> owned s' R \<and> pb s' = pb s \<and> mlive s' = mlive s" "r = Some p \<Longrightarrow> owned s' (p # R)"
    "r = Some p \<Longrightarrow> \<exists>xs. part s' 0 (Some p) xs \<and> pkt_len s' xs = unat n \<and> (t = PBUF_RAM \<longrightarrow> xs = [p]) \<and>
       (\<forall>y \<in> set xs. pb s y = None \<and> mlive s y = None \<and> (fst y = Ram \<or> fst y = Pool MEMP_PBUF_POOL)) \<and> (\<forall>y. y \<notin> set xs \<longrightarrow> pb s' y = pb s y \<and> mlive s' y = mlive s y)"
  using pbuf_alloc_owned [OF o t, of cf l n] unfolding e by simp_all

section \<open>Sequences of operations\<close>

text \<open>
  A client allocates packets and takes and drops references; it drops only references it holds
  and takes no more than the counter of a pbuf can count.
\<close>

inductive ref_step :: "'a custom_free \<Rightarrow> 'a stack_scheme \<times> ptr list \<Rightarrow> 'a stack_scheme \<times> ptr list \<Rightarrow> bool" for cf where
  got: "t = PBUF_RAM \<or> t = PBUF_POOL \<Longrightarrow> pbuf_alloc cf l n t s = Some (Some p, s') \<Longrightarrow> ref_step cf (s, R) (s', p # R)"
| full: "t = PBUF_RAM \<or> t = PBUF_POOL \<Longrightarrow> pbuf_alloc cf l n t s = Some (None, s') \<Longrightarrow> ref_step cf (s, R) (s', R)"
| ref: "p \<in> set R \<Longrightarrow> refs s p < 255 \<Longrightarrow> pbuf_ref (Some p) s = Some s' \<Longrightarrow> ref_step cf (s, R) (s', p # R)"
| free: "p \<in> set R \<Longrightarrow> pbuf_free cf (Some p) s = Some (n, s') \<Longrightarrow> ref_step cf (s, R) (s', remove1 p R)"

lemma owned_take: "p \<in> set R \<Longrightarrow> owned s R = owned s (p # remove1 p R)"
proof (rule owned_cong)
  fix x assume "p \<in> set R"
  then have "count_list R p \<noteq> 0" by (simp add: count_list_0_iff)
  then show "count_list R x = count_list (p # remove1 p R) x" by (cases "p = x") simp_all
qed

lemma ref_step_owned:
  assumes "ref_step cf (s, R) (s', R')" "owned s R"
  shows "owned s' R' \<and> diag s' = diag s"
  using assms(1)
proof cases
  case (got t l n p)
  then show ?thesis using alloc_ownedD [OF assms(2) got(2,3)] by simp
next
  case (full t l n)
  then show ?thesis using alloc_ownedD [OF assms(2) full(2,3)] by simp
next
  case (ref p)
  obtain b where "pb s p = Some b" using owned_root [OF assms(2) ref(2)] by blast
  from pbuf_ref_owned [OF assms(2) this ref(3)] ref show ?thesis by (simp add: upd_pbuf_def split: option.split)
next
  case (free p n)
  then show ?thesis using pbuf_free_owned [of s p "remove1 p R" cf] assms(2) owned_take [OF free(2)] by auto
qed

lemma ref_steps_owned:
  assumes "(ref_step cf)\<^sup>*\<^sup>* (s, R) (s', R')" "owned s R"
  shows "owned s' R' \<and> diag s' = diag s"
  using assms
proof (induction rule: rtranclp_induct2)
  case (step t Q t' Q')
  from ref_step_owned [OF step(2)] step(3,4) show ?case by simp
qed simp

text \<open>Without references from outside nothing is left: in a finite set of chains some pbuf has no predecessor.\<close>

lemma owned_Nil:
  assumes o: "owned s []"
  shows "pb s = Map.empty"
proof (rule ccontr)
  assume "pb s \<noteq> Map.empty"
  then obtain x b where x: "pb s x = Some b" by (auto simp: fun_eq_iff)
  have "\<exists>y ys. linked s (Some y) ys \<and> n \<le> length ys \<and> ys \<noteq> []" for n
  proof (induction n)
    case 0
    then show ?case using ownedD(5) [OF o x] by (metis le0 linked.simps(1) option.distinct(1))
  next
    case (Suc n)
    then obtain y ys where y: "linked s (Some y) ys" "n \<le> length ys" "ys \<noteq> []" by blast
    then obtain c where "pb s y = Some c" by (cases ys) auto
    then have "preds s y \<noteq> {}" using ownedD(4) [OF o, of y] ownedD(6) [OF o, of y c] by auto
    then obtain z d where "pb s z = Some d" "p_next d = Some y" by (auto simp: preds_def)
    then have "linked s (Some z) (z # ys)" using y by simp
    with y(2) show ?case by (metis Suc_le_mono length_Cons list.distinct(1))
  qed
  then obtain y ys where y: "linked s (Some y) ys" "Suc (card (dom (pb s))) \<le> length ys" by blast
  have "set ys \<subseteq> dom (pb s)" using linked_alloced [OF y(1)] by (auto simp: dom_def)
  then have "card (set ys) \<le> card (dom (pb s))" by (intro card_mono ownedD(2) [OF o])
  then show False using distinct_card [OF linked_distinct [OF y(1)]] y(2) by simp
qed

lemma boot_owned: "mem_ok s \<Longrightarrow> pb s = Map.empty \<Longrightarrow> owned s []"
  by (simp add: owned_def preds_def refs_def)

text \<open>
  C20. Reference counting is safe and complete: however a client allocates packets from the heap
  or the pool and takes and drops references, every reference it holds is to an allocated pbuf
  with a positive count that starts a finite chain, dropping it returns, no assertion fires,
  and once the client holds no reference any more, no pbuf is left allocated.
\<close>

theorem pbuf_refs_safe:
  assumes "mem_ok s" "pb s = Map.empty" "(ref_step cf)\<^sup>*\<^sup>* (s, []) (s', R)"
  shows "mem_ok s' \<and> diag s' = diag s \<and> (R = [] \<longrightarrow> pb s' = Map.empty) \<and>
    (\<forall>p \<in> set R. (\<exists>b xs. pb s' p = Some b \<and> 0 < p_ref b \<and> linked s' (Some p) xs) \<and>
       (\<exists>n s''. pbuf_free cf (Some p) s' = Some (n, s'')))"
proof -
  have o: "owned s' R" "diag s' = diag s" using ref_steps_owned [OF assms(3) boot_owned] assms(1,2) by auto
  have "\<exists>b xs. pb s' p = Some b \<and> 0 < p_ref b \<and> linked s' (Some p) xs" if "p \<in> set R" for p
    using owned_root [OF o(1) that] ownedD(5) [OF o(1), of p] by blast
  moreover have "\<exists>n s''. pbuf_free cf (Some p) s' = Some (n, s'')" if "p \<in> set R" for p
    using pbuf_free_owned [of s' p "remove1 p R" cf] o(1) owned_take [OF that] by blast
  ultimately show ?thesis using o ownedD(1) [OF o(1)] owned_Nil [of s'] by blast
qed

theorem pbuf_refs_safe_witness:
  "\<exists>p s1 s2 s3. pbuf_alloc (\<lambda>_. Some) PBUF_RAW 1000 PBUF_POOL (stack_boot desc_two) = Some (Some p, s1) \<and>
     pbuf_ref (Some p) s1 = Some s2 \<and> (ref_step (\<lambda>_. Some))\<^sup>*\<^sup>* (stack_boot desc_two, []) (s2, [p, p]) \<and>
     (\<exists>n. pbuf_free (\<lambda>_. Some) (Some p) s2 = Some (n, s3))"
proof -
  obtain p s1 xs where a: "pbuf_alloc (\<lambda>_. Some) PBUF_RAW 1000 PBUF_POOL (stack_boot desc_two) = Some (Some p, s1)"
    "part s1 0 (Some p) xs" using boot_alloc by blast
  have "xs \<noteq> []" using a(2) by auto
  then obtain b where b: "pb s1 p = Some b" "refs s1 p < 255"
    using a(2) part_refs [OF a(2), of p] by (cases xs) (auto simp: refs_def)
  have st: "ref_step (\<lambda>_. Some) (stack_boot desc_two, []) (s1, [p])" by (rule ref_step.got [OF _ a(1)]) simp
  then have "owned s1 [p]" using ref_step_owned [OF _ boot_owned] boot_two(1,3) by blast
  from pbuf_ref_owned [OF this b] obtain s2 where r: "pbuf_ref (Some p) s1 = Some s2" by blast
  have "ref_step (\<lambda>_. Some) (s1, [p]) (s2, [p, p])" by (rule ref_step.ref) (use b r in simp_all)
  with st have run: "(ref_step (\<lambda>_. Some))\<^sup>*\<^sup>* (stack_boot desc_two, []) (s2, [p, p])" by auto
  from pbuf_refs_safe [OF boot_two(1,3) run] a r run show ?thesis by auto
qed

end
