(* ===== verification/Pbuf_Copy.thy ===== *)
theory Pbuf_Copy
  imports Pbuf_Refs
begin

text \<open>
  Copies of packets (\<^verbatim>\<open>pbuf_copy\<close>, \<^verbatim>\<open>pbuf_clone\<close> of \<^verbatim>\<open>pbuf.c\<close>): the copy has the octets of the
  original, and lies in memory that is apart from all other packets.
\<close>

section \<open>Positions in a packet\<close>

text \<open>
  Offset \<open>o1\<close> in pbuf \<open>x\<close> is position \<open>i\<close> of the packet \<open>ds\<close>, with \<open>r\<close> pbufs behind it.
\<close>

definition cur :: "'a stack_scheme \<Rightarrow> ptr list \<Rightarrow> nat \<Rightarrow> ptr \<Rightarrow> nat \<Rightarrow> nat \<Rightarrow> bool" where
  "cur s ds i x o1 r \<longleftrightarrow> (\<exists>as bs. ds = as @ x # bs \<and> o1 \<le> plen s x \<and> i = pkt_len s as + o1 \<and> r = length bs)"

text \<open>A packet with data behind every pbuf but the last; a pbuf with none behind it ends a packet of a queue.\<close>

fun solid :: "'a stack_scheme \<Rightarrow> ptr list \<Rightarrow> bool" where
  "solid s [] \<longleftrightarrow> True"
| "solid s (x # xs) \<longleftrightarrow> (xs \<noteq> [] \<longrightarrow> 0 < pkt_len s xs) \<and> solid s xs"

lemma cur_octet [simp]: "cur (s\<lparr>octet := m\<rparr>) ds i x o1 r = cur s ds i x o1 r"
  by (simp add: cur_def plen_def)

lemma solid_octet [simp]: "solid (s\<lparr>octet := m\<rparr>) xs = solid s xs"
  by (induction xs) simp_all

lemma solid_cong: "(\<And>x. x \<in> set xs \<Longrightarrow> pb s' x = pb s x) \<Longrightarrow> solid s' xs = solid s xs"
proof (induction xs)
  case (Cons x xs)
  have "pkt_len s' xs = pkt_len s xs" unfolding pkt_len_def by (rule sum_list_map_cong) (simp add: plen_def Cons.prems)
  then show ?case using Cons by simp
qed simp

lemma contents_cong:
  "(\<And>x. x \<in> set xs \<Longrightarrow> pb s' x = pb s x) \<Longrightarrow> octet s' = octet s \<Longrightarrow> contents s' xs = contents s xs"
proof (induction xs)
  case (Cons x xs)
  have "pbytes s' x = pbytes s x" by (simp add: pbytes_def Cons.prems cong: option.case_cong)
  then show ?case using Cons by simp
qed simp

lemma solid_append: "solid s (as @ bs) \<Longrightarrow> solid s bs"
  by (induction as) auto

lemma cur_pb:
  assumes "pkt s p ds" "cur s ds i x o1 r"
  obtains b where "pb s x = Some b" "o1 \<le> unat (p_len b)" "p_payload b = None \<longrightarrow> p_len b = 0"
    "pkt_len s ds - i = unat (p_len b) - o1 + (unat (p_tot_len b) - unat (p_len b))" "i \<le> pkt_len s ds"
    "p_next b = None \<longleftrightarrow> r = 0"
proof -
  from assms(2) obtain as bs where d: "ds = as @ x # bs" "o1 \<le> plen s x" "i = pkt_len s as + o1" "r = length bs"
    by (auto simp: cur_def)
  then obtain b where b: "pb s x = Some b" "unat (p_tot_len b) = unat (p_len b) + pkt_len s bs"
    "p_payload b = None \<longrightarrow> p_len b = 0" "pkt s (p_next b) bs"
    using pkt_suffix [of s p as x bs] assms(1) by auto
  have "p_next b = None \<longleftrightarrow> r = 0" using b(4) d(4) by (cases bs) (auto simp: pkt_None)
  then show ?thesis using that [OF b(1)] b d by (simp add: plen_def)
qed

lemma cur_solid:
  assumes "pkt s p ds" "cur s ds i x o1 r" "solid s ds" "pb s x = Some b"
  shows "\<not> (p_len b = p_tot_len b \<and> p_next b \<noteq> None)"
proof -
  from assms(2) obtain as bs where d: "ds = as @ x # bs" by (auto simp: cur_def)
  then have b: "unat (p_tot_len b) = unat (p_len b) + pkt_len s bs" "pkt s (p_next b) bs"
    using pkt_suffix [of s p as x bs] assms(1,4) by auto
  have "bs \<noteq> [] \<Longrightarrow> 0 < pkt_len s bs" using solid_append [of s as "x # bs"] assms(3) d by simp
  with b show ?thesis by (cases bs) (auto simp: pkt_None)
qed

lemma cur_no_queue:
  assumes "pkt s p ds" "cur s ds i x o1 r" "solid s ds"
  shows "do { b \<leftarrow> pb s x; Some (p_len b = p_tot_len b \<and> p_next b \<noteq> None) } = Some False"
proof -
  obtain b where "pb s x = Some b" using cur_pb [OF assms(1,2)] by metis
  then show ?thesis using cur_solid [OF assms] by simp
qed

lemma cur_step:
  assumes "pkt s p ds" "cur s ds i x o1 r" "pb s x = Some b" "o1 + k \<le> unat (p_len b)"
  shows "o1 + k \<noteq> unat (p_len b) \<Longrightarrow> cur s ds (i + k) x (o1 + k) r"
    "o1 + k = unat (p_len b) \<Longrightarrow> p_next b = Some y \<Longrightarrow> 0 < r \<and> cur s ds (i + k) y 0 (r - 1)"
    "o1 + k = unat (p_len b) \<Longrightarrow> p_next b = None \<Longrightarrow> i + k = pkt_len s ds"
proof -
  from assms(2) obtain as bs where d: "ds = as @ x # bs" "o1 \<le> plen s x" "i = pkt_len s as + o1" "r = length bs"
    by (auto simp: cur_def)
  have l: "plen s x = unat (p_len b)" using assms(3) by (simp add: plen_def)
  have n: "pkt s (p_next b) bs" using pkt_suffix [of s p as x bs] assms(1,3) d(1) by auto
  show "cur s ds (i + k) x (o1 + k) r" if "o1 + k \<noteq> unat (p_len b)"
    unfolding cur_def using d l assms(4) by (intro exI [of _ as] exI [of _ bs]) simp
  show "0 < r \<and> cur s ds (i + k) y 0 (r - 1)" if e: "o1 + k = unat (p_len b)" and y: "p_next b = Some y"
  proof -
    obtain zs where z: "bs = y # zs" using n y by (cases bs) auto
    then show ?thesis unfolding cur_def using d l e by (intro conjI exI [of _ "as @ [x]"] exI [of _ zs]) simp_all
  qed
  show "i + k = pkt_len s ds" if "o1 + k = unat (p_len b)" "p_next b = None"
    using n that d l by (simp add: pkt_None)
qed

lemma cur_read:
  assumes "pkt s p ds" "cur s ds i x o1 r" "pb s x = Some b" "p_payload b = Some q" "o1 + k \<le> unat (p_len b)"
  shows "mem_read (octet s) (ptr_add q (int o1)) k = take k (drop i (contents s ds))"
proof -
  from assms(2) obtain as bs where d: "ds = as @ x # bs" "i = pkt_len s as + o1" by (auto simp: cur_def)
  have "length (contents s as) = pkt_len s as" using contents_prefix_length assms(1) d(1) by blast
  moreover have "pbytes s x = mem_read (octet s) q (unat (p_len b))" using assms by (simp add: pbytes_def)
  ultimately show ?thesis using assms(5) d by (simp add: drop_mem_read take_mem_read)
qed

text \<open>The payloads of \<open>xs\<close> lie apart from those of \<open>ys\<close>.\<close>

definition far :: "'a stack_scheme \<Rightarrow> ptr list \<Rightarrow> ptr list \<Rightarrow> bool" where
  "far s xs ys \<longleftrightarrow> (\<forall>y \<in> set ys. \<forall>b q. pb s y = Some b \<longrightarrow> p_payload b = Some q \<longrightarrow> clear_of s xs q (unat (p_len b)))"

lemma far_octet [simp]: "far (s\<lparr>octet := m\<rparr>) xs ys = far s xs ys"
  by (simp add: far_def)

lemma cur_write:
  assumes "pkt s p ds" "disjoint_payloads s ds" "cur s ds i x o1 r" "pb s x = Some b" "p_payload b = Some q"
    "o1 + length w \<le> unat (p_len b)"
  shows "contents (s\<lparr>octet := mem_write (octet s) (ptr_add q (int o1)) w\<rparr>) ds =
      take i (contents s ds) @ w @ drop (i + length w) (contents s ds)"
    "outside s ds a \<Longrightarrow> mem_write (octet s) (ptr_add q (int o1)) w a = octet s a"
    "far s xs ds \<Longrightarrow> contents (s\<lparr>octet := mem_write (octet s) (ptr_add q (int o1)) w\<rparr>) xs = contents s xs"
proof -
  from assms(3) obtain as bs where d: "ds = as @ x # bs" "i = pkt_len s as + o1" by (auto simp: cur_def)
  note W = write_inside [OF assms(1,2) [unfolded d(1)] assms(4-6), folded d(1)]
  show "contents (s\<lparr>octet := mem_write (octet s) (ptr_add q (int o1)) w\<rparr>) ds =
      take i (contents s ds) @ w @ drop (i + length w) (contents s ds)" using W(1) d(2) by simp
  show "mem_write (octet s) (ptr_add q (int o1)) w a = octet s a" if "outside s ds a" using W(2) that by simp
  show "contents (s\<lparr>octet := mem_write (octet s) (ptr_add q (int o1)) w\<rparr>) xs = contents s xs" if f: "far s xs ds"
  proof -
    have "clear_of s xs q (unat (p_len b))" using f d(1) assms(4,5) by (auto simp: far_def)
    then show ?thesis using assms(6) by (intro contents_write) auto
  qed
qed

section \<open>Copying between packets\<close>

lemma unat16_sub: "k \<le> unat n \<Longrightarrow> unat (n - of_nat k :: u16) = unat n - k"
proof -
  assume k: "k \<le> unat n"
  then have "k < 65536" using unat_u16_less [of n] by linarith
  then show ?thesis using k by (subst unat_sub) (simp_all add: word_le_nat_alt)
qed

text \<open>One round copies the octets that both current pbufs have and moves on in either.\<close>

lemma copy_round_ok:
  assumes D: "pkt s d ds" "disjoint_payloads s ds" "solid s ds" "cur s ds i t ot rt"
    and F: "pkt s f0 fs" "solid s fs" "cur s fs j f oF rf" and far: "far s fs ds"
    and n: "unat n + i \<le> pkt_len s ds" "unat n + j \<le> pkt_len s fs"
  shows "\<exists>nt nf k ot' of' m. copy_round t f n ot oF s = Some (Inr (nt, nf, n - of_nat k, ot', of'), s\<lparr>octet := m\<rparr>) \<and> k \<le> unat n \<and>
    contents (s\<lparr>octet := m\<rparr>) ds = take i (contents s ds) @ take k (drop j (contents s fs)) @ drop (i + k) (contents s ds) \<and>
    contents (s\<lparr>octet := m\<rparr>) fs = contents s fs \<and> (\<forall>a. outside s ds a \<longrightarrow> m a = octet s a) \<and>
    (k < unat n \<longrightarrow> (\<exists>t' f' rt' rf'. nt = Some t' \<and> nf = Some f' \<and> cur s ds (i + k) t' ot' rt' \<and> cur s fs (j + k) f' of' rf' \<and>
       rt' \<le> rt \<and> rf' \<le> rf \<and> (k = 0 \<longrightarrow> rt' + rf' < rt + rf)))"
proof -
  obtain tb where tb: "pb s t = Some tb" "ot \<le> unat (p_len tb)" "p_payload tb = None \<longrightarrow> p_len tb = 0"
    "p_next tb = None \<longleftrightarrow> rt = 0" using cur_pb [OF D(1,4)] by metis
  obtain fb where fb: "pb s f = Some fb" "oF \<le> unat (p_len fb)" "p_payload fb = None \<longrightarrow> p_len fb = 0"
    "p_next fb = None \<longleftrightarrow> rf = 0" using cur_pb [OF F(1,3)] by metis
  define k where "k = min (unat n) (min (unat (p_len tb) - ot) (unat (p_len fb) - oF))"
  have k: "k \<le> unat n" "ot + k \<le> unat (p_len tb)" "oF + k \<le> unat (p_len fb)" using tb(2) fb(2) by (auto simp: k_def)
  have small: "unat (p_len tb) < 4294967296" "unat (p_len fb) < 4294967296"
    using unat_u16_less [of "p_len tb"] unat_u16_less [of "p_len fb"] by linarith+
  obtain m where m: "MEMCPY (offset_ptr (p_payload tb) ot) (offset_ptr (p_payload fb) oF) k s = Some (s\<lparr>octet := m\<rparr>)"
    "contents (s\<lparr>octet := m\<rparr>) ds = take i (contents s ds) @ take k (drop j (contents s fs)) @ drop (i + k) (contents s ds)"
    "contents (s\<lparr>octet := m\<rparr>) fs = contents s fs" "\<forall>a. outside s ds a \<longrightarrow> m a = octet s a"
  proof (cases "k = 0")
    case True
    then show ?thesis by (intro that [of "octet s"]) (simp_all add: MEMCPY_def)
  next
    case False
    then obtain qt qf where q: "p_payload tb = Some qt" "p_payload fb = Some qf" using k tb(3) fb(3) by fastforce
    let ?w = "mem_read (octet s) (ptr_add qf (int oF)) k"
    have w: "?w = take k (drop j (contents s fs))" by (rule cur_read [OF F(1,3) fb(1) q(2) k(3)])
    have lw: "ot + length ?w \<le> unat (p_len tb)" using k by simp
    note W = cur_write [OF D(1,2,4) tb(1) q(1) lw]
    show ?thesis
    proof (rule that [of "mem_write (octet s) (ptr_add qt (int ot)) ?w"])
      show "contents (s\<lparr>octet := mem_write (octet s) (ptr_add qt (int ot)) ?w\<rparr>) ds =
        take i (contents s ds) @ take k (drop j (contents s fs)) @ drop (i + k) (contents s ds)" using W(1) by (simp only: length_mem_read w [symmetric])
    qed (use W(2,3) far q False in \<open>simp_all add: MEMCPY_def offset_ptr_def\<close>)
  qed
  let ?T = "ot + k = unat (p_len tb)" and ?F = "oF + k = unat (p_len fb)"
  define nt nf ot' of' where "nt = (if ?T then p_next tb else Some t)" and "nf = (if ?F then p_next fb else Some f)"
    and "ot' = (if ?T then 0 else ot + k)" and "of' = (if ?F then 0 else oF + k)"
  note d = nt_def nf_def ot'_def of'_def
  have nn: "n - of_nat k \<noteq> 0 \<longleftrightarrow> k < unat n" using unat16_sub [OF k(1)] k(1) by (auto simp: unat_eq_0 [symmetric] simp del: unat_eq_0)
  have ct: "case nt of None \<Rightarrow> i + k = pkt_len s ds | Some t' \<Rightarrow> \<exists>rt'. cur s ds (i + k) t' ot' rt' \<and> rt' \<le> rt \<and> (?T \<longrightarrow> rt' < rt)"
    using cur_step [OF D(1,4) tb(1) k(2)] by (auto simp: d split: option.split)
  have cf: "case nf of None \<Rightarrow> j + k = pkt_len s fs | Some f' \<Rightarrow> \<exists>rf'. cur s fs (j + k) f' of' rf' \<and> rf' \<le> rf \<and> (?F \<longrightarrow> rf' < rf)"
    using cur_step [OF F(1,3) fb(1) k(3)] by (auto simp: d split: option.split)
  have q: "(case nt of None \<Rightarrow> Some False | Some a \<Rightarrow> do { b \<leftarrow> pb (s\<lparr>octet := m\<rparr>) a; Some (p_len b = p_tot_len b \<and> p_next b \<noteq> None) }) = Some False"
    using ct cur_no_queue [OF D(1) _ D(3)] by (cases nt) auto
  have q': "(case nf of None \<Rightarrow> Some False | Some a \<Rightarrow> do { b \<leftarrow> pb (s\<lparr>octet := m\<rparr>) a; Some (p_len b = p_tot_len b \<and> p_next b \<noteq> None) }) = Some False"
    using cf cur_no_queue [OF F(1) _ F(2)] by (cases nf) auto
  have nz: "\<not> (nf = None \<and> n - of_nat k \<noteq> 0)" "\<not> (nt = None \<and> n - of_nat k \<noteq> 0)"
    using ct cf n unfolding nn by auto
  have "copy_round t f n ot oF s = Some (Inr (nt, nf, n - of_nat k, ot', of'), s\<lparr>octet := m\<rparr>)"
  proof -
    have len: "min (unat n) (if usub32 (unat (p_len tb)) ot \<ge> usub32 (unat (p_len fb)) oF then usub32 (unat (p_len fb)) oF
        else usub32 (unat (p_len tb)) ot) = k" using tb(2) fb(2) small by (simp add: k_def)
    have ge: "unat (p_len fb) \<le> oF + k \<longleftrightarrow> ?F" using k(3) by auto
    have p: "(if ?F then (0 :: nat, p_next fb) else (oF + k, Some f)) = (of', nf)"
      "(if ?T then (0 :: nat, p_next tb) else (ot + k, Some t)) = (ot', nt)" by (simp_all add: d)
    show ?thesis
      unfolding copy_round_def tb(1) fb(1) Option.bind.simps Let_def len m(1) ge p prod.case if_not_P [OF nz(1)] if_not_P [OF nz(2)]
        LWIP_ASSERT_true [OF k(2)] LWIP_ASSERT_true [OF k(3)] q q'
      by simp
  qed
  moreover have "\<exists>t' f' rt' rf'. nt = Some t' \<and> nf = Some f' \<and> cur s ds (i + k) t' ot' rt' \<and> cur s fs (j + k) f' of' rf' \<and>
       rt' \<le> rt \<and> rf' \<le> rf \<and> (k = 0 \<longrightarrow> rt' + rf' < rt + rf)" if "k < unat n"
  proof -
    have "n - of_nat k \<noteq> 0" using nn that by blast
    then obtain t' f' where tf: "nt = Some t'" "nf = Some f'" using nz by (cases nt; cases nf) simp_all
    then obtain rt' rf' where "cur s ds (i + k) t' ot' rt'" "rt' \<le> rt" "?T \<longrightarrow> rt' < rt"
      "cur s fs (j + k) f' of' rf'" "rf' \<le> rf" "?F \<longrightarrow> rf' < rf" using ct cf by auto
    moreover have "k = 0 \<Longrightarrow> ?T \<or> ?F" using that tb(2) fb(2) by (auto simp: k_def min_def split: if_splits)
    ultimately show ?thesis using tf by (intro exI conjI) auto
  qed
  ultimately show ?thesis using k(1) m by blast
qed


lemma copy_loop_ok:
  assumes "pkt s d ds" "disjoint_payloads s ds" "solid s ds" "cur s ds i t ot rt"
    "pkt s f0 fs" "solid s fs" "cur s fs j f oF rf" "far s fs ds" "unat n + i \<le> pkt_len s ds" "unat n + j \<le> pkt_len s fs"
  shows "\<exists>m. pbuf_copy_partial_pbuf_loop (Some t) (Some f) n ot oF s = Some (ERR_OK, s\<lparr>octet := m\<rparr>) \<and>
    contents (s\<lparr>octet := m\<rparr>) ds = take i (contents s ds) @ take (unat n) (drop j (contents s fs)) @ drop (i + unat n) (contents s ds) \<and>
    contents (s\<lparr>octet := m\<rparr>) fs = contents s fs \<and> (\<forall>a. outside s ds a \<longrightarrow> m a = octet s a)"
  using assms
proof (induction "unat n + rt + rf" arbitrary: n i j t f ot oF rt rf s rule: less_induct)
  case less
  obtain nt nf k ot' of' m where r: "copy_round t f n ot oF s = Some (Inr (nt, nf, n - of_nat k, ot', of'), s\<lparr>octet := m\<rparr>)"
      "k \<le> unat n"
      "contents (s\<lparr>octet := m\<rparr>) ds = take i (contents s ds) @ take k (drop j (contents s fs)) @ drop (i + k) (contents s ds)"
      "contents (s\<lparr>octet := m\<rparr>) fs = contents s fs" "\<forall>a. outside s ds a \<longrightarrow> m a = octet s a"
    and nx: "k < unat n \<longrightarrow> (\<exists>t' f' rt' rf'. nt = Some t' \<and> nf = Some f' \<and> cur s ds (i + k) t' ot' rt' \<and> cur s fs (j + k) f' of' rf' \<and>
       rt' \<le> rt \<and> rf' \<le> rf \<and> (k = 0 \<longrightarrow> rt' + rf' < rt + rf))"
    using copy_round_ok [OF less.prems] by (elim exE conjE) (rule that; assumption)
  have un: "unat (n - of_nat k) = unat n - k" using unat16_sub [OF r(2)] .
  have lc: "length (contents s ds) = pkt_len s ds" "length (contents s fs) = pkt_len s fs"
    using length_contents less.prems(1,5) by blast+
  show ?case
  proof (cases "k < unat n")
    case False
    then have "k = unat n" using r(2) by simp
    then have "n - of_nat k = 0" by simp
    then show ?thesis using r \<open>k = unat n\<close> by (intro exI [of _ m]) (simp add: pbuf_copy_partial_pbuf_loop.simps)
  next
    case True
    then obtain t' f' rt' rf' where n: "nt = Some t'" "nf = Some f'" "cur s ds (i + k) t' ot' rt'" "cur s fs (j + k) f' of' rf'"
       "rt' \<le> rt" "rf' \<le> rf" "k = 0 \<longrightarrow> rt' + rf' < rt + rf" using nx by blast
    let ?s = "s\<lparr>octet := m\<rparr>"
    have ms: "unat (n - of_nat k) + rt' + rf' < unat n + rt + rf" using un n(5-7) True by (cases "k = 0") auto
    have pr: "pkt ?s d ds" "disjoint_payloads ?s ds" "solid ?s ds" "cur ?s ds (i + k) t' ot' rt'" "pkt ?s f0 fs" "solid ?s fs"
      "cur ?s fs (j + k) f' of' rf'" "far ?s fs ds" using less.prems n by simp_all
    have ln: "unat (n - of_nat k) + (i + k) \<le> pkt_len ?s ds" "unat (n - of_nat k) + (j + k) \<le> pkt_len ?s fs"
      using un less.prems(9,10) True by simp_all
    obtain m' where m': "pbuf_copy_partial_pbuf_loop (Some t') (Some f') (n - of_nat k) ot' of' ?s = Some (ERR_OK, ?s\<lparr>octet := m'\<rparr>)"
      "contents (?s\<lparr>octet := m'\<rparr>) ds = take (i + k) (contents ?s ds) @ take (unat n - k) (drop (j + k) (contents ?s fs)) @
         drop (i + k + (unat n - k)) (contents ?s ds)"
      "contents (?s\<lparr>octet := m'\<rparr>) fs = contents ?s fs" "\<forall>a. outside ?s ds a \<longrightarrow> m' a = octet ?s a"
      using less.hyps [OF ms pr ln] unfolding un by blast
    have nz: "n - of_nat k \<noteq> 0" using un True by (metis diff_is_0_eq linorder_not_le unat_0)
    have "pbuf_copy_partial_pbuf_loop (Some t) (Some f) n ot oF s = Some (ERR_OK, s\<lparr>octet := m'\<rparr>)"
      by (subst pbuf_copy_partial_pbuf_loop.simps) (use r(1) n m'(1) nz in simp)
    moreover have "contents (s\<lparr>octet := m'\<rparr>) ds =
        take i (contents s ds) @ take (unat n) (drop j (contents s fs)) @ drop (i + unat n) (contents s ds)"
    proof -
      have "i \<le> pkt_len s ds" "unat n + j \<le> length (contents s fs)" "i + unat n \<le> length (contents s ds)"
        using less.prems(9,10) lc by simp_all
      then have "take (unat n) (drop j (contents s fs)) = take k (drop j (contents s fs)) @ take (unat n - k) (drop (j + k) (contents s fs))"
        using r(2) take_add [of k "unat n - k" "drop j (contents s fs)"] by (simp add: add.commute)
      then show ?thesis using m'(2) r(2,3,4) lc less.prems(9,10) True by (simp add: add.assoc add.commute [of i])
    qed
    ultimately show ?thesis using m'(3,4) r(4,5) by (intro exI [of _ m']) simp
  qed
qed

text \<open>Copying a whole packet to the start of another one that is big enough.\<close>

lemma pbuf_copy_ok:
  assumes D: "pkt s (Some d) ds" "disjoint_payloads s ds" "solid s ds" and F: "pkt s (Some f) fs" "solid s fs" and far: "far s fs ds"
    and n: "pkt_len s fs \<le> pkt_len s ds"
  shows "\<exists>m. pbuf_copy (Some d) (Some f) s = Some (ERR_OK, s\<lparr>octet := m\<rparr>) \<and>
    contents (s\<lparr>octet := m\<rparr>) ds = contents s fs @ drop (pkt_len s fs) (contents s ds) \<and>
    contents (s\<lparr>octet := m\<rparr>) fs = contents s fs \<and> (\<forall>a. outside s ds a \<longrightarrow> m a = octet s a)"
proof -
  obtain ds' where ds: "ds = d # ds'" using D(1) by (cases ds) auto
  obtain fs' where fs: "fs = f # fs'" using F(1) by (cases fs) auto
  obtain db where db: "pb s d = Some db" "unat (p_tot_len db) = pkt_len s ds" using D(1) ds by (auto simp: plen_def)
  obtain fb where fb: "pb s f = Some fb" "unat (p_tot_len fb) = pkt_len s fs" using F(1) fs by (auto simp: plen_def)
  have "cur s ds 0 d 0 (length ds')" unfolding cur_def ds by (rule exI [of _ "[]"], rule exI [of _ ds']) simp
  moreover have "cur s fs 0 f 0 (length fs')" unfolding cur_def fs by (rule exI [of _ "[]"], rule exI [of _ fs']) simp
  moreover have "length (contents s fs) = pkt_len s fs" by (rule length_contents [OF F(1)])
  ultimately obtain m where "pbuf_copy_partial_pbuf_loop (Some d) (Some f) (p_tot_len fb) 0 0 s = Some (ERR_OK, s\<lparr>octet := m\<rparr>)"
    "contents (s\<lparr>octet := m\<rparr>) ds = contents s fs @ drop (pkt_len s fs) (contents s ds)"
    "contents (s\<lparr>octet := m\<rparr>) fs = contents s fs" "\<forall>a. outside s ds a \<longrightarrow> m a = octet s a"
    using copy_loop_ok [OF D _ F _ far, of 0 d 0 "length ds'" 0 f 0 "length fs'" "p_tot_len fb"] fb n by auto
  then show ?thesis using fb db n by (intro exI [of _ m]) (simp add: pbuf_copy_def pbuf_copy_partial_pbuf_def deref_def)
qed


section \<open>Where data lies\<close>

lemma mlive_apart:
  assumes ok: "mem_ok s" and a: "mlive s a = Some n" and b: "mlive s b = Some k" and ne: "a \<noteq> b"
  shows "apart a n b k"
proof (cases "fst a = fst b")
  case True
  note inv = mem_okD [OF ok]
  show ?thesis
  proof (cases "fst a")
    case Ram
    then have "live s (snd a) = Some n" "live s (snd b) = Some k" "snd a \<noteq> snd b"
      using a b ne True by (auto simp: mlive_def prod_eq_iff)
    from heap_alloc.live_apart [OF inv(1) this] show ?thesis by (simp add: apart_def True)
  next
    case (Pool t)
    then have "pool_live s a = Some n" "pool_live s b = Some k" using a b True by (simp_all add: mlive_def)
    then show ?thesis using pool_alloc.live_apart [of s "memp_pools s" a n b k] inv(2) ne by simp
  next
    case (Ext e)
    then show ?thesis using a by (simp add: mlive_def)
  qed
qed (simp add: apart_def)

text \<open>The data of a pbuf lies in allocated memory, or outside the heap and the pools.\<close>

definition within :: "ptr \<Rightarrow> nat \<Rightarrow> ptr \<Rightarrow> nat \<Rightarrow> bool" where
  "within a k q n \<longleftrightarrow> fst q = fst a \<and> snd a \<le> snd q \<and> snd q + int n \<le> snd a + int k"

definition placed :: "'a stack_scheme \<Rightarrow> ptr \<Rightarrow> bool" where
  "placed s x \<longleftrightarrow> (\<forall>b q. pb s x = Some b \<longrightarrow> p_payload b = Some q \<longrightarrow>
     (\<exists>e. fst q = Ext e) \<or> (\<exists>a k. mlive s a = Some k \<and> within a k q (unat (p_len b))))"

lemma within_apart: "apart a k b l \<Longrightarrow> within a k p n \<Longrightarrow> within b l q m \<Longrightarrow> apart p n q m"
  by (auto simp: apart_def within_def)

lemma fst_Ext_apart: "fst q = Ext e \<Longrightarrow> mlive s a = Some k \<Longrightarrow> within a k p n \<Longrightarrow> apart q m p n"
  by (auto simp: apart_def within_def mlive_def split: region.splits)

lemma region_contiguous:
  assumes "mem_ok s" "pb s x = Some b" "\<not> custom b" "fst x = Ram \<or> fst x = Pool MEMP_PBUF_POOL"
  shows "contiguous b"
  using mem_okD(4) [OF assms(1,2)] assms(3,4) by (auto simp: home_def src_ok_def)

lemma contiguous_at:
  assumes "mem_ok s" "pb s x = Some b" "\<not> custom b" "contiguous b" "p_payload b = Some q"
  shows "\<exists>k. mlive s x = Some k \<and> within x k q (unat (p_len b))"
  using mem_okD(4) [OF assms(1,2)] assms(3-5) by (auto simp: home_def inside_def within_def)

lemma contiguous_placed: "mem_ok s \<Longrightarrow> pb s x = Some b \<Longrightarrow> \<not> custom b \<Longrightarrow> contiguous b \<Longrightarrow> placed s x"
  using contiguous_at by (fastforce simp: placed_def)

text \<open>Packets in memory that was free before lie apart from everything that was placed.\<close>

definition fresh :: "'a stack_scheme \<Rightarrow> 'a stack_scheme \<Rightarrow> ptr list \<Rightarrow> bool" where
  "fresh s s' xs \<longleftrightarrow> mem_ok s' \<and> distinct xs \<and> (\<forall>x \<in> set xs. pb s x = None \<and> mlive s x = None \<and>
     (\<forall>b. pb s' x = Some b \<longrightarrow> \<not> custom b \<and> contiguous b)) \<and>
     (\<forall>y. y \<notin> set xs \<longrightarrow> pb s' y = pb s y \<and> mlive s' y = mlive s y)"

lemma fresh_far:
  assumes f: "fresh s s' xs" and p: "\<And>y. y \<in> set ys \<Longrightarrow> placed s y \<and> pb s y \<noteq> None"
  shows "far s' ys xs"
proof -
  have "apart r (unat (p_len c)) q (unat (p_len b))"
    if x: "x \<in> set xs" "pb s' x = Some b" "p_payload b = Some q" and y: "y \<in> set ys" "pb s' y = Some c" "p_payload c = Some r"
    for x b q y c r
  proof -
    have ok: "mem_ok s'" using f by (simp add: fresh_def)
    obtain k where k: "mlive s' x = Some k" "within x k q (unat (p_len b))"
      using contiguous_at [OF ok x(2) _ _ x(3)] f x(1,2) by (auto simp: fresh_def)
    have "y \<notin> set xs" using f p [OF y(1)] by (auto simp: fresh_def)
    then have "pb s y = Some c" using f y(2) by (simp add: fresh_def)
    with p [OF y(1)] y(3) consider e where "fst r = Ext e" | a l where "mlive s a = Some l" "within a l r (unat (p_len c))"
      unfolding placed_def by blast
    then show ?thesis
    proof cases
      case 1
      then show ?thesis using fst_Ext_apart k by blast
    next
      case (2 a l)
      then have "a \<notin> set xs" using f by (auto simp: fresh_def)
      then have "mlive s' a = Some l" "a \<noteq> x" using f 2 x(1) by (auto simp: fresh_def)
      from within_apart [OF mlive_apart [OF ok this(1) k(1) this(2)] 2(2) k(2)] show ?thesis .
    qed
  qed
  then show ?thesis unfolding far_def clear_of_def by blast
qed

lemma chain_disjoint:
  assumes "mem_ok s" "distinct xs" "\<And>x b. x \<in> set xs \<Longrightarrow> pb s x = Some b \<Longrightarrow> \<not> custom b \<and> contiguous b"
  shows "disjoint_payloads s xs"
  using assms(2,3)
proof (induction xs)
  case (Cons x xs)
  have "clear_of s xs q (unat (p_len b))" if x: "pb s x = Some b" "p_payload b = Some q" for b q
  proof -
    obtain k where k: "mlive s x = Some k" "within x k q (unat (p_len b))"
      using contiguous_at [OF assms(1) x(1) _ _ x(2)] Cons.prems(2) [of x b] x(1) by auto
    have "apart r (unat (p_len c)) q (unat (p_len b))" if y: "y \<in> set xs" "pb s y = Some c" "p_payload c = Some r" for y c r
    proof -
      obtain l where l: "mlive s y = Some l" "within y l r (unat (p_len c))"
        using contiguous_at [OF assms(1) y(2) _ _ y(3)] Cons.prems(2) [of y c] y by auto
      have "y \<noteq> x" using Cons.prems(1) y(1) by auto
      from within_apart [OF mlive_apart [OF assms(1) l(1) k(1) this] l(2) k(2)] show ?thesis .
    qed
    then show ?thesis unfolding clear_of_def by blast
  qed
  moreover have "disjoint_payloads s xs"
    by (rule Cons.IH) (use Cons.prems(1) in simp, meson Cons.prems(2) list.set_intros(2))
  ultimately show ?case by simp
qed simp

lemma fresh_disjoint: "fresh s s' xs \<Longrightarrow> disjoint_payloads s' xs"
  by (rule chain_disjoint) (auto simp: fresh_def)

text \<open>What writing into fresh packets leaves alone.\<close>

lemma far_contents:
  assumes "far s ys xs" "\<And>a. outside s xs a \<Longrightarrow> m a = octet s a"
  shows "contents (s\<lparr>octet := m\<rparr>) ys = contents s ys"
proof -
  have "pbytes (s\<lparr>octet := m\<rparr>) y = pbytes s y" if "y \<in> set ys" for y
  proof (rule pbytes_outside [where bs = xs])
    fix c q assume c: "pb s y = Some c" "p_payload c = Some q"
    have "apart r (unat (p_len b)) q (unat (p_len c))" if "x \<in> set xs" "pb s x = Some b" "p_payload b = Some r" for x b r
      using assms(1) that c \<open>y \<in> set ys\<close> apart_sym unfolding far_def clear_of_def by metis
    then show "clear_of s xs q (unat (p_len c))" unfolding clear_of_def by blast
  qed (fact assms(2))
  then show ?thesis unfolding contents_def by (simp cong: map_cong)
qed

lemma alloc_fresh:
  assumes o: "owned s R" and t: "t = PBUF_RAM \<or> t = PBUF_POOL" and e: "pbuf_alloc cf l n t s = Some (Some p, s')"
  shows "\<exists>xs. part s' 0 (Some p) xs \<and> pkt_len s' xs = unat n \<and> (t = PBUF_RAM \<longrightarrow> xs = [p]) \<and> fresh s s' xs"
proof -
  note A = alloc_ownedD [OF o t e]
  obtain xs where xs: "part s' 0 (Some p) xs" "pkt_len s' xs = unat n" "t = PBUF_RAM \<longrightarrow> xs = [p]"
    "\<forall>y \<in> set xs. pb s y = None \<and> mlive s y = None \<and> (fst y = Ram \<or> fst y = Pool MEMP_PBUF_POOL)"
    "\<forall>y. y \<notin> set xs \<longrightarrow> pb s' y = pb s y \<and> mlive s' y = mlive s y" using A(6) [OF refl] by blast
  note o' = A(5) [OF refl]
  have "\<not> custom b \<and> contiguous b" if "x \<in> set xs" "pb s' x = Some b" for x b
    using region_contiguous [OF ownedD(1) [OF o'] that(2)] ownedD(3) [OF o' that(2)] xs(4) that(1) by blast
  then have "fresh s s' xs" using xs ownedD(1) [OF o'] linked_distinct [OF part_linked [OF xs(1)]] by (simp add: fresh_def)
  with xs show ?thesis by blast
qed


text \<open>The invariants see only the allocators and the pbufs.\<close>

definition same_mem :: "'a stack_scheme \<Rightarrow> 'a stack_scheme \<Rightarrow> bool" where
  "same_mem s' s \<longleftrightarrow> ram s' = ram s \<and> lfree s' = lfree s \<and> ram_end s' = ram_end s \<and> mst_used s' = mst_used s \<and>
     memp_pools s' = memp_pools s \<and> tab s' = tab s \<and> mnext s' = mnext s \<and> mps_used s' = mps_used s \<and> pb s' = pb s"

lemma same_mem:
  assumes "same_mem s' s"
  shows "mlive s' = mlive s" "mem_ok s' = mem_ok s" "owned s' R = owned s R" "fresh t s' xs = fresh t s xs" "pb s' = pb s"
proof -
  note e = assms [unfolded same_mem_def]
  have f: "heap_inv s' = heap_inv s" "live s' = live s" using heap_inv_frame [of s' s] e by simp_all
  have g: "pools_inv s' = pools_inv s" "pool_live s' = pool_live s" using pools_frame [of s' s] e by simp_all
  show m: "mlive s' = mlive s" using f g by (intro mlive_frame)
  show ok: "mem_ok s' = mem_ok s" using e f g m by (simp add: mem_ok_def)
  have "linked s' p xs = linked s p xs" for p xs using e by (intro linked_cong) simp
  then show "owned s' R = owned s R" using e ok by (simp add: owned_def preds_def refs_def)
  show "fresh t s' xs = fresh t s xs" using e ok m by (simp add: fresh_def)
  show "pb s' = pb s" using e by simp
qed

lemma same_mem_octet: "same_mem (s\<lparr>octet := m\<rparr>) s"
  by (simp add: same_mem_def)

lemmas mem_octet [simp] = same_mem [OF same_mem_octet]

text \<open>A copy in one block of the heap, of a packet whose data is placed.\<close>

lemma clone_ok:
  assumes o: "owned s R" and F: "pkt s (Some f) fs" "solid s fs" and pl: "\<forall>y \<in> set fs. placed s y"
  shows "\<exists>r s'. pbuf_clone cf l PBUF_RAM (Some f) s = Some (r, s') \<and> diag s' = diag s \<and> stack.more s' = stack.more s \<and>
    (r = None \<longrightarrow> owned s' R \<and> pb s' = pb s \<and> mlive s' = mlive s \<and> octet s' = octet s) \<and>
    (\<forall>p. r = Some p \<longrightarrow> owned s' (p # R) \<and> fresh s s' [p] \<and> part s' 0 (Some p) [p] \<and> pkt s' (Some p) [p] \<and> contents s' [p] = contents s fs \<and>
       (\<forall>ys. (\<forall>y \<in> set ys. placed s y \<and> pb s y \<noteq> None) \<longrightarrow> contents s' ys = contents s ys))"
proof -
  obtain fs' fb where fs: "fs = f # fs'" and fb: "pb s f = Some fb" "unat (p_tot_len fb) = pkt_len s fs"
    using F(1) by (cases fs) (auto simp: plen_def)
  obtain r s1 where r: "pbuf_alloc cf l (p_tot_len fb) PBUF_RAM s = Some (r, s1)"
    using pbuf_alloc_owned [OF o, of PBUF_RAM cf l "p_tot_len fb"] by blast
  note A = alloc_ownedD [OF o _ r, simplified]
  show ?thesis
  proof (cases r)
    case None
    then show ?thesis using r A fb by (simp add: pbuf_clone_def deref_def)
  next
    case (Some p)
    obtain xs where "part s1 0 (Some p) xs" "pkt_len s1 xs = pkt_len s fs" "xs = [p]" "fresh s s1 xs"
      using alloc_fresh [OF o _ r [unfolded Some]] fb(2) by auto
    then have D: "part s1 0 (Some p) [p]" "pkt_len s1 [p] = pkt_len s fs" "fresh s s1 [p]" by simp_all
    have al: "placed s y \<and> pb s y \<noteq> None" if "y \<in> set fs" for y
      using pl linked_alloced [OF pkt_linked [OF F(1)] that] that by auto
    have pn: "p \<notin> set fs" using D(3) al [of p] by (auto simp: fresh_def)
    have same: "pb s1 y = pb s y" if "y \<in> set fs" for y using D(3) pn that by (auto simp: fresh_def)
    have F1: "pkt s1 (Some f) fs" "pkt_len s1 fs = pkt_len s fs" "solid s1 fs" "contents s1 fs = contents s fs"
      using pkt_cong [of fs s1 s] same F A(1) solid_cong [of fs s1 s] contents_cong [of fs s1 s] by auto
    have "solid s1 [p]" by simp
    then obtain m where m: "pbuf_copy (Some p) (Some f) s1 = Some (ERR_OK, s1\<lparr>octet := m\<rparr>)"
      "contents (s1\<lparr>octet := m\<rparr>) [p] = contents s1 fs @ drop (pkt_len s1 fs) (contents s1 [p])"
      "\<forall>a. outside s1 [p] a \<longrightarrow> m a = octet s1 a"
      using pbuf_copy_ok [OF part_pkt [OF D(1)] fresh_disjoint [OF D(3)] _ F1(1,3) fresh_far [OF D(3) al]] F1(2) D(2) by auto
    have "length (contents s1 [p]) = pkt_len s1 fs" using length_contents [OF part_pkt [OF D(1)]] D(2) F1(2) by simp
    then have c: "contents (s1\<lparr>octet := m\<rparr>) [p] = contents s fs" using m(2) F1(4) by simp
    have "contents (s1\<lparr>octet := m\<rparr>) ys = contents s ys" if ys: "\<forall>y \<in> set ys. placed s y \<and> pb s y \<noteq> None" for ys
    proof -
      have "contents (s1\<lparr>octet := m\<rparr>) ys = contents s1 ys"
        by (rule far_contents [OF fresh_far [OF D(3)]]) (use ys m(3) in blast)+
      also have "\<dots> = contents s ys"
      proof (rule contents_cong)
        fix y assume "y \<in> set ys"
        then have "y \<noteq> p" using ys D(3) by (auto simp: fresh_def)
        then show "pb s1 y = pb s y" using D(3) by (simp add: fresh_def)
      qed (fact A(1))
      finally show ?thesis .
    qed
    moreover have "pbuf_clone cf l PBUF_RAM (Some f) s = Some (Some p, s1\<lparr>octet := m\<rparr>)"
      using r Some m(1) fb(1) by (simp add: pbuf_clone_def deref_def)
    ultimately show ?thesis using A Some D c part_pkt [OF D(1)] by (intro exI) auto
  qed
qed


lemma boot_malloc:
  assumes "0 < n" "n \<le> 15000"
  shows "\<exists>s'. mem_malloc n (stack_boot D) = Some (Some 6, s')"
proof -
  let ?z = "mem_init (stack_zero D)"
  have h: "heap_shape ?z [0]" by (rule mem_init_shape) simp
  have r: "ram (stack_boot D) = ram ?z" by (simp add: stack_boot_def memp_init_heap)
  have i: "heap_inv (stack_boot D)"
    unfolding stack_boot_def using heap_inv_frame(1) [OF memp_init_heap(1-4), of ?z] heap_invI [OF h] by simp
  have "fits (ram ?z) (max n MIN_SIZE_ALIGNED) 0" using assms(2) by (simp add: fits_def mem_init_def Let_def layout_simps)
  then show ?thesis using mem_malloc_ok [OF i, of n] heap_shape_blocks [OF h] r assms(1) by auto
qed

lemma boot_ram:
  assumes "unat n \<le> 10000"
  shows "\<exists>s1. pbuf_alloc cf l n PBUF_RAM (stack_boot desc_two) = Some (Some (Ram, 6), s1) \<and> owned s1 [(Ram, 6)] \<and>
    part s1 0 (Some (Ram, 6)) [(Ram, 6)] \<and> pkt_len s1 [(Ram, 6)] = unat n \<and> placed s1 (Ram, 6)"
proof -
  have off: "unat (layer_offset l) \<le> 56" by (cases l) simp_all
  have a: "unat (of_nat SIZEOF_STRUCT_PBUF + (layer_offset l + n)) = 16 + (unat (layer_offset l) + unat n)"
    using assms off by (simp add: unat_word_ariths pool_consts)
  have "n \<le> layer_offset l + n" "n \<le> of_nat SIZEOF_STRUCT_PBUF + (layer_offset l + n)"
    using assms off a by (simp_all add: word_le_nat_alt unat_word_ariths)
  moreover obtain s' where "mem_malloc (16 + (unat (layer_offset l) + unat n)) (stack_boot desc_two) = Some (Some 6, s')"
    using boot_malloc assms off by fastforce
  ultimately obtain s1 where s1: "pbuf_alloc cf l n PBUF_RAM (stack_boot desc_two) = Some (Some (Ram, 6), s1)"
    by (auto simp: pbuf_alloc_def Let_def a not_less)
  have o: "owned (stack_boot desc_two) []" by (rule boot_owned [OF boot_two(1,3)])
  note A = alloc_ownedD [OF o _ s1, simplified]
  obtain b where b: "part s1 0 (Some (Ram, 6)) [(Ram, 6)]" "pkt_len s1 [(Ram, 6)] = unat n" "pb s1 (Ram, 6) = Some b"
    using alloc_fresh [OF o _ s1] by auto
  have "placed s1 (Ram, 6)"
    using contiguous_placed [OF ownedD(1) [OF A(5)] b(3)] region_contiguous [OF ownedD(1) [OF A(5)] b(3)] ownedD(3) [OF A(5) b(3)]
    by simp
  with s1 A b show ?thesis by blast
qed

text \<open>
  C21. Cloning a packet into the heap returns; if there is no room nothing changes, otherwise the
  clone is a new packet of one pbuf with the octets of the original, in memory nothing else
  uses: no other packet changes, in its pbufs or in its contents, and the clone is the caller's.
\<close>

theorem pbuf_clone_contents:
  assumes "owned s R" "pkt s (Some f) fs" "solid s fs" "\<forall>y \<in> set fs. placed s y"
  shows "\<exists>r s'. pbuf_clone cf l PBUF_RAM (Some f) s = Some (r, s') \<and> diag s' = diag s \<and>
    (case r of None \<Rightarrow> owned s' R \<and> pb s' = pb s \<and> octet s' = octet s
     | Some p \<Rightarrow> owned s' (p # R) \<and> pb s p = None \<and> pkt s' (Some p) [p] \<and> contents s' [p] = contents s fs \<and>
       (\<forall>y. y \<noteq> p \<longrightarrow> pb s' y = pb s y) \<and>
       (\<forall>ys. (\<forall>y \<in> set ys. placed s y \<and> pb s y \<noteq> None) \<longrightarrow> contents s' ys = contents s ys))"
  using clone_ok [OF assms, of cf l] by (elim exE) (auto simp: fresh_def split: option.split intro!: exI)

theorem pbuf_clone_contents_witness:
  "\<exists>s1. pbuf_alloc (\<lambda>_. Some) PBUF_RAW 1000 PBUF_RAM (stack_boot desc_two) = Some (Some (Ram, 6), s1) \<and>
     (\<exists>r s'. pbuf_clone (\<lambda>_. Some) PBUF_LINK PBUF_RAM (Some (Ram, 6)) s1 = Some (r, s') \<and>
       (\<forall>p. r = Some p \<longrightarrow> contents s' [p] = contents s1 [(Ram, 6)]))"
proof -
  obtain s1 where s1: "pbuf_alloc (\<lambda>_. Some) PBUF_RAW 1000 PBUF_RAM (stack_boot desc_two) = Some (Some (Ram, 6), s1)"
    "owned s1 [(Ram, 6)]" "part s1 0 (Some (Ram, 6)) [(Ram, 6)]" "placed s1 (Ram, 6)"
    using boot_ram [of 1000 "\<lambda>_. Some" PBUF_RAW, simplified unat_numeral] by (auto simp del: part.simps)
  have "\<exists>r s'. pbuf_clone (\<lambda>_. Some) PBUF_LINK PBUF_RAM (Some (Ram, 6)) s1 = Some (r, s') \<and>
       (\<forall>p. r = Some p \<longrightarrow> contents s' [p] = contents s1 [(Ram, 6)])"
    using pbuf_clone_contents [OF s1(2) part_pkt [OF s1(3)], of "\<lambda>_. Some" PBUF_LINK] s1(4) by (auto split: option.splits)
  with s1(1) show ?thesis by blast
qed

end
