(* ===== verification/Net_State.thy ===== *)
theory Net_State
  imports Ip4_Addr Pbuf_Copy Timeouts
begin

text \<open>
  The state the protocol layers share: the network interfaces of \<^verbatim>\<open>core/netif.c\<close> and the
  statistics of \<^verbatim>\<open>stats.h\<close>, on top of memory, pools, packets and timers.
\<close>

section \<open>Statistics\<close>

text \<open>In this build a \<^verbatim>\<open>STAT_COUNTER\<close> is a \<^verbatim>\<open>u16_t\<close>, which wraps around.\<close>

record stats_proto =
  st_xmit :: u16
  st_recv :: u16
  st_fw :: u16
  st_drop :: u16
  st_chkerr :: u16
  st_lenerr :: u16
  st_memerr :: u16
  st_rterr :: u16
  st_proterr :: u16
  st_opterr :: u16
  st_err :: u16
  st_cachehit :: u16

section \<open>Interfaces\<close>

text \<open>
  The rest of \<^verbatim>\<open>struct netif\<close>: the functions the interface was set up with, each named by a
  number, the driver's state and the data of the protocols that keep some per interface.
\<close>

type_synonym fnptr = nat

record netdev = netif +
  nf_input :: "fnptr option"
  nf_output :: "fnptr option"
  nf_linkoutput :: "fnptr option"
  nf_status_callback :: "fnptr option"
  nf_link_callback :: "fnptr option"
  nf_state :: "ptr option"
  nf_dhcp :: "ptr option"
  nf_autoip :: "ptr option"
  nf_acd_list :: "ptr option"

record net = timers +
  netifs :: "nif \<Rightarrow> netdev"
  netif_list :: "nif option"
  netif_default :: "nif option"
  netif_num :: u8
  stats_link :: stats_proto
  stats_etharp :: stats_proto
  stats_ip_frag :: stats_proto
  stats_ip :: stats_proto
  stats_icmp :: stats_proto
  stats_udp :: stats_proto
  stats_tcp :: stats_proto

definition LINK_STATS_INC :: "((u16 \<Rightarrow> u16) \<Rightarrow> stats_proto \<Rightarrow> stats_proto) \<Rightarrow> 'a net_scheme \<Rightarrow> 'a net_scheme" where
  "LINK_STATS_INC x s = s\<lparr>stats_link := x (\<lambda>n. n + 1) (stats_link s)\<rparr>"

definition ETHARP_STATS_INC :: "((u16 \<Rightarrow> u16) \<Rightarrow> stats_proto \<Rightarrow> stats_proto) \<Rightarrow> 'a net_scheme \<Rightarrow> 'a net_scheme" where
  "ETHARP_STATS_INC x s = s\<lparr>stats_etharp := x (\<lambda>n. n + 1) (stats_etharp s)\<rparr>"

definition IP_STATS_INC :: "((u16 \<Rightarrow> u16) \<Rightarrow> stats_proto \<Rightarrow> stats_proto) \<Rightarrow> 'a net_scheme \<Rightarrow> 'a net_scheme" where
  "IP_STATS_INC x s = s\<lparr>stats_ip := x (\<lambda>n. n + 1) (stats_ip s)\<rparr>"

definition IPFRAG_STATS_INC :: "((u16 \<Rightarrow> u16) \<Rightarrow> stats_proto \<Rightarrow> stats_proto) \<Rightarrow> 'a net_scheme \<Rightarrow> 'a net_scheme" where
  "IPFRAG_STATS_INC x s = s\<lparr>stats_ip_frag := x (\<lambda>n. n + 1) (stats_ip_frag s)\<rparr>"

definition ICMP_STATS_INC :: "((u16 \<Rightarrow> u16) \<Rightarrow> stats_proto \<Rightarrow> stats_proto) \<Rightarrow> 'a net_scheme \<Rightarrow> 'a net_scheme" where
  "ICMP_STATS_INC x s = s\<lparr>stats_icmp := x (\<lambda>n. n + 1) (stats_icmp s)\<rparr>"

definition UDP_STATS_INC :: "((u16 \<Rightarrow> u16) \<Rightarrow> stats_proto \<Rightarrow> stats_proto) \<Rightarrow> 'a net_scheme \<Rightarrow> 'a net_scheme" where
  "UDP_STATS_INC x s = s\<lparr>stats_udp := x (\<lambda>n. n + 1) (stats_udp s)\<rparr>"

definition upd_netif :: "nif \<Rightarrow> (netdev \<Rightarrow> netdev) \<Rightarrow> 'a net_scheme \<Rightarrow> 'a net_scheme" where
  "upd_netif n f s = s\<lparr>netifs := (netifs s)(n := f (netifs s n))\<rparr>"

definition NETIF_NO_INDEX :: u8 where "NETIF_NO_INDEX = 0"

definition netif_get_index :: "'a netif_scheme \<Rightarrow> u8" where
  "netif_get_index netif = nf_num netif + 1"

text \<open>The octets of an address in memory.\<close>

definition ip4_addr_get_byte :: "u32 \<Rightarrow> nat \<Rightarrow> u8" where
  "ip4_addr_get_byte a idx = ucast (drop_bit (8 * idx) a)"

end
