(* ===== verification/Etharp.thy ===== *)
theory Etharp
  imports Net_State
begin

text \<open>
  Ethernet framing (\<^verbatim>\<open>netif/ethernet.c\<close>) and address resolution (\<^verbatim>\<open>core/ipv4/etharp.c\<close>). What
  an interface sends with, the IP layer and address conflict detection are parameters.
\<close>

section \<open>Ethernet\<close>

definition ETH_HWADDR_LEN :: nat where "ETH_HWADDR_LEN = 6"

definition SIZEOF_ETH_HDR :: nat where "SIZEOF_ETH_HDR = 14"

definition ETHTYPE_IP :: u16 where "ETHTYPE_IP = 0x0800"

definition ETHTYPE_ARP :: u16 where "ETHTYPE_ARP = 0x0806"

definition LL_IP4_MULTICAST_ADDR :: "u8 list" where "LL_IP4_MULTICAST_ADDR = [0x01, 0x00, 0x5e]"

definition PBUF_FLAG_LLBCAST :: u8 where "PBUF_FLAG_LLBCAST = 0x08"

definition PBUF_FLAG_LLMCAST :: u8 where "PBUF_FLAG_LLMCAST = 0x10"

definition ethbroadcast :: "u8 list" where "ethbroadcast = [0xff, 0xff, 0xff, 0xff, 0xff, 0xff]"

definition ethzero :: "u8 list" where "ethzero = [0, 0, 0, 0, 0, 0]"

section \<open>The ARP table\<close>

datatype etharp_state = ETHARP_STATE_EMPTY | ETHARP_STATE_PENDING | ETHARP_STATE_STABLE |
  ETHARP_STATE_STABLE_REREQUESTING_1 | ETHARP_STATE_STABLE_REREQUESTING_2

text \<open>The states are compared as the numbers of the enumeration.\<close>

fun etharp_code :: "etharp_state \<Rightarrow> nat" where
  "etharp_code ETHARP_STATE_EMPTY = 0"
| "etharp_code ETHARP_STATE_PENDING = 1"
| "etharp_code ETHARP_STATE_STABLE = 2"
| "etharp_code ETHARP_STATE_STABLE_REREQUESTING_1 = 3"
| "etharp_code ETHARP_STATE_STABLE_REREQUESTING_2 = 4"

instantiation etharp_state :: linorder
begin

definition less_eq_etharp_state :: "etharp_state \<Rightarrow> etharp_state \<Rightarrow> bool" where
  "less_eq_etharp_state a b \<longleftrightarrow> etharp_code a \<le> etharp_code b"

definition less_etharp_state :: "etharp_state \<Rightarrow> etharp_state \<Rightarrow> bool" where
  "less_etharp_state a b \<longleftrightarrow> etharp_code a < etharp_code b"

instance
proof
  fix x y :: etharp_state
  show "x \<le> y \<Longrightarrow> y \<le> x \<Longrightarrow> x = y" by (cases x; cases y) (simp_all add: less_eq_etharp_state_def)
qed (auto simp: less_eq_etharp_state_def less_etharp_state_def)

end

record etharp_entry =
  e_q :: "ptr option"
  e_ipaddr :: u32
  e_netif :: "nif option"
  e_ethaddr :: "u8 list"
  e_ctime :: u16
  e_state :: etharp_state

record arp = net +
  arp_table :: "etharp_entry list"
  etharp_cached_entry :: u8

definition ARP_TABLE_SIZE :: nat where "ARP_TABLE_SIZE = 10"

definition ARP_MAXAGE :: u16 where "ARP_MAXAGE = 300"

definition ARP_AGE_REREQUEST_USED_UNICAST :: u16 where "ARP_AGE_REREQUEST_USED_UNICAST = ARP_MAXAGE - 30"

definition ARP_AGE_REREQUEST_USED_BROADCAST :: u16 where "ARP_AGE_REREQUEST_USED_BROADCAST = ARP_MAXAGE - 15"

definition ARP_MAXPENDING :: u16 where "ARP_MAXPENDING = 5"

definition ETHARP_FLAG_TRY_HARD :: u8 where "ETHARP_FLAG_TRY_HARD = 1"

definition ETHARP_FLAG_FIND_ONLY :: u8 where "ETHARP_FLAG_FIND_ONLY = 2"

definition SIZEOF_ETHARP_HDR :: nat where "SIZEOF_ETHARP_HDR = 28"

definition ARP_REQUEST :: u16 where "ARP_REQUEST = 1"

definition ARP_REPLY :: u16 where "ARP_REPLY = 2"

definition LWIP_IANA_HWTYPE_ETHERNET :: u16 where "LWIP_IANA_HWTYPE_ETHERNET = 1"

text \<open>The functions these layers call through pointers, and the layers around them.\<close>

record 's link =
  lk_free :: "ptr \<Rightarrow> 's \<Rightarrow> 's option"
  lk_linkoutput :: "fnptr \<Rightarrow> nif \<Rightarrow> ptr \<Rightarrow> 's \<Rightarrow> (err_t \<times> 's) option"
  lk_ip4_input :: "ptr \<Rightarrow> nif \<Rightarrow> 's \<Rightarrow> (err_t \<times> 's) option"
  lk_acd_arp_reply :: "nif \<Rightarrow> ptr \<Rightarrow> 's \<Rightarrow> 's option"

text \<open>
  A hardware address passed by pointer is the function that reads it: the code reads it when it
  uses it, from a constant, an interface, the ARP table or a packet.
\<close>

type_synonym 's hwref = "'s \<Rightarrow> u8 list"

definition netif_hwaddr :: "nif \<Rightarrow> 'a net_scheme hwref" where
  "netif_hwaddr netif s = take ETH_HWADDR_LEN (nf_hwaddr (netifs s netif))"

definition hwaddr_at :: "ptr \<Rightarrow> 'a env_scheme hwref" where
  "hwaddr_at p s = mem_read (octet s) p ETH_HWADDR_LEN"

definition arp_ethaddr :: "nat \<Rightarrow> 'a arp_scheme hwref" where
  "arp_ethaddr i s = e_ethaddr (arp_table s ! i)"

definition upd_entry :: "nat \<Rightarrow> (etharp_entry \<Rightarrow> etharp_entry) \<Rightarrow> 'a arp_scheme \<Rightarrow> 'a arp_scheme" where
  "upd_entry i f s = s\<lparr>arp_table := (arp_table s)[i := f (arp_table s ! i)]\<rparr>"

definition ETHARP_SET_ADDRHINT :: "nat \<Rightarrow> 'a arp_scheme \<Rightarrow> 'a arp_scheme" where
  "ETHARP_SET_ADDRHINT addrhint s = s\<lparr>etharp_cached_entry := of_nat addrhint\<rparr>"

section \<open>Sending\<close>

definition ethernet_output ::
  "'a arp_scheme link \<Rightarrow> nif \<Rightarrow> ptr \<Rightarrow> 'a arp_scheme hwref \<Rightarrow> 'a arp_scheme hwref \<Rightarrow> u16 \<Rightarrow>
   'a arp_scheme \<Rightarrow> (err_t \<times> 'a arp_scheme) option" where
  "ethernet_output H netif p src dst eth_type s = do {
     let eth_type_be = lwip_htons eth_type;
     (e, s) \<leftarrow> pbuf_add_header (Some p) SIZEOF_ETH_HDR s;
     if e \<noteq> 0 then Some (ERR_BUF, LINK_STATS_INC st_lenerr_update s)
     else do {
       b \<leftarrow> pb s p;
       ethhdr \<leftarrow> p_payload b;
       let s = s\<lparr>octet := put16 (ptr_add ethhdr 12) eth_type_be (octet s)\<rparr>;
       let s = s\<lparr>octet := mem_write (octet s) ethhdr (dst s)\<rparr>;
       let s = s\<lparr>octet := mem_write (octet s) (ptr_add ethhdr 6) (src s)\<rparr>;
       let s = LWIP_ASSERT ''netif->hwaddr_len must be 6 for ethernet_output!''
                 (unat (nf_hwaddr_len (netifs s netif)) = ETH_HWADDR_LEN) s;
       f \<leftarrow> nf_linkoutput (netifs s netif);
       lk_linkoutput H f netif p s
     }
   }"

definition etharp_raw ::
  "'a arp_scheme link \<Rightarrow> nif \<Rightarrow> 'a arp_scheme hwref \<Rightarrow> 'a arp_scheme hwref \<Rightarrow> 'a arp_scheme hwref \<Rightarrow> u32 \<Rightarrow>
   'a arp_scheme hwref \<Rightarrow> u32 \<Rightarrow> u16 \<Rightarrow> 'a arp_scheme \<Rightarrow> (err_t \<times> 'a arp_scheme) option" where
  "etharp_raw H netif ethsrc_addr ethdst_addr hwsrc_addr ipsrc_addr hwdst_addr ipdst_addr opcode s = do {
     (p, s) \<leftarrow> pbuf_alloc (lk_free H) PBUF_LINK (of_nat SIZEOF_ETHARP_HDR) PBUF_RAM s;
     case p of None \<Rightarrow> Some (ERR_MEM, ETHARP_STATS_INC st_memerr_update s)
     | Some p \<Rightarrow> do {
         b \<leftarrow> pb s p;
         let s = LWIP_ASSERT ''check that first pbuf can hold struct etharp_hdr'' (of_nat SIZEOF_ETHARP_HDR \<le> p_len b) s;
         hdr \<leftarrow> p_payload b;
         let s = s\<lparr>octet := put16 (ptr_add hdr 6) (lwip_htons opcode) (octet s)\<rparr>;
         let s = LWIP_ASSERT ''netif->hwaddr_len must be the same as ETH_HWADDR_LEN for etharp!''
                   (unat (nf_hwaddr_len (netifs s netif)) = ETH_HWADDR_LEN) s;
         let s = s\<lparr>octet := mem_write (octet s) (ptr_add hdr 8) (hwsrc_addr s)\<rparr>;
         let s = s\<lparr>octet := mem_write (octet s) (ptr_add hdr 18) (hwdst_addr s)\<rparr>;
         let s = s\<lparr>octet := put32 (ptr_add hdr 14) ipsrc_addr (octet s)\<rparr>;
         let s = s\<lparr>octet := put32 (ptr_add hdr 24) ipdst_addr (octet s)\<rparr>;
         let s = s\<lparr>octet := put16 hdr (lwip_htons LWIP_IANA_HWTYPE_ETHERNET) (octet s)\<rparr>;
         let s = s\<lparr>octet := put16 (ptr_add hdr 2) (lwip_htons ETHTYPE_IP) (octet s)\<rparr>;
         let s = s\<lparr>octet := mem_write (octet s) (ptr_add hdr 4) [of_nat ETH_HWADDR_LEN]\<rparr>;
         let s = s\<lparr>octet := mem_write (octet s) (ptr_add hdr 5) [4]\<rparr>;
         (_, s) \<leftarrow> (if ip4_addr_islinklocal ipsrc_addr
           then ethernet_output H netif p ethsrc_addr (\<lambda>_. ethbroadcast) ETHTYPE_ARP s
           else ethernet_output H netif p ethsrc_addr ethdst_addr ETHTYPE_ARP s);
         let s = ETHARP_STATS_INC st_xmit_update s;
         (_, s) \<leftarrow> pbuf_free (lk_free H) (Some p) s;
         Some (ERR_OK, s)
       }
   }"

definition etharp_request_dst ::
  "'a arp_scheme link \<Rightarrow> nif \<Rightarrow> u32 \<Rightarrow> 'a arp_scheme hwref \<Rightarrow> 'a arp_scheme \<Rightarrow> (err_t \<times> 'a arp_scheme) option" where
  "etharp_request_dst H netif ipaddr hw_dst_addr s =
     etharp_raw H netif (netif_hwaddr netif) hw_dst_addr (netif_hwaddr netif) (nf_ip_addr (netifs s netif)) (\<lambda>_. ethzero)
       ipaddr ARP_REQUEST s"

definition etharp_request ::
  "'a arp_scheme link \<Rightarrow> nif \<Rightarrow> u32 \<Rightarrow> 'a arp_scheme \<Rightarrow> (err_t \<times> 'a arp_scheme) option" where
  "etharp_request H netif ipaddr s = etharp_request_dst H netif ipaddr (\<lambda>_. ethbroadcast) s"

definition etharp_acd_probe ::
  "'a arp_scheme link \<Rightarrow> nif \<Rightarrow> u32 \<Rightarrow> 'a arp_scheme \<Rightarrow> (err_t \<times> 'a arp_scheme) option" where
  "etharp_acd_probe H netif ipaddr s =
     etharp_raw H netif (netif_hwaddr netif) (\<lambda>_. ethbroadcast) (netif_hwaddr netif) IPADDR_ANY (\<lambda>_. ethzero)
       ipaddr ARP_REQUEST s"

definition etharp_acd_announce ::
  "'a arp_scheme link \<Rightarrow> nif \<Rightarrow> u32 \<Rightarrow> 'a arp_scheme \<Rightarrow> (err_t \<times> 'a arp_scheme) option" where
  "etharp_acd_announce H netif ipaddr s =
     etharp_raw H netif (netif_hwaddr netif) (\<lambda>_. ethbroadcast) (netif_hwaddr netif) ipaddr (\<lambda>_. ethzero)
       ipaddr ARP_REQUEST s"

section \<open>Table entries\<close>

definition etharp_free_entry :: "'a arp_scheme link \<Rightarrow> nat \<Rightarrow> 'a arp_scheme \<Rightarrow> 'a arp_scheme option" where
  "etharp_free_entry H i s = do {
     s \<leftarrow> (case e_q (arp_table s ! i) of None \<Rightarrow> Some s
       | Some q \<Rightarrow> do {
           (_, s) \<leftarrow> pbuf_free (lk_free H) (Some q) s;
           Some (upd_entry i (e_q_update (\<lambda>_. None)) s)
         });
     Some (upd_entry i (e_state_update (\<lambda>_. ETHARP_STATE_EMPTY)) s)
   }"

text \<open>The loop of \<^verbatim>\<open>etharp_tmr\<close> over the indices of the table.\<close>

fun etharp_tmr_loop :: "'a arp_scheme link \<Rightarrow> nat list \<Rightarrow> 'a arp_scheme \<Rightarrow> 'a arp_scheme option" where
  "etharp_tmr_loop H [] s = Some s"
| "etharp_tmr_loop H (i # is) s = do {
     s \<leftarrow> (if e_state (arp_table s ! i) \<noteq> ETHARP_STATE_EMPTY then
         (let s = upd_entry i (e_ctime_update (\<lambda>t. t + 1)) s; e = arp_table s ! i in
          if ARP_MAXAGE \<le> e_ctime e \<or> (e_state e = ETHARP_STATE_PENDING \<and> ARP_MAXPENDING \<le> e_ctime e)
          then etharp_free_entry H i s
          else if e_state e = ETHARP_STATE_STABLE_REREQUESTING_1
          then Some (upd_entry i (e_state_update (\<lambda>_. ETHARP_STATE_STABLE_REREQUESTING_2)) s)
          else if e_state e = ETHARP_STATE_STABLE_REREQUESTING_2
          then Some (upd_entry i (e_state_update (\<lambda>_. ETHARP_STATE_STABLE)) s)
          else if e_state e = ETHARP_STATE_PENDING
          then do { n \<leftarrow> e_netif e; (_, s) \<leftarrow> etharp_request H n (e_ipaddr e) s; Some s }
          else Some s)
       else Some s);
     etharp_tmr_loop H is s
   }"

definition etharp_tmr :: "'a arp_scheme link \<Rightarrow> 'a arp_scheme \<Rightarrow> 'a arp_scheme option" where
  "etharp_tmr H s = etharp_tmr_loop H [0..<ARP_TABLE_SIZE] s"

text \<open>
  The candidates the sweep of \<^verbatim>\<open>etharp_find_entry\<close> remembers; \<open>ARP_TABLE_SIZE\<close> stands for none.
\<close>

record cands =
  k_pending :: nat
  k_stable :: nat
  k_empty :: nat
  k_queue :: nat
  k_age_queue :: u16
  k_age_pending :: u16
  k_age_stable :: u16

text \<open>One sweep: the index of a matching entry, or the candidates.\<close>

fun find_entry_loop :: "u32 option \<Rightarrow> nif option \<Rightarrow> nat list \<Rightarrow> cands \<Rightarrow> 'a arp_scheme \<Rightarrow> (nat + cands) \<times> 'a arp_scheme" where
  "find_entry_loop ipaddr netif [] k s = (Inr k, s)"
| "find_entry_loop ipaddr netif (i # is) k s =
     (let e = arp_table s ! i; state = e_state e in
      if k_empty k = ARP_TABLE_SIZE \<and> state = ETHARP_STATE_EMPTY
      then find_entry_loop ipaddr netif is (k\<lparr>k_empty := i\<rparr>) s
      else if state \<noteq> ETHARP_STATE_EMPTY then
        (let s = LWIP_ASSERT ''state == ETHARP_STATE_PENDING || state >= ETHARP_STATE_STABLE''
                   (state = ETHARP_STATE_PENDING \<or> ETHARP_STATE_STABLE \<le> state) s in
         if ipaddr = Some (e_ipaddr e) \<and> (netif = None \<or> netif = e_netif e) then (Inl i, s)
         else if state = ETHARP_STATE_PENDING then
           if e_q e \<noteq> None then
             if k_age_queue k \<le> e_ctime e then find_entry_loop ipaddr netif is (k\<lparr>k_queue := i, k_age_queue := e_ctime e\<rparr>) s
             else find_entry_loop ipaddr netif is k s
           else
             if k_age_pending k \<le> e_ctime e then find_entry_loop ipaddr netif is (k\<lparr>k_pending := i, k_age_pending := e_ctime e\<rparr>) s
             else find_entry_loop ipaddr netif is k s
         else if ETHARP_STATE_STABLE \<le> state then
           if k_age_stable k \<le> e_ctime e then find_entry_loop ipaddr netif is (k\<lparr>k_stable := i, k_age_stable := e_ctime e\<rparr>) s
           else find_entry_loop ipaddr netif is k s
         else find_entry_loop ipaddr netif is k s)
      else find_entry_loop ipaddr netif is k s)"

text \<open>A new entry at \<open>i\<close>: what the code does once a place is found.\<close>

definition find_entry_new :: "u32 option \<Rightarrow> nif option \<Rightarrow> nat \<Rightarrow> 'a arp_scheme \<Rightarrow> (err_t + nat) \<times> 'a arp_scheme" where
  "find_entry_new ipaddr netif i s =
     (let s = LWIP_ASSERT ''i < ARP_TABLE_SIZE'' (i < ARP_TABLE_SIZE) s;
          s = LWIP_ASSERT ''arp_table[i].state == ETHARP_STATE_EMPTY'' (e_state (arp_table s ! i) = ETHARP_STATE_EMPTY) s;
          s = (case ipaddr of None \<Rightarrow> s | Some a \<Rightarrow> upd_entry i (e_ipaddr_update (\<lambda>_. a)) s);
          s = upd_entry i (e_ctime_update (\<lambda>_. 0)) s;
          s = upd_entry i (e_netif_update (\<lambda>_. netif)) s
      in (Inr i, s))"

definition etharp_find_entry ::
  "'a arp_scheme link \<Rightarrow> u32 option \<Rightarrow> u8 \<Rightarrow> nif option \<Rightarrow> 'a arp_scheme \<Rightarrow> ((err_t + nat) \<times> 'a arp_scheme) option" where
  "etharp_find_entry H ipaddr flags netif s =
     (case find_entry_loop ipaddr netif [0..<ARP_TABLE_SIZE]
         \<lparr>k_pending = ARP_TABLE_SIZE, k_stable = ARP_TABLE_SIZE, k_empty = ARP_TABLE_SIZE, k_queue = ARP_TABLE_SIZE,
          k_age_queue = 0, k_age_pending = 0, k_age_stable = 0\<rparr> s of
       (Inl i, s) \<Rightarrow> Some (Inr i, s)
     | (Inr k, s) \<Rightarrow>
         if flags AND ETHARP_FLAG_FIND_ONLY \<noteq> 0 \<or> (k_empty k = ARP_TABLE_SIZE \<and> flags AND ETHARP_FLAG_TRY_HARD = 0)
         then Some (Inl ERR_MEM, s)
         else if k_empty k < ARP_TABLE_SIZE then Some (find_entry_new ipaddr netif (k_empty k) s)
         else do {
           let (i, s) = (if k_stable k < ARP_TABLE_SIZE
               then (Some (k_stable k), LWIP_ASSERT ''arp_table[i].q == NULL'' (e_q (arp_table s ! k_stable k) = None) s)
             else if k_pending k < ARP_TABLE_SIZE then (Some (k_pending k), s)
             else if k_queue k < ARP_TABLE_SIZE then (Some (k_queue k), s)
             else (None, s));
           case i of None \<Rightarrow> Some (Inl ERR_MEM, s)
           | Some i \<Rightarrow> do {
               let s = LWIP_ASSERT ''i < ARP_TABLE_SIZE'' (i < ARP_TABLE_SIZE) s;
               s \<leftarrow> etharp_free_entry H i s;
               Some (find_entry_new ipaddr netif i s)
             }
         })"

definition etharp_update_arp_entry ::
  "'a arp_scheme link \<Rightarrow> nif \<Rightarrow> u32 \<Rightarrow> 'a arp_scheme hwref \<Rightarrow> u8 \<Rightarrow> 'a arp_scheme \<Rightarrow> (err_t \<times> 'a arp_scheme) option" where
  "etharp_update_arp_entry H netif ipaddr ethaddr flags s = do {
     let s = LWIP_ASSERT ''netif->hwaddr_len == ETH_HWADDR_LEN'' (unat (nf_hwaddr_len (netifs s netif)) = ETH_HWADDR_LEN) s;
     if ipaddr = IPADDR_ANY \<or> ip4_addr_isbroadcast_u32 ipaddr (netifs s netif) \<or> ip4_addr_ismulticast ipaddr
     then Some (ERR_ARG, s)
     else do {
       (i, s) \<leftarrow> etharp_find_entry H (Some ipaddr) flags (Some netif) s;
       case i of Inl e \<Rightarrow> Some (e, s)
       | Inr i \<Rightarrow> do {
           let s = upd_entry i (e_state_update (\<lambda>_. ETHARP_STATE_STABLE)) s;
           let s = upd_entry i (e_netif_update (\<lambda>_. Some netif)) s;
           let s = upd_entry i (e_ethaddr_update (\<lambda>_. ethaddr s)) s;
           let s = upd_entry i (e_ctime_update (\<lambda>_. 0)) s;
           case e_q (arp_table s ! i) of None \<Rightarrow> Some (ERR_OK, s)
           | Some p \<Rightarrow> do {
               let s = upd_entry i (e_q_update (\<lambda>_. None)) s;
               (_, s) \<leftarrow> ethernet_output H netif p (netif_hwaddr netif) ethaddr ETHTYPE_IP s;
               (_, s) \<leftarrow> pbuf_free (lk_free H) (Some p) s;
               Some (ERR_OK, s)
             }
         }
     }
   }"

fun cleanup_loop :: "'a arp_scheme link \<Rightarrow> nif \<Rightarrow> nat list \<Rightarrow> 'a arp_scheme \<Rightarrow> 'a arp_scheme option" where
  "cleanup_loop H netif [] s = Some s"
| "cleanup_loop H netif (i # is) s = do {
     s \<leftarrow> (if e_state (arp_table s ! i) \<noteq> ETHARP_STATE_EMPTY \<and> e_netif (arp_table s ! i) = Some netif
       then etharp_free_entry H i s else Some s);
     cleanup_loop H netif is s
   }"

definition etharp_cleanup_netif :: "'a arp_scheme link \<Rightarrow> nif \<Rightarrow> 'a arp_scheme \<Rightarrow> 'a arp_scheme option" where
  "etharp_cleanup_netif H netif s = cleanup_loop H netif [0..<ARP_TABLE_SIZE] s"

text \<open>
  The result is the index with the addresses the two result pointers then point to, or none where
  the code returns -1.
\<close>

definition etharp_find_addr ::
  "'a arp_scheme link \<Rightarrow> nif \<Rightarrow> u32 \<Rightarrow> 'a arp_scheme \<Rightarrow> ((nat \<times> u8 list \<times> u32) option \<times> 'a arp_scheme) option" where
  "etharp_find_addr H netif ipaddr s = do {
     (i, s) \<leftarrow> etharp_find_entry H (Some ipaddr) ETHARP_FLAG_FIND_ONLY (Some netif) s;
     case i of Inl _ \<Rightarrow> Some (None, s)
     | Inr i \<Rightarrow> (let e = arp_table s ! i in
         Some (if ETHARP_STATE_STABLE \<le> e_state e then Some (i, e_ethaddr e, e_ipaddr e) else None, s))
   }"

definition etharp_get_entry :: "nat \<Rightarrow> 'a arp_scheme \<Rightarrow> (u32 \<times> nif option \<times> u8 list) option" where
  "etharp_get_entry i s =
     (if i < ARP_TABLE_SIZE \<and> ETHARP_STATE_STABLE \<le> e_state (arp_table s ! i)
      then (let e = arp_table s ! i in Some (e_ipaddr e, e_netif e, e_ethaddr e)) else None)"

section \<open>Receiving\<close>

definition etharp_input :: "'a arp_scheme link \<Rightarrow> ptr \<Rightarrow> nif option \<Rightarrow> 'a arp_scheme \<Rightarrow> 'a arp_scheme option" where
  "etharp_input H p netif s =
     (case netif of None \<Rightarrow> Some (LWIP_ERROR ''netif != NULL'' s)
      | Some netif \<Rightarrow> do {
       b \<leftarrow> pb s p;
       hdr \<leftarrow> p_payload b;
       let m = octet s;
       if get16 m hdr \<noteq> lwip_htons LWIP_IANA_HWTYPE_ETHERNET \<or> m (ptr_add hdr 4) \<noteq> of_nat ETH_HWADDR_LEN \<or>
         m (ptr_add hdr 5) \<noteq> 4 \<or> get16 m (ptr_add hdr 2) \<noteq> lwip_htons ETHTYPE_IP
       then do {
         let s = ETHARP_STATS_INC st_proterr_update s;
         let s = ETHARP_STATS_INC st_drop_update s;
         (_, s) \<leftarrow> pbuf_free (lk_free H) (Some p) s;
         Some s
       } else do {
         let s = ETHARP_STATS_INC st_recv_update s;
         s \<leftarrow> lk_acd_arp_reply H netif hdr s;
         let sipaddr = get32 (octet s) (ptr_add hdr 14);
         let dipaddr = get32 (octet s) (ptr_add hdr 24);
         let our = nf_ip_addr (netifs s netif);
         let for_us = (if our = IPADDR_ANY then False else dipaddr = our);
         let from_us = (if our = IPADDR_ANY then False else sipaddr = our);
         (_, s) \<leftarrow> etharp_update_arp_entry H netif sipaddr (hwaddr_at (ptr_add hdr 8))
           (if for_us then ETHARP_FLAG_TRY_HARD else ETHARP_FLAG_FIND_ONLY) s;
         s \<leftarrow> (let opcode = get16 (octet s) (ptr_add hdr 6) in
           if opcode = lwip_htons ARP_REQUEST then
             if for_us \<and> \<not> from_us then do {
               (_, s) \<leftarrow> etharp_raw H netif (netif_hwaddr netif) (hwaddr_at (ptr_add hdr 8)) (netif_hwaddr netif)
                 (nf_ip_addr (netifs s netif)) (hwaddr_at (ptr_add hdr 8)) sipaddr ARP_REPLY s;
               Some s
             } else Some s
           else if opcode = lwip_htons ARP_REPLY then Some s
           else Some (ETHARP_STATS_INC st_err_update s));
         (_, s) \<leftarrow> pbuf_free (lk_free H) (Some p) s;
         Some s
       }
     })"

definition ethernet_input :: "'a arp_scheme link \<Rightarrow> ptr \<Rightarrow> nif \<Rightarrow> 'a arp_scheme \<Rightarrow> (err_t \<times> 'a arp_scheme) option" where
  "ethernet_input H p netif s = do {
     b \<leftarrow> pb s p;
     let free_and_return = (\<lambda>s. do { (_, s) \<leftarrow> pbuf_free (lk_free H) (Some p) s; Some (ERR_OK, s) });
     if p_len b \<le> of_nat SIZEOF_ETH_HDR
     then free_and_return (ETHARP_STATS_INC st_drop_update (ETHARP_STATS_INC st_proterr_update s))
     else do {
       ethhdr \<leftarrow> p_payload b;
       let type = get16 (octet s) (ptr_add ethhdr 12);
       let s = (if p_if_idx b = NETIF_NO_INDEX
                then upd_pbuf p (p_if_idx_update (\<lambda>_. netif_get_index (netifs s netif))) s else s);
       let dest = mem_read (octet s) ethhdr ETH_HWADDR_LEN;
       let s = (if dest ! 0 AND 1 \<noteq> 0 then
           if dest ! 0 = LL_IP4_MULTICAST_ADDR ! 0 then
             if dest ! 1 = LL_IP4_MULTICAST_ADDR ! 1 \<and> dest ! 2 = LL_IP4_MULTICAST_ADDR ! 2
             then upd_pbuf p (p_flags_update (\<lambda>f. f OR PBUF_FLAG_LLMCAST)) s else s
           else if dest = ethbroadcast then upd_pbuf p (p_flags_update (\<lambda>f. f OR PBUF_FLAG_LLBCAST)) s
           else s
         else s);
       if type = lwip_htons ETHTYPE_IP then
         if nf_flags (netifs s netif) AND NETIF_FLAG_ETHARP = 0 then free_and_return s
         else do {
           (e, s) \<leftarrow> pbuf_remove_header (Some p) SIZEOF_ETH_HDR s;
           if e \<noteq> 0 then free_and_return s
           else do { (_, s) \<leftarrow> lk_ip4_input H p netif s; Some (ERR_OK, s) }
         }
       else if type = lwip_htons ETHTYPE_ARP then
         if nf_flags (netifs s netif) AND NETIF_FLAG_ETHARP = 0 then free_and_return s
         else do {
           (e, s) \<leftarrow> pbuf_remove_header (Some p) SIZEOF_ETH_HDR s;
           if e \<noteq> 0 then free_and_return (ETHARP_STATS_INC st_drop_update (ETHARP_STATS_INC st_lenerr_update s))
           else do { s \<leftarrow> etharp_input H p (Some netif) s; Some (ERR_OK, s) }
         }
       else free_and_return (ETHARP_STATS_INC st_drop_update (ETHARP_STATS_INC st_proterr_update s))
     }
   }"

section \<open>Resolving\<close>

definition etharp_output_to_arp_index ::
  "'a arp_scheme link \<Rightarrow> nif \<Rightarrow> ptr \<Rightarrow> nat \<Rightarrow> 'a arp_scheme \<Rightarrow> (err_t \<times> 'a arp_scheme) option" where
  "etharp_output_to_arp_index H netif q arp_idx s = do {
     let s = LWIP_ASSERT ''arp_table[arp_idx].state >= ETHARP_STATE_STABLE''
               (ETHARP_STATE_STABLE \<le> e_state (arp_table s ! arp_idx)) s;
     let e = arp_table s ! arp_idx;
     s \<leftarrow> (if e_state e = ETHARP_STATE_STABLE then
         if ARP_AGE_REREQUEST_USED_BROADCAST \<le> e_ctime e then do {
           (r, s) \<leftarrow> etharp_request H netif (e_ipaddr e) s;
           Some (if r = ERR_OK then upd_entry arp_idx (e_state_update (\<lambda>_. ETHARP_STATE_STABLE_REREQUESTING_1)) s else s)
         } else if ARP_AGE_REREQUEST_USED_UNICAST \<le> e_ctime e then do {
           (r, s) \<leftarrow> etharp_request_dst H netif (e_ipaddr e) (arp_ethaddr arp_idx) s;
           Some (if r = ERR_OK then upd_entry arp_idx (e_state_update (\<lambda>_. ETHARP_STATE_STABLE_REREQUESTING_1)) s else s)
         } else Some s
       else Some s);
     ethernet_output H netif q (netif_hwaddr netif) (arp_ethaddr arp_idx) ETHTYPE_IP s
   }"

definition PBUF_NEEDS_COPY :: "pbuf \<Rightarrow> bool" where
  "PBUF_NEEDS_COPY b \<longleftrightarrow> p_type b AND PBUF_TYPE_FLAG_DATA_VOLATILE \<noteq> 0"

text \<open>The loop of \<^verbatim>\<open>etharp_query\<close> that looks for a pbuf that must be copied.\<close>

partial_function (option) query_copy_loop :: "ptr option \<Rightarrow> 'a stack_scheme \<Rightarrow> (bool \<times> 'a stack_scheme) option" where
  "query_copy_loop p s = (case p of None \<Rightarrow> Some (False, s) | Some a \<Rightarrow> do {
     b \<leftarrow> pb s a;
     let s = LWIP_ASSERT ''no packet queues allowed!'' (p_len b \<noteq> p_tot_len b \<or> p_next b = None) s;
     if PBUF_NEEDS_COPY b then Some (True, s) else query_copy_loop (p_next b) s
   })"

text \<open>Keep a packet on a pending entry, in place of the one kept before.\<close>

definition query_enqueue :: "'a arp_scheme link \<Rightarrow> nat \<Rightarrow> ptr \<Rightarrow> 'a arp_scheme \<Rightarrow> (err_t \<times> 'a arp_scheme) option" where
  "query_enqueue H i q s = do {
     (copy_needed, s) \<leftarrow> query_copy_loop (Some q) s;
     (p, s) \<leftarrow> (if copy_needed then pbuf_clone (lk_free H) PBUF_LINK PBUF_RAM (Some q) s
                else do { s \<leftarrow> pbuf_ref (Some q) s; Some (Some q, s) });
     case p of None \<Rightarrow> Some (ERR_MEM, ETHARP_STATS_INC st_memerr_update s)
     | Some p \<Rightarrow> do {
         s \<leftarrow> (case e_q (arp_table s ! i) of None \<Rightarrow> Some s
               | Some old \<Rightarrow> do { (_, s) \<leftarrow> pbuf_free (lk_free H) (Some old) s; Some s });
         Some (ERR_OK, upd_entry i (e_q_update (\<lambda>_. Some p)) s)
       }
   }"

definition etharp_query ::
  "'a arp_scheme link \<Rightarrow> nif \<Rightarrow> u32 \<Rightarrow> ptr option \<Rightarrow> 'a arp_scheme \<Rightarrow> (err_t \<times> 'a arp_scheme) option" where
  "etharp_query H netif ipaddr q s =
     (if ip4_addr_isbroadcast_u32 ipaddr (netifs s netif) \<or> ip4_addr_ismulticast ipaddr \<or> ipaddr = IPADDR_ANY
      then Some (ERR_ARG, s)
      else do {
        (i_err, s) \<leftarrow> etharp_find_entry H (Some ipaddr) ETHARP_FLAG_TRY_HARD (Some netif) s;
        case i_err of Inl e \<Rightarrow> Some (e, if q \<noteq> None then ETHARP_STATS_INC st_memerr_update s else s)
        | Inr i \<Rightarrow> do {
            let s = LWIP_ASSERT ''type overflow'' (i < 0x7F) s;
            let is_new_entry = (e_state (arp_table s ! i) = ETHARP_STATE_EMPTY);
            let s = (if is_new_entry then upd_entry i (e_netif_update (\<lambda>_. Some netif))
                       (upd_entry i (e_state_update (\<lambda>_. ETHARP_STATE_PENDING)) s) else s);
            let s = LWIP_ASSERT ''arp_table[i].state == PENDING or STABLE''
                      (e_state (arp_table s ! i) = ETHARP_STATE_PENDING \<or> ETHARP_STATE_STABLE \<le> e_state (arp_table s ! i)) s;
            (result, s) \<leftarrow> (if is_new_entry \<or> q = None then do {
                (result, s) \<leftarrow> etharp_request H netif ipaddr s;
                Some (result, if result = ERR_OK \<and> e_state (arp_table s ! i) = ETHARP_STATE_PENDING \<and> \<not> is_new_entry
                  then upd_entry i (e_ctime_update (\<lambda>_. 0)) s else s)
              } else Some (ERR_MEM, s));
            case q of None \<Rightarrow> Some (result, s)
            | Some q \<Rightarrow>
                if ETHARP_STATE_STABLE \<le> e_state (arp_table s ! i) then
                  ethernet_output H netif q (netif_hwaddr netif) (arp_ethaddr i) ETHTYPE_IP (ETHARP_SET_ADDRHINT i s)
                else if e_state (arp_table s ! i) = ETHARP_STATE_PENDING then query_enqueue H i q s
                else Some (result, s)
          }
      })"

text \<open>The loop that looks for a stable entry.\<close>

fun find_stable :: "nif \<Rightarrow> u32 \<Rightarrow> nat list \<Rightarrow> 'a arp_scheme \<Rightarrow> nat option" where
  "find_stable netif dst_addr [] s = None"
| "find_stable netif dst_addr (i # is) s =
     (let e = arp_table s ! i in
      if ETHARP_STATE_STABLE \<le> e_state e \<and> e_netif e = Some netif \<and> dst_addr = e_ipaddr e then Some i
      else find_stable netif dst_addr is s)"

definition etharp_output ::
  "'a arp_scheme link \<Rightarrow> nif \<Rightarrow> ptr \<Rightarrow> u32 \<Rightarrow> 'a arp_scheme \<Rightarrow> (err_t \<times> 'a arp_scheme) option" where
  "etharp_output H netif q ipaddr s =
     (let n = netifs s netif in
      if ip4_addr_isbroadcast_u32 ipaddr n
      then ethernet_output H netif q (netif_hwaddr netif) (\<lambda>_. ethbroadcast) ETHTYPE_IP s
      else if ip4_addr_ismulticast ipaddr then
        (let mcastaddr = LL_IP4_MULTICAST_ADDR @
           [ip4_addr_get_byte ipaddr 1 AND 0x7f, ip4_addr_get_byte ipaddr 2, ip4_addr_get_byte ipaddr 3]
         in ethernet_output H netif q (netif_hwaddr netif) (\<lambda>_. mcastaddr) ETHTYPE_IP s)
      else do {
        dst_addr \<leftarrow> (if \<not> ip4_addr_net_eq ipaddr (nf_ip_addr n) (nf_netmask n) \<and> \<not> ip4_addr_islinklocal ipaddr
          then do {
            b \<leftarrow> pb s q;
            iphdr \<leftarrow> p_payload b;
            if \<not> ip4_addr_islinklocal (get32 (octet s) (ptr_add iphdr 12))
            then if nf_gw n \<noteq> IPADDR_ANY then Some (Some (nf_gw n)) else Some None
            else Some (Some ipaddr)
          } else Some (Some ipaddr));
        case dst_addr of None \<Rightarrow> Some (ERR_RTE, s)
        | Some dst_addr \<Rightarrow>
            (let c = unat (etharp_cached_entry s); e = arp_table s ! c in
             if ARP_TABLE_SIZE \<le> c then None
             else if ETHARP_STATE_STABLE \<le> e_state e \<and> e_netif e = Some netif \<and> dst_addr = e_ipaddr e
             then etharp_output_to_arp_index H netif q c (ETHARP_STATS_INC st_cachehit_update s)
             else (case find_stable netif dst_addr [0..<ARP_TABLE_SIZE] s of
                 Some i \<Rightarrow> etharp_output_to_arp_index H netif q i (ETHARP_SET_ADDRHINT i s)
               | None \<Rightarrow> etharp_query H netif dst_addr (Some q) s))
      })"

end
