(* ===== verification/Etharp_Inv.thy ===== *)
theory Etharp_Inv
  imports Etharp
begin

text \<open>
  What sending a frame does to memory: packets as the layers hand them around, the Ethernet header
  that \<^verbatim>\<open>ethernet_output\<close> of \<^verbatim>\<open>lwip/src/netif/ethernet.c\<close> puts in front of one, and that
  everything else stays as it was.
\<close>


section \<open>Frames\<close>

lemma same_mem_upd:
  "same_mem (LWIP_ASSERT msg P (s :: 'a arp_scheme)) s" "same_mem (upd_entry i f s) s" "same_mem (ETHARP_SET_ADDRHINT i s) s"
  "same_mem (ETHARP_STATS_INC x s) s" "same_mem (LINK_STATS_INC x s) s"
  by (simp_all add: same_mem_def LWIP_ASSERT_def upd_entry_def ETHARP_SET_ADDRHINT_def ETHARP_STATS_INC_def LINK_STATS_INC_def)

lemmas mem_upd [simp] = same_mem_upd [THEN same_mem(1)] same_mem_upd [THEN same_mem(2)] same_mem_upd [THEN same_mem(3)]
  same_mem_upd [THEN same_mem(5)]

lemma arp_fields [simp]:
  fixes s :: "'a arp_scheme"
  shows "octet (upd_entry i f s) = octet s" "diag (upd_entry i f s) = diag s" "netifs (upd_entry i f s) = netifs s"
    "etharp_cached_entry (upd_entry i f s) = etharp_cached_entry s"
    "arp_table (upd_entry i f s) = (arp_table s)[i := f (arp_table s ! i)]"
    "octet (ETHARP_STATS_INC x s) = octet s" "diag (ETHARP_STATS_INC x s) = diag s" "netifs (ETHARP_STATS_INC x s) = netifs s"
    "etharp_cached_entry (ETHARP_STATS_INC x s) = etharp_cached_entry s" "arp_table (ETHARP_STATS_INC x s) = arp_table s"
    "octet (LINK_STATS_INC x s) = octet s" "diag (LINK_STATS_INC x s) = diag s" "netifs (LINK_STATS_INC x s) = netifs s"
    "etharp_cached_entry (LINK_STATS_INC x s) = etharp_cached_entry s" "arp_table (LINK_STATS_INC x s) = arp_table s"
    "octet (ETHARP_SET_ADDRHINT j s) = octet s" "diag (ETHARP_SET_ADDRHINT j s) = diag s" "netifs (ETHARP_SET_ADDRHINT j s) = netifs s"
    "etharp_cached_entry (ETHARP_SET_ADDRHINT j s) = of_nat j" "arp_table (ETHARP_SET_ADDRHINT j s) = arp_table s"
  by (simp_all add: upd_entry_def ETHARP_STATS_INC_def LINK_STATS_INC_def ETHARP_SET_ADDRHINT_def)

lemma more_fields:
  fixes s s' :: "'a arp_scheme"
  assumes "stack.more s' = stack.more s"
  shows "arp_table s' = arp_table s" "etharp_cached_entry s' = etharp_cached_entry s" "netifs s' = netifs s"
  using assms by (cases s; cases s'; simp)+

section \<open>Packets\<close>

text \<open>
  A packet as the layers pass it around: a well-formed chain with data behind every pbuf but the
  last, its data in its own memory or outside heap and pools, and not part of another chain.
\<close>

definition grounded :: "'a stack_scheme \<Rightarrow> ptr \<Rightarrow> bool" where
  "grounded s y \<longleftrightarrow> (\<forall>b. pb s y = Some b \<longrightarrow> contiguous b \<or> (\<forall>q. p_payload b = Some q \<longrightarrow> (\<exists>e. fst q = Ext e)))"

definition packet :: "'a stack_scheme \<Rightarrow> ptr \<Rightarrow> ptr list \<Rightarrow> bool" where
  "packet s p xs \<longleftrightarrow> pkt s (Some p) xs \<and> solid s xs \<and> (\<forall>y \<in> set xs. grounded s y) \<and> preds s p = {}"

lemma grounded_placed:
  assumes "owned s R" "grounded s y" "pb s y = Some b"
  shows "placed s y"
proof (cases "contiguous b")
  case True
  then show ?thesis using contiguous_placed [OF ownedD(1) [OF assms(1)] assms(3)] ownedD(3) [OF assms(1,3)] by blast
next
  case False
  then show ?thesis using assms(2,3) by (auto simp: grounded_def placed_def)
qed

lemma pb_cong:
  assumes "pb s' = pb s"
  shows "pkt s' p xs = pkt s p xs" "solid s' xs = solid s xs" "grounded s' y = grounded s y" "preds s' x = preds s x"
    "packet s' q ys = packet s q ys" "linked s' p xs = linked s p xs"
proof -
  show a: "pkt s' p xs = pkt s p xs" for p xs using assms pkt_cong [of xs s' s] by auto
  show b: "solid s' xs = solid s xs" for xs using assms solid_cong [of xs s' s] by auto
  show c: "grounded s' y = grounded s y" for y using assms by (simp add: grounded_def)
  show d: "preds s' x = preds s x" for x using assms by (simp add: preds_def)
  show "packet s' q ys = packet s q ys" by (simp add: packet_def a b c d)
  show "linked s' p xs = linked s p xs" using assms by (intro linked_cong) simp
qed

lemmas packet_upd [simp] = same_mem_upd [THEN same_mem(5), THEN pb_cong(5)]

lemma packet_octet [simp]: "packet (s\<lparr>octet := m\<rparr>) q ys = packet s q ys"
  by (rule pb_cong(5)) simp

text \<open>Only reference counts differ.\<close>

lemma packet_refs:
  assumes p: "packet s q ys" and c: "\<And>y. y \<in> set ys \<Longrightarrow> \<exists>k. pb s' y = map_option (p_ref_update k) (pb s y)"
    and pr: "preds s' q \<subseteq> preds s q"
  shows "packet s' q ys"
proof -
  have l: "plen s' y = plen s y" if "y \<in> set ys" for y using c [OF that] by (cases "pb s y") (auto simp: plen_def)
  have "pkt s' r zs = pkt s r zs \<and> solid s' zs = solid s zs \<and> pkt_len s' zs = pkt_len s zs" if "set zs \<subseteq> set ys" for r zs
    using that
  proof (induction zs arbitrary: r)
    case (Cons z zs)
    obtain k where k: "pb s' z = map_option (p_ref_update k) (pb s z)" using c [of z] Cons.prems by auto
    then show ?case using Cons.IH [of "p_next b" for b] Cons.prems l [of z] by (cases "pb s z") auto
  qed simp
  moreover have "grounded s' y" if y: "y \<in> set ys" for y
  proof -
    obtain k where "pb s' y = map_option (p_ref_update k) (pb s y)" using c [OF y] by auto
    moreover have "grounded s y" using p y by (simp add: packet_def)
    ultimately show ?thesis by (cases "pb s y") (auto simp: grounded_def contiguous_def)
  qed
  ultimately show ?thesis using p pr by (auto simp: packet_def)
qed

lemma shed_stay: "shed s s' \<Longrightarrow> pb s' y = Some b \<Longrightarrow> \<exists>k. pb s' y = map_option (p_ref_update k) (pb s y)"
  unfolding shed_def by (drule spec [of _ y]) auto

lemma shed_linked: "shed s s' \<Longrightarrow> linked s' p zs \<Longrightarrow> linked s p zs"
proof (induction zs arbitrary: p)
  case (Cons z zs)
  have "p = Some z" "\<exists>b'. pb s' z = Some b' \<and> linked s' (p_next b') zs" using Cons.prems(2) by simp_all
  then obtain b' where b': "p = Some z" "pb s' z = Some b'" "linked s' (p_next b') zs" by blast
  then obtain k where "pb s' z = map_option (p_ref_update k) (pb s z)" using shed_stay [OF Cons.prems(1)] by blast
  then obtain b where "pb s z = Some b" "p_next b = p_next b'" using b'(2) by (cases "pb s z") auto
  then show ?case using b' Cons.IH [OF Cons.prems(1)] by simp
qed simp

lemma shed_packet:
  assumes sh: "shed s s'" and o: "owned s' R" and q: "q \<in> set R" and p: "packet s q ys"
  shows "packet s' q ys"
proof -
  obtain b where "pb s' q = Some b" using owned_root [OF o q] by blast
  then obtain zs where zs: "linked s' (Some q) zs" using ownedD(5) [OF o] by blast
  have "zs = ys" using linked_unique [OF shed_linked [OF sh zs] pkt_linked] p by (auto simp: packet_def)
  show ?thesis
  proof (rule packet_refs [OF p])
    show "\<exists>k. pb s' y = map_option (p_ref_update k) (pb s y)" if y: "y \<in> set ys" for y
    proof -
      obtain c where "pb s' y = Some c" using linked_alloced [OF zs, of y] y \<open>zs = ys\<close> by blast
      then show ?thesis by (rule shed_stay [OF sh])
    qed
    show "preds s' q \<subseteq> preds s q"
    proof
      fix z assume "z \<in> preds s' q"
      then obtain c where c: "pb s' z = Some c" "p_next c = Some q" by (auto simp: preds_def)
      then obtain k where "pb s' z = map_option (p_ref_update k) (pb s z)" using shed_stay [OF sh] by blast
      then show "z \<in> preds s q" using c by (cases "pb s z") (auto simp: preds_def)
    qed
  qed
qed

lemma part_next: "part s r p xs \<Longrightarrow> y \<in> set xs \<Longrightarrow> pb s y = Some b \<Longrightarrow> p_next b = Some z \<Longrightarrow> z \<in> set xs"
proof (induction xs arbitrary: p)
  case (Cons x xs)
  have "\<exists>c. pb s x = Some c \<and> part s r (p_next c) xs" using Cons.prems(1) by auto
  then obtain c where c: "pb s x = Some c" "part s r (p_next c) xs" by blast
  show ?case
  proof (cases "y = x")
    case True
    then show ?thesis using c Cons.prems(3,4) by (cases xs) auto
  qed (use Cons c in auto)
qed simp

lemma fresh_packet:
  assumes f: "fresh s s' xs" and pt: "part s' 0 (Some p) xs" and q: "packet s q ys"
  shows "packet s' q ys"
proof (rule packet_refs [OF q])
  have al: "\<exists>b. pb s y = Some b" if "y \<in> set ys" for y using linked_alloced [OF pkt_linked that] q by (auto simp: packet_def)
  show "\<exists>k. pb s' y = map_option (p_ref_update k) (pb s y)" if "y \<in> set ys" for y
  proof -
    have "y \<notin> set xs" using al [OF that] f by (auto simp: fresh_def)
    then show ?thesis using f by (intro shed_same) (simp add: fresh_def)
  qed
  have "q \<in> set ys" using q by (cases ys) (auto simp: packet_def)
  then have "q \<notin> set xs" using al [of q] f by (auto simp: fresh_def)
  show "preds s' q \<subseteq> preds s q"
  proof
    fix z assume "z \<in> preds s' q"
    then obtain c where c: "pb s' z = Some c" "p_next c = Some q" by (auto simp: preds_def)
    then have "z \<notin> set xs" using part_next [OF pt _ c] \<open>q \<notin> set xs\<close> by blast
    then show "z \<in> preds s q" using c f by (auto simp: preds_def fresh_def)
  qed
qed


section \<open>Frames in front of packets\<close>

text \<open>What a pbuf holds in its block lies apart from the data of every other pbuf.\<close>

lemma block_apart:
  assumes o: "owned s Q" and x: "mlive s x = Some k" "within x k r n" and ne: "y \<noteq> x" and g: "grounded s y"
    and y: "pb s y = Some c" "p_payload c = Some t"
  shows "apart t (unat (p_len c)) r n"
proof (cases "contiguous c")
  case True
  then obtain l where "mlive s y = Some l" "within y l t (unat (p_len c))"
    using contiguous_at [OF ownedD(1) [OF o] y(1) ownedD(3) [OF o y(1)] _ y(2)] by blast
  from within_apart [OF mlive_apart [OF ownedD(1) [OF o] this(1) x(1) ne] this(2) x(2)] show ?thesis .
next
  case False
  then obtain e where "fst t = Ext e" using g y by (auto simp: grounded_def)
  from fst_Ext_apart [OF this x] show ?thesis .
qed

text \<open>The pbuf with its payload moved \<open>n\<close> octets to the front.\<close>

abbreviation grow_front :: "nat \<Rightarrow> pbuf \<Rightarrow> pbuf" where
  "grow_front n b \<equiv> b\<lparr>p_payload := map_option (\<lambda>q. ptr_add q (- int n)) (p_payload b), p_len := p_len b + of_nat n,
     p_tot_len := p_tot_len b + of_nat n\<rparr>"

definition room :: "'a stack_scheme \<Rightarrow> ptr \<Rightarrow> nat \<Rightarrow> bool" where
  "room s p n \<longleftrightarrow> (\<exists>b q. pb s p = Some b \<and> contiguous b \<and> p_payload b = Some q \<and> unat (p_tot_len b) + n < 65536 \<and>
     snd p + int SIZEOF_STRUCT_PBUF \<le> snd q - int n)"

lemma add_header_eq:
  assumes o: "owned s Q" and b: "pb s p = Some b" and n: "0 < n" "n < 65536"
  shows "pbuf_add_header (Some p) n s = Some (if room s p n then (0, upd_pbuf p (grow_front n) s) else (1, s))"
proof (cases "contiguous b")
  case True
  then obtain q k where q: "p_payload b = Some q" "within p k q (unat (p_len b))"
    using mem_okD(4) [OF ownedD(1) [OF o] b] ownedD(3) [OF o b] by (auto simp: home_def inside_def within_def)
  have ov: "of_nat n + p_tot_len b < (of_nat n :: u16) \<longleftrightarrow> \<not> unat (p_tot_len b) + n < 65536"
    using n unat16_add [of "of_nat n" "p_tot_len b"] unat_u16_less [of "p_tot_len b"]
    by (auto simp: word_less_nat_alt simp del: unat_u16_less)
  have u: "upd_pbuf p (grow_front n) s = upd_pbuf p (\<lambda>b'. b'\<lparr>p_payload := map_option (\<lambda>q. ptr_add q (- int n)) (p_payload b),
      p_len := p_len b' + of_nat n, p_tot_len := p_tot_len b' + of_nat n\<rparr>) s" using b by (simp add: upd_pbuf_def)
  show ?thesis
    using n b True q ov u by (auto simp: pbuf_add_header_def pbuf_add_header_impl_def room_def contiguous_def within_def Let_def)
next
  case False
  then show ?thesis
    using n b by (auto simp: pbuf_add_header_def pbuf_add_header_impl_def room_def contiguous_def Let_def)
qed

lemma packet_head: "packet s p xs \<Longrightarrow> \<exists>b xs'. pb s p = Some b \<and> xs = p # xs' \<and> p \<notin> set xs' \<and> pkt s (p_next b) xs' \<and>
  unat (p_tot_len b) = unat (p_len b) + pkt_len s xs'"
  using linked_distinct [OF pkt_linked, of s "Some p" xs] by (cases xs) (auto simp: packet_def)

text \<open>A packet that is not part of another chain is in no other packet.\<close>

lemma packet_only: "packet s p xs \<Longrightarrow> packet s q ys \<Longrightarrow> p \<in> set ys \<Longrightarrow> q = p"
  using linked_preds [OF pkt_linked, of s "Some q" ys p] by (auto simp: packet_def)

text \<open>Changes to the first pbuf of a packet that keep it a packet.\<close>

lemma head_change:
  assumes o: "owned s Q" and p: "packet s p xs" and b: "pb s p = Some b"
    and f: "p_next (f b) = p_next b" "p_ref (f b) = p_ref b" "\<not> custom (f b)" "home p (mlive s p) (f b)"
    and l: "unat (p_tot_len (f b)) + unat (p_len b) = unat (p_tot_len b) + unat (p_len (f b))" "p_payload (f b) = None \<Longrightarrow> p_len (f b) = 0"
    and g: "contiguous (f b) \<or> (\<forall>q. p_payload (f b) = Some q \<longrightarrow> (\<exists>e. fst q = Ext e))"
  defines "s1 \<equiv> upd_pbuf p f s"
  shows "owned s1 Q" "packet s q ys \<Longrightarrow> packet s1 q ys"
proof -
  obtain xs' where x: "xs = p # xs'" "p \<notin> set xs'" "pkt s (p_next b) xs'" "unat (p_tot_len b) = unat (p_len b) + pkt_len s xs'"
    using packet_head [OF p] b by auto
  have s1: "pb s1 p = Some (f b)" "\<And>y. y \<noteq> p \<Longrightarrow> pb s1 y = pb s y" using b by (simp_all add: s1_def)
  have nx: "map_option p_next (pb s1 z) = map_option p_next (pb s z)" for z using s1 b f(1) by (cases "z = p") auto
  then have pr: "preds s1 z = preds s z" for z by (simp add: preds_alt)
  have "mem_ok s1" unfolding s1_def by (rule mem_ok_upd_pbuf [OF ownedD(1) [OF o]]) (use b f in simp)
  then show "owned s1 Q"
  proof (rule owned_transfer [OF o])
    fix z
    show "map_option p_next (pb s1 z) = map_option p_next (pb s z)" by (rule nx)
    have rf: "refs s1 z = refs s z" using s1 b f by (cases "z = p") (auto simp: refs_def)
    then show "count_list Q z + refs s z = count_list Q z + refs s1 z" by simp
    show "\<not> custom c" "0 < refs s1 z" if "pb s1 z = Some c" for c
      using that s1 b f(3) ownedD(3) [OF o, of z c] ownedD(6) [OF o, of z] rf by (cases "z = p"; auto)+
  qed
  show "packet s1 q ys" if q: "packet s q ys"
  proof (cases "q = p")
    case False
    have "p \<notin> set ys" using packet_only [OF p q] False by blast
    show ?thesis
    proof (rule packet_refs [OF q])
      show "\<exists>k. pb s1 y = map_option (p_ref_update k) (pb s y)" if "y \<in> set ys" for y
        using that \<open>p \<notin> set ys\<close> by (intro shed_same s1(2)) auto
    qed (simp add: pr)
  next
    case True
    then have ys: "ys = xs" using q p pkt_unique by (auto simp: packet_def)
    have same: "pb s1 y = pb s y" if "y \<in> set xs'" for y using that x(2) by (intro s1(2)) auto
    have "pkt s1 (p_next b) xs'" "pkt_len s1 xs' = pkt_len s xs'" "solid s1 xs' = solid s xs'"
      using pkt_cong [OF same] x(3) solid_cong [OF same] by simp_all
    moreover have "\<forall>y \<in> set xs'. grounded s1 y" using p x(1) same by (simp add: packet_def grounded_def)
    moreover have "grounded s1 p" using s1 g by (simp add: grounded_def)
    ultimately show ?thesis using p s1(1) x(1,4) f l unfolding ys True by (auto simp: packet_def pr)
  qed
qed

lemma header_up:
  assumes o: "owned s Q" and p: "packet s p xs" and r: "room s p n"
  defines "s1 \<equiv> upd_pbuf p (grow_front n) s"
  shows "owned s1 Q" "packet s q ys \<Longrightarrow> packet s1 q ys"
proof -
  obtain b xs' where b: "pb s p = Some b" "unat (p_tot_len b) = unat (p_len b) + pkt_len s xs'" using packet_head [OF p] by blast
  obtain q0 where q0: "contiguous b" "p_payload b = Some q0" "unat (p_tot_len b) + n < 65536"
    "snd p + int SIZEOF_STRUCT_PBUF \<le> snd q0 - int n" using r b(1) by (auto simp: room_def)
  have u: "unat (p_len b + of_nat n) = unat (p_len b) + n" "unat (p_tot_len b + of_nat n) = unat (p_tot_len b) + n"
    using q0(3) b(2) by (simp_all add: unat_word_ariths)
  note ok = ownedD(1) [OF o] and nc = ownedD(3) [OF o b(1)]
  have h: "home p (mlive s p) (grow_front n b)"
    using mem_okD(4) [OF ok b(1)] nc q0 u by (auto simp: home_def custom_def src_ok_def contiguous_def pbuf_get_allocsrc_def inside_def)
  have c: "\<not> custom (grow_front n b)" "contiguous (grow_front n b)" using nc q0(1) by (simp_all add: custom_def contiguous_def)
  note hc = head_change [OF o p b(1), of "grow_front n", folded s1_def]
  show "owned s1 Q" by (rule hc(1)) (use h c q0 u in simp_all)
  show "packet s q ys \<Longrightarrow> packet s1 q ys" by (rule hc(2)) (use h c q0 u in simp_all)
qed

abbreviation drop_front :: "nat \<Rightarrow> pbuf \<Rightarrow> pbuf" where
  "drop_front n b \<equiv> b\<lparr>p_payload := offset_ptr (p_payload b) n, p_len := p_len b - of_nat n, p_tot_len := p_tot_len b - of_nat n\<rparr>"

lemma header_down:
  assumes o: "owned s Q" and p: "packet s p xs" and b: "pb s p = Some b" and n: "n \<le> unat (p_len b)" "0 < n"
  defines "s1 \<equiv> upd_pbuf p (drop_front n) s"
  shows "pbuf_remove_header (Some p) n s = Some (0, s1)" "owned s1 Q" "packet s q ys \<Longrightarrow> packet s1 q ys"
proof -
  have lt: "n < 65536" using n unat_u16_less [of "p_len b"] by linarith
  have le: "unat (p_len b) \<le> unat (p_tot_len b)" using packet_head [OF p] b by auto
  have on: "unat (of_nat n :: u16) = n" using lt by (simp add: unat_of_nat)
  have u: "unat (p_len b - of_nat n) = unat (p_len b) - n" "unat (p_tot_len b - of_nat n) = unat (p_tot_len b) - n"
    using on n le by (simp_all add: unat_sub word_le_nat_alt)
  show "pbuf_remove_header (Some p) n s = Some (0, s1)"
    using n lt b on by (simp add: pbuf_remove_header_def LWIP_ASSERT_def word_le_nat_alt s1_def Let_def)
  note ok = ownedD(1) [OF o] and nc = ownedD(3) [OF o b]
  have h: "home p (mlive s p) (drop_front n b)"
    using mem_okD(4) [OF ok b] nc u n by (auto simp: home_def custom_def src_ok_def contiguous_def pbuf_get_allocsrc_def inside_def offset_ptr_def)
  have c: "\<not> custom (drop_front n b)" using nc by (simp add: custom_def)
  have pl: "p_payload b \<noteq> None" using p b n by (cases xs) (auto simp: packet_def)
  have "grounded s p" using packet_head [OF p] p by (auto simp: packet_def)
  then have g: "contiguous (drop_front n b) \<or> (\<forall>q. p_payload (drop_front n b) = Some q \<longrightarrow> (\<exists>e. fst q = Ext e))"
    using b pl by (auto simp: grounded_def contiguous_def offset_ptr_def ptr_add_def)
  note hc = head_change [OF o p b, of "drop_front n", folded s1_def]
  have l: "unat (p_tot_len (drop_front n b)) + unat (p_len b) = unat (p_tot_len b) + unat (p_len (drop_front n b))"
    using u n le by simp
  show "owned s1 Q" by (rule hc(1) [OF _ _ c h l _ g]) (use pl in \<open>simp_all add: offset_ptr_def\<close>)
  show "packet s q ys \<Longrightarrow> packet s1 q ys" by (rule hc(2) [OF _ _ c h l _ g]) (use pl in \<open>simp_all add: offset_ptr_def\<close>)
qed

text \<open>Marks on a packet.\<close>

lemma mark_packet:
  assumes o: "owned s Q" and p: "packet s p xs" and f: "\<And>b. p_next (f b) = p_next b \<and> p_ref (f b) = p_ref b \<and> p_type (f b) = p_type b \<and>
    p_payload (f b) = p_payload b \<and> p_len (f b) = p_len b \<and> p_tot_len (f b) = p_tot_len b \<and> custom (f b) = custom b"
  shows "owned (upd_pbuf p f s) Q" "packet s q ys \<Longrightarrow> packet (upd_pbuf p f s) q ys"
proof -
  obtain b where b: "pb s p = Some b" using packet_head [OF p] by blast
  note ok = ownedD(1) [OF o] and nc = ownedD(3) [OF o b]
  have h: "home p (mlive s p) (f b)"
    using mem_okD(4) [OF ok b] nc f [of b] by (simp add: home_def src_ok_def contiguous_def pbuf_get_allocsrc_def inside_def)
  have "grounded s p" using packet_head [OF p] p by (auto simp: packet_def)
  then have g: "contiguous (f b) \<or> (\<forall>q. p_payload (f b) = Some q \<longrightarrow> (\<exists>e. fst q = Ext e))"
    using b f [of b] by (simp add: grounded_def contiguous_def)
  have pl: "p_payload (f b) = None \<Longrightarrow> p_len (f b) = 0" using p b f [of b] by (cases xs) (auto simp: packet_def)
  note hc = head_change [OF o p b, of f]
  show "owned (upd_pbuf p f s) Q" by (rule hc(1) [OF _ _ _ h _ pl g]) (use f [of b] nc in simp_all)
  show "packet s q ys \<Longrightarrow> packet (upd_pbuf p f s) q ys" by (rule hc(2) [OF _ _ _ h _ pl g]) (use f [of b] nc in simp_all)
qed

lemma put16_write: "put16 p x m = mem_write m p [ucast x, ucast (drop_bit 8 x)]"
  by (auto simp: put16_def mem_write_def fun_eq_iff ptr_add_def prod_eq_iff nth_Cons split: nat.split)

lemma ucast_htons [simp]: "(ucast (lwip_htons x) :: u8) = ucast (drop_bit 8 x)" "(ucast (drop_bit 8 (lwip_htons x)) :: u8) = ucast x"
proof -
  show "(ucast (lwip_htons x) :: u8) = ucast (drop_bit 8 x)"
    by (rule bit_word_eqI) (simp add: lwip_htons_def masks high16 bit_simps)
  show "(ucast (drop_bit 8 (lwip_htons x)) :: u8) = ucast x"
    by (rule bit_word_eqI) (auto simp: lwip_htons_def masks high16 bit_simps)
qed

lemma contents_clear:
  assumes c: "clear_of s xs h n" and m: "\<And>a. apart h n a 1 \<Longrightarrow> m a = octet s a"
  shows "contents (s\<lparr>octet := m\<rparr>) xs = contents s xs"
proof -
  have "pbytes (s\<lparr>octet := m\<rparr>) x = pbytes s x" if x: "x \<in> set xs" for x
  proof (cases "pb s x")
    case (Some b)
    show ?thesis
    proof (cases "p_payload b")
      case q: (Some q)
      have ap: "apart q (unat (p_len b)) h n" using c x Some q unfolding clear_of_def by blast
      have "m (ptr_add q (int i)) = octet s (ptr_add q (int i))" if "i < unat (p_len b)" for i
        using ap that by (intro m) (auto simp: apart_def)
      then show ?thesis using Some q by (simp add: pbytes_def mem_read_def)
    qed (use Some in \<open>simp add: pbytes_def\<close>)
  qed (simp add: pbytes_def)
  then show ?thesis unfolding contents_def by (simp cong: map_cong)
qed

lemma three_writes:
  assumes "length d = 6" "length e = 6"
  shows "mem_read (mem_write (mem_write (mem_write m (ptr_add h 12) [x, y]) h d) (ptr_add h 6) e) h (14 + k) =
    d @ e @ [x, y] @ mem_read m (ptr_add h 14) k"
proof -
  let ?m = "mem_write (mem_write (mem_write m (ptr_add h 12) [x, y]) h d) (ptr_add h 6) e"
  have "mem_read ?m h 14 = d @ e @ [x, y]"
  proof (rule nth_equalityI)
    fix i assume "i < length (mem_read ?m h 14)"
    then show "mem_read ?m h 14 ! i = (d @ e @ [x, y]) ! i"
      using assms by (auto simp: nth_append mem_write_def nth_Cons nat_diff_distrib split: nat.split)
  qed (simp add: assms)
  moreover have "mem_read ?m (ptr_add h 14) k = mem_read m (ptr_add h 14) k"
    using assms by (subst mem_read_write_apart; simp add: apart_def)+
  ultimately show ?thesis using mem_read_add [of ?m h 14 k] by simp
qed

text \<open>A reference to a hardware address, which has six octets.\<close>

definition hw6 :: "'a arp_scheme \<Rightarrow> 'a arp_scheme hwref \<Rightarrow> bool" where
  "hw6 s r \<longleftrightarrow> (\<forall>t. netifs t = netifs s \<longrightarrow> arp_table t = arp_table s \<longrightarrow> length (r t) = 6)"

lemma ethernet_output_eq:
  assumes o: "owned s Q" and p: "packet s p xs" and f: "nf_linkoutput (netifs s netif) = Some f"
    and hl: "unat (nf_hwaddr_len (netifs s netif)) = ETH_HWADDR_LEN"
    and hw: "hw6 s src" "hw6 s dst"
  shows "\<not> room s p 14 \<Longrightarrow> ethernet_output H netif p src dst ty s = Some (ERR_BUF, LINK_STATS_INC st_lenerr_update s)"
    "room s p 14 \<Longrightarrow> \<exists>h m0 m1 m. let s1 = upd_pbuf p (grow_front 14) s in
       ethernet_output H netif p src dst ty s = lk_linkoutput H f netif p (s1\<lparr>octet := m\<rparr>) \<and>
       map_option p_payload (pb s1 p) = Some (Some h) \<and>
       (\<forall>a. apart h 14 a 1 \<longrightarrow> m0 a = octet s a \<and> m1 a = octet s a \<and> m a = octet s a) \<and>
       contents (s1\<lparr>octet := m\<rparr>) xs = dst (s1\<lparr>octet := m0\<rparr>) @ src (s1\<lparr>octet := m1\<rparr>) @
         [ucast (drop_bit 8 ty), ucast ty] @ contents s xs"
proof -
  obtain b xs' where b: "pb s p = Some b" "xs = p # xs'" "p \<notin> set xs'" "unat (p_tot_len b) = unat (p_len b) + pkt_len s xs'"
    using packet_head [OF p] by blast
  note ah = add_header_eq [OF o b(1), of 14, simplified]
  show "ethernet_output H netif p src dst ty s = Some (ERR_BUF, LINK_STATS_INC st_lenerr_update s)" if "\<not> room s p 14"
    using that ah by (simp add: ethernet_output_def SIZEOF_ETH_HDR_def)
  assume r: "room s p 14"
  then obtain q where q: "contiguous b" "p_payload b = Some q" "unat (p_tot_len b) + 14 < 65536"
    "snd p + int SIZEOF_STRUCT_PBUF \<le> snd q - 14" using b(1) by (auto simp: room_def)
  obtain k where k: "mlive s p = Some k" "within p k q (unat (p_len b))"
    using contiguous_at [OF ownedD(1) [OF o] b(1) ownedD(3) [OF o b(1)] q(1,2)] by blast
  define h s1 where "h = ptr_add q (- 14)" and "s1 = upd_pbuf p (grow_front 14) s"
  have s1: "pb s1 p = Some (grow_front 14 b)" "\<And>y. y \<noteq> p \<Longrightarrow> pb s1 y = pb s y" "octet s1 = octet s" "netifs s1 = netifs s"
    "arp_table s1 = arp_table s" using b(1) by (simp_all add: s1_def upd_pbuf_def)
  define m0 where "m0 = put16 (ptr_add h 12) (lwip_htons ty) (octet s)"
  define m1 where "m1 = mem_write m0 h (dst (s1\<lparr>octet := m0\<rparr>))"
  define m where "m = mem_write m1 (ptr_add h 6) (src (s1\<lparr>octet := m1\<rparr>))"
  have l: "length (dst (s1\<lparr>octet := m0\<rparr>)) = 6" "length (src (s1\<lparr>octet := m1\<rparr>)) = 6"
    using hw s1(4,5) by (simp_all add: hw6_def)
  have e: "ethernet_output H netif p src dst ty s = lk_linkoutput H f netif p (s1\<lparr>octet := m\<rparr>)"
  proof -
    have "pbuf_add_header (Some p) 14 s = Some (0, s1)" using add_header_eq [OF o b(1), of 14] r by (simp add: s1_def)
    then show ?thesis
      using s1 q(2) f hl by (simp add: ethernet_output_def SIZEOF_ETH_HDR_def Let_def h_def m_def m1_def m0_def)
  qed
  have keep: "m0 a = octet s a \<and> m1 a = octet s a \<and> m a = octet s a" if "apart h 14 a 1" for a
    using that l by (auto simp: m_def m1_def m0_def put16_write mem_write_def apart_def)
  have w: "within p k h 14" using k(2) q(4) by (auto simp: within_def h_def)
  have cl: "clear_of s xs' h 14"
    unfolding clear_of_def
  proof (intro ballI allI impI)
    fix y c t assume y: "y \<in> set xs'" "pb s y = Some c" "p_payload c = Some t"
    have "y \<noteq> p" "grounded s y" using y(1) b(2,3) p by (auto simp: packet_def)
    from block_apart [OF o k(1) w this y(2,3)] show "apart t (unat (p_len c)) h 14" .
  qed
  have "contents (s1\<lparr>octet := m\<rparr>) xs' = contents (s\<lparr>octet := m\<rparr>) xs'" 
  proof (rule contents_cong)
    fix y assume "y \<in> set xs'"
    then show "pb (s1\<lparr>octet := m\<rparr>) y = pb (s\<lparr>octet := m\<rparr>) y" using s1(2) [of y] b(3) by auto
  qed simp
  also have "\<dots> = contents s xs'" by (rule contents_clear [OF cl]) (use keep in blast)
  finally have "contents (s1\<lparr>octet := m\<rparr>) xs' = contents s xs'" .
  moreover have "pbytes (s1\<lparr>octet := m\<rparr>) p = dst (s1\<lparr>octet := m0\<rparr>) @ src (s1\<lparr>octet := m1\<rparr>) @ [ucast (drop_bit 8 ty), ucast ty] @ pbytes s p"
  proof -
    have "unat (p_len b + 14) = 14 + unat (p_len b)" using q(3) b(4) by (simp add: unat_word_ariths)
    then have "pbytes (s1\<lparr>octet := m\<rparr>) p = mem_read m h (14 + unat (p_len b))" using s1(1) q(2) by (simp add: pbytes_def h_def)
    also have "\<dots> = dst (s1\<lparr>octet := m0\<rparr>) @ src (s1\<lparr>octet := m1\<rparr>) @ [ucast (drop_bit 8 ty), ucast ty] @
        mem_read (octet s) (ptr_add h 14) (unat (p_len b))"
      unfolding m_def m1_def [unfolded m0_def put16_write] using three_writes [OF l] by (simp add: m1_def m0_def put16_write)
    finally show ?thesis using b(1) q(2) by (simp add: pbytes_def h_def)
  qed
  ultimately have "contents (s1\<lparr>octet := m\<rparr>) xs = dst (s1\<lparr>octet := m0\<rparr>) @ src (s1\<lparr>octet := m1\<rparr>) @
         [ucast (drop_bit 8 ty), ucast ty] @ contents s xs" by (simp add: b(2))
  then show "\<exists>h m0 m1 m. let s1 = upd_pbuf p (grow_front 14) s in
       ethernet_output H netif p src dst ty s = lk_linkoutput H f netif p (s1\<lparr>octet := m\<rparr>) \<and>
       map_option p_payload (pb s1 p) = Some (Some h) \<and>
       (\<forall>a. apart h 14 a 1 \<longrightarrow> m0 a = octet s a \<and> m1 a = octet s a \<and> m a = octet s a) \<and>
       contents (s1\<lparr>octet := m\<rparr>) xs = dst (s1\<lparr>octet := m0\<rparr>) @ src (s1\<lparr>octet := m1\<rparr>) @
         [ucast (drop_bit 8 ty), ucast ty] @ contents s xs"
    unfolding s1_def [symmetric] Let_def using e keep s1(1) q(2) by (intro exI [of _ h] exI [of _ m0] exI [of _ m1] exI [of _ m]) (simp add: h_def)
qed


section \<open>Interfaces and the link below\<close>

definition netif_ok :: "'a net_scheme \<Rightarrow> nif \<Rightarrow> bool" where
  "netif_ok s n \<longleftrightarrow> nf_linkoutput (netifs s n) \<noteq> None \<and> unat (nf_hwaddr_len (netifs s n)) = ETH_HWADDR_LEN \<and>
     ETH_HWADDR_LEN \<le> length (nf_hwaddr (netifs s n))"

text \<open>
  What sending a packet may change: statistics, the driver's state, and memory outside the heap
  and the pools.
\<close>

definition link_frame :: "'a arp_scheme \<Rightarrow> 'a arp_scheme \<Rightarrow> bool" where
  "link_frame s s' \<longleftrightarrow> same_mem s' s \<and> arp_table s' = arp_table s \<and> etharp_cached_entry s' = etharp_cached_entry s \<and>
     netifs s' = netifs s \<and> diag s' = diag s \<and> (\<forall>a. (\<forall>e. fst a \<noteq> Ext e) \<longrightarrow> octet s' a = octet s a)"

definition output_ok :: "'a arp_scheme link \<Rightarrow> bool" where
  "output_ok H \<longleftrightarrow> (\<forall>f n p s xs Q. packet s p xs \<longrightarrow> owned s Q \<longrightarrow> p \<in> set Q \<longrightarrow>
     (\<exists>e s'. lk_linkoutput H f n p s = Some (e, s') \<and> link_frame s s'))"

text \<open>The state of the ARP layer and the packets of \<open>Q\<close> are as before.\<close>

definition calm :: "ptr list \<Rightarrow> 'a arp_scheme \<Rightarrow> 'a arp_scheme \<Rightarrow> bool" where
  "calm Q s s' \<longleftrightarrow> owned s' Q \<and> (\<forall>q \<in> set Q. \<forall>ys. packet s q ys \<longrightarrow> packet s' q ys) \<and> arp_table s' = arp_table s \<and>
     etharp_cached_entry s' = etharp_cached_entry s \<and> netifs s' = netifs s \<and> diag s' = diag s"

lemma calm_trans: "calm Q s t \<Longrightarrow> calm Q t u \<Longrightarrow> calm Q s u"
  by (simp add: calm_def)

lemma link_frame_calm: "link_frame s s' \<Longrightarrow> owned s Q \<Longrightarrow> calm Q s s'"
  using same_mem [of s' s] pb_cong [of s' s] by (simp add: link_frame_def calm_def)

lemma hw6_simps [simp]: "hw6 s (\<lambda>_. ethbroadcast)" "hw6 s (\<lambda>_. ethzero)" "hw6 s (hwaddr_at p)" "netif_ok s n \<Longrightarrow> hw6 s (netif_hwaddr n)"
  by (simp_all add: hw6_def ethbroadcast_def ethzero_def hwaddr_at_def netif_hwaddr_def netif_ok_def ETH_HWADDR_LEN_def)

lemma hw6_cong: "netifs t = netifs s \<Longrightarrow> arp_table t = arp_table s \<Longrightarrow> hw6 t r = hw6 s r"
  by (simp add: hw6_def)

lemma ethernet_output_calm:
  assumes H: "output_ok H" and o: "owned s Q" and q: "p \<in> set Q" and p: "packet s p xs" and n: "netif_ok s n"
    and hw: "hw6 s src" "hw6 s dst"
  shows "\<exists>e s'. ethernet_output H n p src dst ty s = Some (e, s') \<and> calm Q s s'"
proof -
  obtain f where f: "nf_linkoutput (netifs s n) = Some f" using n by (auto simp: netif_ok_def)
  have hl: "unat (nf_hwaddr_len (netifs s n)) = ETH_HWADDR_LEN" using n by (simp add: netif_ok_def)
  note E = ethernet_output_eq [OF o p f hl hw, where H = H and ty = ty]
  show ?thesis
  proof (cases "room s p 14")
    case False
    then show ?thesis using E(1) o by (simp add: calm_def)
  next
    case True
    define s1 where "s1 = upd_pbuf p (grow_front 14) s"
    obtain m where m: "ethernet_output H n p src dst ty s = lk_linkoutput H f n p (s1\<lparr>octet := m\<rparr>)"
      using E(2) [OF True] unfolding s1_def [symmetric] Let_def by blast
    note hu = header_up [OF o p True, folded s1_def]
    have "packet (s1\<lparr>octet := m\<rparr>) p xs" "owned (s1\<lparr>octet := m\<rparr>) Q" using hu p by simp_all
    then obtain e s' where s': "lk_linkoutput H f n p (s1\<lparr>octet := m\<rparr>) = Some (e, s')" "link_frame (s1\<lparr>octet := m\<rparr>) s'"
      using H q unfolding output_ok_def by blast
    have "calm Q s (s1\<lparr>octet := m\<rparr>)" using hu by (simp add: calm_def) (simp add: s1_def upd_pbuf_def)
    moreover have "calm Q (s1\<lparr>octet := m\<rparr>) s'" using link_frame_calm [OF s'(2)] hu(1) by simp
    ultimately show ?thesis using m s'(1) calm_trans by (simp add: calm_def)
  qed
qed

end
