(* ===== verification/Etharp_Send.thy ===== *)
theory Etharp_Send
  imports Etharp_Inv
begin

text \<open>
  The ARP messages that \<^verbatim>\<open>etharp_raw\<close> of \<^verbatim>\<open>lwip/src/core/ipv4/etharp.c\<close> builds and sends, octet by
  octet, and that sending one leaves the ARP layer and every packet in use as it was.
\<close>


section \<open>ARP messages\<close>

definition arp_message :: "u16 \<Rightarrow> u8 list \<Rightarrow> u32 \<Rightarrow> u8 list \<Rightarrow> u32 \<Rightarrow> u8 list" where
  "arp_message opcode shw sip dhw dip =
     [0, 1, 8, 0, 6, 4, ucast (drop_bit 8 opcode), ucast opcode] @ shw @ octets_of sip @ dhw @ octets_of dip"

lemma put32_write: "put32 p x m = mem_write m p (octets_of x)"
  by (simp add: put32_def octets_of_def)

lemma arp_writes:
  assumes "length shw = 6" "length dhw = 6"
  shows "mem_read (mem_write (mem_write (put16 (ptr_add h 2) (lwip_htons ETHTYPE_IP) (put16 h (lwip_htons LWIP_IANA_HWTYPE_ETHERNET)
      (put32 (ptr_add h 24) dip (put32 (ptr_add h 14) sip (mem_write (mem_write (put16 (ptr_add h 6) (lwip_htons opcode) m)
      (ptr_add h 8) shw) (ptr_add h 18) dhw))))) (ptr_add h 4) [of_nat ETH_HWADDR_LEN]) (ptr_add h 5) [4]) h 28 =
    arp_message opcode shw sip dhw dip"
proof -
  have l: "length (octets_of x) = 4" for x by (simp add: octets_of_def)
  have s: "mem_read M h 28 = mem_read M h 2 @ mem_read M (ptr_add h 2) 2 @ mem_read M (ptr_add h 4) 1 @ mem_read M (ptr_add h 5) 1 @
    mem_read M (ptr_add h 6) 2 @ mem_read M (ptr_add h 8) 6 @ mem_read M (ptr_add h 14) 4 @ mem_read M (ptr_add h 18) 6 @
    mem_read M (ptr_add h 24) 4" for M
    using mem_read_add [of M h 2 26] mem_read_add [of M "ptr_add h 2" 2 24] mem_read_add [of M "ptr_add h 4" 1 23]
      mem_read_add [of M "ptr_add h 5" 1 22] mem_read_add [of M "ptr_add h 6" 2 20] mem_read_add [of M "ptr_add h 8" 6 14]
      mem_read_add [of M "ptr_add h 14" 4 10] mem_read_add [of M "ptr_add h 18" 6 4] by simp
  show ?thesis
    unfolding s put16_write put32_write ucast_htons
    by (simp add: mem_simps apart_def l assms arp_message_def ETHTYPE_IP_def LWIP_IANA_HWTYPE_ETHERNET_def ETH_HWADDR_LEN_def
        drop_bit_eq_div)
qed


text \<open>A packet allocated for the layer itself is a packet of its own.\<close>

lemma new_packet:
  assumes "owned s' (p # Q)" "part s' 0 (Some p) [p]" "fresh s s' [p]"
  shows "packet s' p [p]" "p \<notin> set Q"
proof -
  have "refs s' p = 1" using part_refs [OF assms(2), of p] by simp
  then have "count_list Q p = 0" "card (preds s' p) = 0" using ownedD(4) [OF assms(1), of p] by simp_all
  then have "preds s' p = {}" "p \<notin> set Q"
    using finite_preds [OF ownedD(2) [OF assms(1)], of p] by (simp_all add: count_list_0_iff)
  moreover have "grounded s' p" using assms(3) by (auto simp: grounded_def fresh_def)
  ultimately show "packet s' p [p]" "p \<notin> set Q" using part_pkt [OF assms(2)] by (auto simp: packet_def)
qed

lemma alloc_calm:
  assumes o: "owned s Q" and e: "pbuf_alloc cf l n PBUF_RAM s = Some (r, s')"
  shows "r = None \<Longrightarrow> calm Q s s'" "r = Some p \<Longrightarrow> calm Q s s' = owned s' Q"
    "r = Some p \<Longrightarrow> owned s' (p # Q) \<and> packet s' p [p] \<and> pkt_len s' [p] = unat n \<and> fresh s s' [p] \<and> octet s' = octet s"
    "r = Some p \<Longrightarrow> q \<in> set Q \<Longrightarrow> packet s q ys \<Longrightarrow> packet s' q ys"
    "arp_table s' = arp_table s" "etharp_cached_entry s' = etharp_cached_entry s" "netifs s' = netifs s" "diag s' = diag s"
proof -
  note A = alloc_ownedD [OF o _ e, simplified]
  show mf: "arp_table s' = arp_table s" "etharp_cached_entry s' = etharp_cached_entry s" "netifs s' = netifs s"
    using more_fields [OF A(3)] .
  show d: "diag s' = diag s" by (fact A(2))
  show "calm Q s s'" if "r = None" using A(4) [OF that] mf d pb_cong [of s' s] by (simp add: calm_def)
  assume r: "r = Some p"
  obtain xs where "part s' 0 (Some p) xs" "pkt_len s' xs = unat n" "xs = [p]" "fresh s s' xs"
    using alloc_fresh [OF o _ e [unfolded r]] by auto
  then have x: "part s' 0 (Some p) [p]" "pkt_len s' [p] = unat n" "fresh s s' [p]" by simp_all
  show pk: "packet s' q ys" if "packet s q ys" for q ys using fresh_packet [OF x(3,1) that] .
  show "owned s' (p # Q) \<and> packet s' p [p] \<and> pkt_len s' [p] = unat n \<and> fresh s s' [p] \<and> octet s' = octet s"
    using A(1,5) r x new_packet(1) by blast
  show "calm Q s s' = owned s' Q" using pk mf d by (auto simp: calm_def)
qed

lemma free_calm:
  assumes "owned s (p # Q)"
  shows "\<exists>n s'. pbuf_free cf (Some p) s = Some (n, s') \<and> calm Q s s'"
proof -
  obtain n s' where s': "pbuf_free cf (Some p) s = Some (n, s')" "owned s' Q" "diag s' = diag s" "stack.more s' = stack.more s" "shed s s'"
    using pbuf_free_owned [OF assms, of cf] by blast
  then have "calm Q s s'" using shed_packet more_fields [OF s'(4)] by (auto simp: calm_def)
  with s'(1) show ?thesis by blast
qed

lemma write_apart:
  assumes "apart h n a 1"
  shows "0 \<le> k \<Longrightarrow> k + int (length w) \<le> int n \<Longrightarrow> mem_write m (ptr_add h k) w a = m a"
    "length w \<le> n \<Longrightarrow> mem_write m h w a = m a"
  using assms by (auto simp: mem_write_def apart_def)

text \<open>What \<^verbatim>\<open>etharp_raw\<close> hands to \<^verbatim>\<open>ethernet_output\<close>.\<close>

lemma etharp_raw_eq:
  assumes o: "owned s Q" and n: "netif_ok s n" and hw: "hw6 s hwsrc" "hw6 s hwdst"
    and a: "pbuf_alloc (lk_free H) PBUF_LINK 28 PBUF_RAM s = Some (Some p, s1)"
  shows "\<exists>m m0 m1. etharp_raw H n ethsrc ethdst hwsrc ipsrc hwdst ipdst opcode s = do {
       (_, s) \<leftarrow> ethernet_output H n p ethsrc (if ip4_addr_islinklocal ipsrc then (\<lambda>_. ethbroadcast) else ethdst) ETHTYPE_ARP (s1\<lparr>octet := m\<rparr>);
       (_, s) \<leftarrow> pbuf_free (lk_free H) (Some p) (ETHARP_STATS_INC st_xmit_update s);
       Some (ERR_OK, s) } \<and>
     contents (s1\<lparr>octet := m\<rparr>) [p] = arp_message opcode (hwsrc (s1\<lparr>octet := m0\<rparr>)) ipsrc (hwdst (s1\<lparr>octet := m1\<rparr>)) ipdst \<and>
     (\<forall>a. outside s1 [p] a \<longrightarrow> m a = octet s a \<and> m0 a = octet s a \<and> m1 a = octet s a)"
proof -
  note A = alloc_calm [OF o a]
  have P: "packet s1 p [p]" "pkt_len s1 [p] = 28" "octet s1 = octet s" "fresh s s1 [p]" using A(3) [OF refl] by simp_all
  obtain b where b: "pb s1 p = Some b" "unat (p_len b) = 28" using P(1,2) by (auto simp: packet_def plen_def)
  obtain h where h: "p_payload b = Some h" using P(1) b by (auto simp: packet_def)
  have n1: "netif_ok s1 n" using n A(7) by (simp add: netif_ok_def)
  have le: "of_nat SIZEOF_ETHARP_HDR \<le> p_len b" using b(2) by (simp add: word_le_nat_alt SIZEOF_ETHARP_HDR_def)
  define ma where "ma = put16 (ptr_add h 6) (lwip_htons opcode) (octet s)"
  define mb where "mb = mem_write ma (ptr_add h 8) (hwsrc (s1\<lparr>octet := ma\<rparr>))"
  define mc where "mc = mem_write mb (ptr_add h 18) (hwdst (s1\<lparr>octet := mb\<rparr>))"
  define m where "m = mem_write (mem_write (put16 (ptr_add h 2) (lwip_htons ETHTYPE_IP) (put16 h (lwip_htons LWIP_IANA_HWTYPE_ETHERNET)
      (put32 (ptr_add h 24) ipdst (put32 (ptr_add h 14) ipsrc mc)))) (ptr_add h 4) [of_nat ETH_HWADDR_LEN]) (ptr_add h 5) [4]"
  have l: "length (hwsrc (s1\<lparr>octet := ma\<rparr>)) = 6" "length (hwdst (s1\<lparr>octet := mb\<rparr>)) = 6" using hw A(5,7) by (simp_all add: hw6_def)
  have "etharp_raw H n ethsrc ethdst hwsrc ipsrc hwdst ipdst opcode s = do {
       (_, s) \<leftarrow> ethernet_output H n p ethsrc (if ip4_addr_islinklocal ipsrc then (\<lambda>_. ethbroadcast) else ethdst) ETHTYPE_ARP (s1\<lparr>octet := m\<rparr>);
       (_, s) \<leftarrow> pbuf_free (lk_free H) (Some p) (ETHARP_STATS_INC st_xmit_update s);
       Some (ERR_OK, s) }"
    using a b(1) h le n1 P(3)
    by (simp add: etharp_raw_def SIZEOF_ETHARP_HDR_def netif_ok_def m_def mc_def mb_def ma_def Let_def)
  moreover have "contents (s1\<lparr>octet := m\<rparr>) [p] = arp_message opcode (hwsrc (s1\<lparr>octet := ma\<rparr>)) ipsrc (hwdst (s1\<lparr>octet := mb\<rparr>)) ipdst"
    using b h arp_writes [OF l, of h ipdst ipsrc opcode "octet s"] by (simp add: pbytes_def m_def mc_def mb_def ma_def)
  moreover have "m a = octet s a \<and> ma a = octet s a \<and> mb a = octet s a" if "outside s1 [p] a" for a
  proof -
    have "apart h 28 a 1" using that b h by (simp add: outside_def)
    then show ?thesis
      using l by (simp add: m_def mc_def mb_def ma_def put16_write put32_write octets_of_def write_apart [of h 28 a])
  qed
  ultimately show ?thesis by (intro exI [of _ m] exI [of _ ma] exI [of _ mb]) simp
qed

lemma etharp_raw_calm:
  assumes H: "output_ok H" and o: "owned s Q" and n: "netif_ok s n"
    and hw: "hw6 s hwsrc" "hw6 s hwdst" "hw6 s ethsrc" "hw6 s ethdst"
  shows "\<exists>e s'. etharp_raw H n ethsrc ethdst hwsrc ipsrc hwdst ipdst opcode s = Some (e, s') \<and> calm Q s s'"
proof -
  obtain r s1 where a: "pbuf_alloc (lk_free H) PBUF_LINK 28 PBUF_RAM s = Some (r, s1)"
    using pbuf_alloc_owned [OF o, of PBUF_RAM "lk_free H" PBUF_LINK 28] by blast
  note A = alloc_calm [OF o a]
  show ?thesis
  proof (cases r)
    case None
    then show ?thesis using a A(1) by (simp add: etharp_raw_def SIZEOF_ETHARP_HDR_def calm_def)
  next
    case (Some p)
    obtain m where m: "etharp_raw H n ethsrc ethdst hwsrc ipsrc hwdst ipdst opcode s = do {
       (_, s) \<leftarrow> ethernet_output H n p ethsrc (if ip4_addr_islinklocal ipsrc then (\<lambda>_. ethbroadcast) else ethdst) ETHTYPE_ARP (s1\<lparr>octet := m\<rparr>);
       (_, s) \<leftarrow> pbuf_free (lk_free H) (Some p) (ETHARP_STATS_INC st_xmit_update s);
       Some (ERR_OK, s) }"
      using etharp_raw_eq [OF o n hw(1,2) a [unfolded Some]] by blast
    let ?t = "s1\<lparr>octet := m\<rparr>" and ?d = "if ip4_addr_islinklocal ipsrc then (\<lambda>_. ethbroadcast) else ethdst"
    have P: "owned ?t (p # Q)" "packet ?t p [p]" "netif_ok ?t n" "hw6 ?t ethsrc" "hw6 ?t ?d"
      using A(3) [OF Some] n A(5,7) hw hw6_cong [of ?t s] by (simp_all add: netif_ok_def)
    obtain e t' where t': "ethernet_output H n p ethsrc ?d ETHTYPE_ARP ?t = Some (e, t')" "calm (p # Q) ?t t'"
      using ethernet_output_calm [OF H P(1) _ P(2-5), of ETHTYPE_ARP] by auto
    have "owned (ETHARP_STATS_INC st_xmit_update t') (p # Q)" using t'(2) by (simp add: calm_def)
    then obtain k u where u: "pbuf_free (lk_free H) (Some p) (ETHARP_STATS_INC st_xmit_update t') = Some (k, u)"
      "calm Q (ETHARP_STATS_INC st_xmit_update t') u" using free_calm by blast
    have "calm Q s u" using u(2) t'(2) A(4) [OF Some] A(5-8) by (simp add: calm_def)
    with m t' u show ?thesis by simp
  qed
qed

end
