(* ===== verification/Etharp_Table.thy ===== *)
theory Etharp_Table
  imports Etharp_Send
begin

text \<open>
  The invariant of the ARP table of \<^verbatim>\<open>lwip/src/core/ipv4/etharp.c\<close> with the packets its entries
  keep, and the search for an entry: what \<^verbatim>\<open>etharp_find_entry\<close> finds or makes room for.
\<close>


section \<open>The table\<close>

definition queue_of :: "etharp_entry \<Rightarrow> ptr list" where
  "queue_of e = (case e_q e of None \<Rightarrow> [] | Some q \<Rightarrow> [q])"

definition arp_queues :: "etharp_entry list \<Rightarrow> ptr list" where
  "arp_queues t = concat (map queue_of t)"

lemma queues_update:
  assumes "i < length t"
  shows "count_list (arp_queues (t[i := e])) x + count_list (queue_of (t ! i)) x = count_list (arp_queues t) x + count_list (queue_of e) x"
proof -
  have t: "t = take i t @ t ! i # drop (Suc i) t" using assms by (simp add: id_take_nth_drop)
  have "t[i := e] = take i t @ e # drop (Suc i) t" using assms by (simp add: upd_conv_take_nth_drop)
  then have "count_list (arp_queues (t[i := e])) x = count_list (arp_queues (take i t)) x + count_list (queue_of e) x + count_list (arp_queues (drop (Suc i) t)) x"
    by (simp add: arp_queues_def)
  moreover have "count_list (arp_queues t) x = count_list (arp_queues (take i t)) x + count_list (queue_of (t ! i)) x + count_list (arp_queues (drop (Suc i) t)) x"
    by (subst t) (simp add: arp_queues_def)
  ultimately show ?thesis by simp
qed

definition entry_ok :: "'a net_scheme \<Rightarrow> etharp_entry \<Rightarrow> bool" where
  "entry_ok s e \<longleftrightarrow> (e_q e \<noteq> None \<longrightarrow> e_state e = ETHARP_STATE_PENDING) \<and>
     (e_state e \<noteq> ETHARP_STATE_EMPTY \<longrightarrow> (\<exists>n. e_netif e = Some n \<and> netif_ok s n)) \<and>
     (e_state e = ETHARP_STATE_PENDING \<longrightarrow> e_ctime e < ARP_MAXPENDING) \<and>
     (ETHARP_STATE_STABLE \<le> e_state e \<longrightarrow> e_ctime e < ARP_MAXAGE \<and> length (e_ethaddr e) = 6)"

definition same_key :: "etharp_entry \<Rightarrow> etharp_entry \<Rightarrow> bool" where
  "same_key e e' \<longleftrightarrow> e_state e \<noteq> ETHARP_STATE_EMPTY \<and> e_state e' \<noteq> ETHARP_STATE_EMPTY \<and> e_ipaddr e = e_ipaddr e' \<and> e_netif e = e_netif e'"

definition unique_keys :: "etharp_entry list \<Rightarrow> bool" where
  "unique_keys t \<longleftrightarrow> (\<forall>i < length t. \<forall>j < length t. i \<noteq> j \<longrightarrow> \<not> same_key (t ! i) (t ! j))"

definition arp_table_ok :: "'a arp_scheme \<Rightarrow> bool" where
  "arp_table_ok s \<longleftrightarrow> length (arp_table s) = ARP_TABLE_SIZE \<and> unat (etharp_cached_entry s) < ARP_TABLE_SIZE \<and>
     (\<forall>e \<in> set (arp_table s). entry_ok s e) \<and> unique_keys (arp_table s)"

text \<open>The table is well-formed, and the references to pbufs are those of its entries and the ones in \<open>R\<close>.\<close>

definition arp_inv :: "'a arp_scheme \<Rightarrow> ptr list \<Rightarrow> bool" where
  "arp_inv s R \<longleftrightarrow> arp_table_ok s \<and> owned s (arp_queues (arp_table s) @ R) \<and>
     (\<forall>q \<in> set (arp_queues (arp_table s)). \<exists>ys. packet s q ys)"

definition arp_to :: "ptr list \<Rightarrow> 'a arp_scheme \<Rightarrow> 'a arp_scheme \<Rightarrow> bool" where
  "arp_to R s s' \<longleftrightarrow> arp_inv s' R \<and> (\<forall>q \<in> set R. \<forall>ys. packet s q ys \<longrightarrow> packet s' q ys) \<and> netifs s' = netifs s \<and> diag s' = diag s"

lemma arp_to_trans: "arp_to R s t \<Longrightarrow> arp_to R t u \<Longrightarrow> arp_to R s u"
  by (simp add: arp_to_def)

lemma arp_to_refl: "arp_inv s R \<Longrightarrow> arp_to R s s"
  by (simp add: arp_to_def)

lemma calm_arp:
  assumes "arp_inv s R" "calm (arp_queues (arp_table s) @ R) s s'"
  shows "arp_to R s s'" "arp_table s' = arp_table s" "etharp_cached_entry s' = etharp_cached_entry s"
proof -
  note c = assms(2) [unfolded calm_def]
  show t: "arp_table s' = arp_table s" "etharp_cached_entry s' = etharp_cached_entry s" using c by simp_all
  have "entry_ok s' e = entry_ok s e" for e using c by (simp add: entry_ok_def netif_ok_def)
  then have "arp_table_ok s'" using assms(1) t by (simp add: arp_inv_def arp_table_ok_def)
  moreover have "\<forall>q \<in> set (arp_queues (arp_table s')). \<exists>ys. packet s' q ys"
    using c t assms(1) unfolding arp_inv_def by (metis UnI1 set_append)
  ultimately show "arp_to R s s'" using c t by (simp add: arp_to_def arp_inv_def)
qed

lemma unique_keys_upd:
  assumes "unique_keys t" "i < length t" "\<And>j. j < length t \<Longrightarrow> j \<noteq> i \<Longrightarrow> \<not> same_key e (t ! j)"
  shows "unique_keys (t[i := e])"
  unfolding unique_keys_def
proof (intro allI impI)
  fix a b assume ab: "a < length (t[i := e])" "b < length (t[i := e])" "a \<noteq> b"
  have sym: "same_key x y = same_key y x" for x y by (auto simp: same_key_def)
  show "\<not> same_key (t[i := e] ! a) (t[i := e] ! b)"
    using assms ab sym by (cases "a = i"; cases "b = i") (auto simp: unique_keys_def)
qed

text \<open>Replacing an entry, with its queued packet, by one that fits.\<close>

lemma arp_inv_entry:
  assumes inv: "arp_inv s Q" and i: "i < ARP_TABLE_SIZE" and e: "entry_ok s e"
    and u: "unique_keys ((arp_table s)[i := e])" and t: "arp_table s' = (arp_table s)[i := e]"
    and k: "pb s' = pb s" "netifs s' = netifs s" "etharp_cached_entry s' = etharp_cached_entry s" "owned s' = owned s"
    and c: "\<And>x. count_list (queue_of (arp_table s ! i)) x + count_list Q x = count_list (queue_of e) x + count_list R x"
    and p: "\<And>q. e_q e = Some q \<Longrightarrow> \<exists>ys. packet s q ys"
  shows "arp_inv s' R"
proof -
  have l: "i < length (arp_table s)" "length (arp_table s) = ARP_TABLE_SIZE" using inv i by (simp_all add: arp_inv_def arp_table_ok_def)
  have eo: "entry_ok s' x = entry_ok s x" for x using k by (simp add: entry_ok_def netif_ok_def)
  have "\<forall>x \<in> set (arp_table s'). entry_ok s' x"
    using inv e set_update_subset_insert [of "arp_table s" i e] unfolding t eo arp_inv_def arp_table_ok_def by blast
  then have "arp_table_ok s'" using inv l u k t by (simp add: arp_inv_def arp_table_ok_def)
  moreover have "owned s (arp_queues (arp_table s') @ R)"
  proof -
    have "count_list (arp_queues (arp_table s') @ R) x = count_list (arp_queues (arp_table s) @ Q) x" for x
      using queues_update [OF l(1), of e x] c [of x] unfolding t by simp
    then show ?thesis using inv owned_cong unfolding arp_inv_def by blast
  qed
  moreover have "\<exists>ys. packet s' q ys" if q: "q \<in> set (arp_queues (arp_table s'))" for q
  proof -
    have "q \<in> set (arp_queues (arp_table s)) \<or> e_q e = Some q"
      using q set_update_subset_insert [of "arp_table s" i e] unfolding t by (auto simp: arp_queues_def queue_of_def split: option.splits)
    then show ?thesis using inv p [of q] pb_cong(5) [OF k(1), of q] unfolding arp_inv_def by blast
  qed
  ultimately show ?thesis using k(4) by (simp add: arp_inv_def)
qed


text \<open>The entries in the order in which a place is chosen among them: free, stable, pending, pending with a packet.\<close>

definition entry_class :: "etharp_entry \<Rightarrow> nat" where
  "entry_class e = (if e_state e = ETHARP_STATE_EMPTY then 0 else if ETHARP_STATE_STABLE \<le> e_state e then 1
     else if e_q e = None then 2 else 3)"

definition slot_ok :: "etharp_entry list \<Rightarrow> nat set \<Rightarrow> nat \<Rightarrow> nat \<Rightarrow> u16 \<Rightarrow> bool" where
  "slot_ok t J c x a \<longleftrightarrow> (x = ARP_TABLE_SIZE \<and> a = 0 \<and> (\<forall>j \<in> J. entry_class (t ! j) \<noteq> c)) \<or>
     (x \<in> J \<and> x < ARP_TABLE_SIZE \<and> entry_class (t ! x) = c \<and> a = e_ctime (t ! x) \<and>
      (\<forall>j \<in> J. entry_class (t ! j) = c \<longrightarrow> e_ctime (t ! j) \<le> a))"

lemma slot_take: "slot_ok t J c x a \<Longrightarrow> i < ARP_TABLE_SIZE \<Longrightarrow> entry_class (t ! i) = c \<Longrightarrow> a \<le> e_ctime (t ! i) \<Longrightarrow> slot_ok t (insert i J) c i (e_ctime (t ! i))"
  by (auto simp: slot_ok_def dest: order_trans)

lemma slot_keep: "slot_ok t J c x a \<Longrightarrow> entry_class (t ! i) \<noteq> c \<or> \<not> a \<le> e_ctime (t ! i) \<Longrightarrow> slot_ok t (insert i J) c x a"
  by (auto simp: slot_ok_def)

definition empty_ok :: "etharp_entry list \<Rightarrow> nat set \<Rightarrow> nat \<Rightarrow> bool" where
  "empty_ok t J x \<longleftrightarrow> (x = ARP_TABLE_SIZE \<and> (\<forall>j \<in> J. entry_class (t ! j) \<noteq> 0)) \<or> (x < ARP_TABLE_SIZE \<and> entry_class (t ! x) = 0)"

lemma empty_step:
  "empty_ok t J x \<Longrightarrow> entry_class (t ! i) \<noteq> 0 \<or> x \<noteq> ARP_TABLE_SIZE \<Longrightarrow> empty_ok t (insert i J) x"
  "i < ARP_TABLE_SIZE \<Longrightarrow> entry_class (t ! i) = 0 \<Longrightarrow> empty_ok t (insert i J) i"
  by (auto simp: empty_ok_def)

definition cands_ok :: "etharp_entry list \<Rightarrow> nat set \<Rightarrow> cands \<Rightarrow> bool" where
  "cands_ok t J k \<longleftrightarrow> empty_ok t J (k_empty k) \<and> slot_ok t J 1 (k_stable k) (k_age_stable k) \<and>
     slot_ok t J 2 (k_pending k) (k_age_pending k) \<and> slot_ok t J 3 (k_queue k) (k_age_queue k)"

definition matches :: "u32 option \<Rightarrow> nif option \<Rightarrow> etharp_entry \<Rightarrow> bool" where
  "matches a n e \<longleftrightarrow> e_state e \<noteq> ETHARP_STATE_EMPTY \<and> a = Some (e_ipaddr e) \<and> (n = None \<or> n = e_netif e)"

lemma state_cases: "x = ETHARP_STATE_EMPTY \<or> x = ETHARP_STATE_PENDING \<or> ETHARP_STATE_STABLE \<le> x"
  by (cases x) (simp_all add: less_eq_etharp_state_def)

lemma not_stable [simp]: "\<not> ETHARP_STATE_STABLE \<le> ETHARP_STATE_EMPTY" "\<not> ETHARP_STATE_STABLE \<le> ETHARP_STATE_PENDING"
  by (simp_all add: less_eq_etharp_state_def)

lemma class_simps:
  "entry_class e = 0 \<longleftrightarrow> e_state e = ETHARP_STATE_EMPTY"
  "entry_class e = Suc 0 \<longleftrightarrow> ETHARP_STATE_STABLE \<le> e_state e"
  "entry_class e = 2 \<longleftrightarrow> e_state e = ETHARP_STATE_PENDING \<and> e_q e = None"
  "entry_class e = 3 \<longleftrightarrow> e_state e = ETHARP_STATE_PENDING \<and> e_q e \<noteq> None"
  using state_cases [of "e_state e"] by (auto simp: entry_class_def)

lemma find_loop:
  assumes "cands_ok (arp_table s) J k" "\<forall>i \<in> set is. i < ARP_TABLE_SIZE"
  shows "(\<exists>i. find_entry_loop a n is k s = (Inl i, s) \<and> i \<in> set is \<and> matches a n (arp_table s ! i)) \<or>
    (\<exists>k'. find_entry_loop a n is k s = (Inr k', s) \<and> cands_ok (arp_table s) (J \<union> set is) k' \<and> (\<forall>i \<in> set is. \<not> matches a n (arp_table s ! i)))"
  using assms
proof (induction "is" arbitrary: J k)
  case (Cons i "is")
  define e where "e = arp_table s ! i"
  have i: "i < ARP_TABLE_SIZE" using Cons.prems(2) by simp
  note st = state_cases [of "e_state e"]
  define k' where "k' = (if k_empty k = ARP_TABLE_SIZE \<and> e_state e = ETHARP_STATE_EMPTY then k\<lparr>k_empty := i\<rparr>
    else if entry_class e = 3 \<and> k_age_queue k \<le> e_ctime e then k\<lparr>k_queue := i, k_age_queue := e_ctime e\<rparr>
    else if entry_class e = 2 \<and> k_age_pending k \<le> e_ctime e then k\<lparr>k_pending := i, k_age_pending := e_ctime e\<rparr>
    else if entry_class e = 1 \<and> k_age_stable k \<le> e_ctime e then k\<lparr>k_stable := i, k_age_stable := e_ctime e\<rparr> else k)"
  have step: "find_entry_loop a n (i # is) k s = (if matches a n e then (Inl i, s) else find_entry_loop a n is k' s)"
    using st by (auto simp: e_def [symmetric] k'_def matches_def class_simps Let_def LWIP_ASSERT_def)
  have "cands_ok (arp_table s) (insert i J) k'"
    unfolding cands_ok_def
  proof (intro conjI)
    note c = Cons.prems(1) [unfolded cands_ok_def]
    show "empty_ok (arp_table s) (insert i J) (k_empty k')"
      using c i empty_step(1) [of "arp_table s" J "k_empty k" i] empty_step(2) [of i "arp_table s" J] by (auto simp: k'_def e_def [symmetric] class_simps)
    show "slot_ok (arp_table s) (insert i J) 1 (k_stable k') (k_age_stable k')"
      using c i slot_take [of "arp_table s" J 1 "k_stable k" "k_age_stable k" i] slot_keep [of "arp_table s" J 1 "k_stable k" "k_age_stable k" i]
      by (auto simp: k'_def e_def [symmetric] class_simps)
    show "slot_ok (arp_table s) (insert i J) 2 (k_pending k') (k_age_pending k')"
      using c i slot_take [of "arp_table s" J 2 "k_pending k" "k_age_pending k" i] slot_keep [of "arp_table s" J 2 "k_pending k" "k_age_pending k" i]
      by (auto simp: k'_def e_def [symmetric] class_simps)
    show "slot_ok (arp_table s) (insert i J) 3 (k_queue k') (k_age_queue k')"
      using c i slot_take [of "arp_table s" J 3 "k_queue k" "k_age_queue k" i] slot_keep [of "arp_table s" J 3 "k_queue k" "k_age_queue k" i]
      by (auto simp: k'_def e_def [symmetric] class_simps)
  qed
  from Cons.IH [OF this] Cons.prems(2) show ?case
    unfolding step by (auto simp: e_def)
qed (simp add: cands_ok_def)


lemma arp_inv_via:
  assumes "arp_inv u Q" "arp_table s' = arp_table u" "etharp_cached_entry s' = etharp_cached_entry u" "netifs s' = netifs u"
    "owned s' (arp_queues (arp_table u) @ R)" "\<forall>q \<in> set (arp_queues (arp_table u)). \<forall>ys. packet u q ys \<longrightarrow> packet s' q ys"
  shows "arp_inv s' R"
proof -
  have "entry_ok s' e = entry_ok u e" for e using assms(4) by (simp add: entry_ok_def netif_ok_def)
  moreover have "\<forall>q \<in> set (arp_queues (arp_table u)). \<exists>ys. packet s' q ys" using assms(1,6) unfolding arp_inv_def by blast
  ultimately show ?thesis using assms by (simp add: arp_inv_def arp_table_ok_def)
qed

lemma arp_invD:
  assumes "arp_inv s R"
  shows "length (arp_table s) = ARP_TABLE_SIZE" "i < ARP_TABLE_SIZE \<Longrightarrow> entry_ok s (arp_table s ! i)" "unique_keys (arp_table s)"
    "owned s (arp_queues (arp_table s) @ R)" "i < ARP_TABLE_SIZE \<Longrightarrow> e_q (arp_table s ! i) = Some q \<Longrightarrow> \<exists>ys. packet s q ys"
    "i < ARP_TABLE_SIZE \<Longrightarrow> j < ARP_TABLE_SIZE \<Longrightarrow> i \<noteq> j \<Longrightarrow> \<not> same_key (arp_table s ! i) (arp_table s ! j)"
    "unat (etharp_cached_entry s) < ARP_TABLE_SIZE"
proof -
  show l: "length (arp_table s) = ARP_TABLE_SIZE" "i < ARP_TABLE_SIZE \<Longrightarrow> entry_ok s (arp_table s ! i)" "unique_keys (arp_table s)"
    "owned s (arp_queues (arp_table s) @ R)" "unat (etharp_cached_entry s) < ARP_TABLE_SIZE"
    using assms by (simp_all add: arp_inv_def arp_table_ok_def)
  show "i < ARP_TABLE_SIZE \<Longrightarrow> j < ARP_TABLE_SIZE \<Longrightarrow> i \<noteq> j \<Longrightarrow> \<not> same_key (arp_table s ! i) (arp_table s ! j)"
    using l by (simp add: unique_keys_def)
  show "\<exists>ys. packet s q ys" if iq: "i < ARP_TABLE_SIZE" "e_q (arp_table s ! i) = Some q"
  proof -
    have "arp_table s ! i \<in> set (arp_table s)" using iq l by simp
    then have "q \<in> set (arp_queues (arp_table s))" using iq(2) by (force simp: arp_queues_def queue_of_def)
    then show ?thesis using assms unfolding arp_inv_def by blast
  qed
qed

text \<open>Changing an entry in a way that keeps its key and its queue.\<close>

lemma arp_inv_modify:
  assumes inv: "arp_inv s R" and i: "i < ARP_TABLE_SIZE" and e: "entry_ok s (f (arp_table s ! i))"
    and k: "\<And>j. j < ARP_TABLE_SIZE \<Longrightarrow> j \<noteq> i \<Longrightarrow> \<not> same_key (f (arp_table s ! i)) (arp_table s ! j)"
    and q: "e_q (f (arp_table s ! i)) = e_q (arp_table s ! i)"
  shows "arp_to R s (upd_entry i f s)"
proof -
  note D = arp_invD [OF inv]
  have u: "unique_keys ((arp_table s)[i := f (arp_table s ! i)])" using unique_keys_upd [OF D(3), of i] i k D(1) by simp
  have "arp_inv (upd_entry i f s) R"
    by (rule arp_inv_entry [OF inv i e u]) (use q D(5) i in \<open>simp_all add: queue_of_def fun_eq_iff\<close>)
  then show ?thesis by (simp add: arp_to_def)
qed

lemma table_frame [simp]:
  fixes s :: "'a arp_scheme"
  shows "owned (s\<lparr>arp_table := t\<rparr>) Q = owned s Q" "packet (s\<lparr>arp_table := t\<rparr>) q ys = packet s q ys"
proof -
  have m: "same_mem (s\<lparr>arp_table := t\<rparr>) s" by (simp add: same_mem_def)
  show "owned (s\<lparr>arp_table := t\<rparr>) Q = owned s Q" using same_mem(3) [OF m] by simp
  show "packet (s\<lparr>arp_table := t\<rparr>) q ys = packet s q ys" by (rule pb_cong(5)) simp
qed

text \<open>Freeing an entry, also one that has just grown too old.\<close>

lemma free_entry_aged:
  fixes g :: "u16 \<Rightarrow> u16"
  assumes inv: "arp_inv s R" and i: "i < ARP_TABLE_SIZE"
  defines "e \<equiv> e_ctime_update g (arp_table s ! i)\<lparr>e_q := None, e_state := ETHARP_STATE_EMPTY\<rparr>"
  shows "\<exists>s'. etharp_free_entry H i (upd_entry i (e_ctime_update g) s) = Some s' \<and> arp_to R s s' \<and> arp_table s' = (arp_table s)[i := e] \<and>
    etharp_cached_entry s' = etharp_cached_entry s"
proof -
  note D = arp_invD [OF inv]
  define a where "a = upd_entry i (e_ctime_update g) s"
  define u where "u = upd_entry i (\<lambda>_. e) s"
  have eo: "entry_ok s e" by (simp add: e_def entry_ok_def)
  have uk: "unique_keys ((arp_table s)[i := e])" using unique_keys_upd [OF D(3), of i e] i D(1) by (simp add: e_def same_key_def)
  have u: "arp_inv u (queue_of (arp_table s ! i) @ R)"
    by (rule arp_inv_entry [OF inv i eo uk]) (simp_all add: u_def queue_of_def e_def fun_eq_iff)
  have "\<exists>s1. (case e_q (arp_table s ! i) of None \<Rightarrow> Some a | Some q \<Rightarrow> do {
           (_, s) \<leftarrow> pbuf_free (lk_free H) (Some q) a;
           Some (upd_entry i (e_q_update (\<lambda>_. None)) s) }) = Some s1 \<and> calm (arp_queues (arp_table u) @ R) u (s1\<lparr>arp_table := arp_table u\<rparr>) \<and>
      arp_table s1 = (arp_table s)[i := e_ctime_update g (arp_table s ! i)\<lparr>e_q := None\<rparr>]"
  proof (cases "e_q (arp_table s ! i)")
    case None
    have "calm (arp_queues (arp_table u) @ R) u (a\<lparr>arp_table := arp_table u\<rparr>)"
      unfolding calm_def using arp_invD(4) [OF u] None by (simp add: queue_of_def u_def a_def upd_entry_def)
    moreover have "arp_table a = (arp_table s)[i := e_ctime_update g (arp_table s ! i)\<lparr>e_q := None\<rparr>]"
      using None by (cases "arp_table s ! i") (simp add: a_def)
    ultimately show ?thesis using None by simp
  next
    case (Some q)
    have "owned a (q # arp_queues (arp_table u) @ R)"
      using arp_invD(4) [OF u] owned_cong [of "q # arp_queues (arp_table u) @ R" "arp_queues (arp_table u) @ q # R" u] Some
      by (simp add: u_def a_def queue_of_def)
    then obtain n s1 where s1: "pbuf_free (lk_free H) (Some q) a = Some (n, s1)" "calm (arp_queues (arp_table u) @ R) a s1"
      using free_calm by blast
    note c = s1(2) [unfolded calm_def]
    define s2 where "s2 = upd_entry i (e_q_update (\<lambda>_. None)) s1"
    have "arp_table s2 = (arp_table s)[i := e_ctime_update g (arp_table s ! i)\<lparr>e_q := None\<rparr>]"
      using c i D(1) by (simp add: s2_def a_def)
    moreover have "calm (arp_queues (arp_table u) @ R) u (s2\<lparr>arp_table := arp_table u\<rparr>)"
      using c unfolding calm_def by (simp add: s2_def u_def a_def)
    ultimately show ?thesis using Some s1(1) unfolding s2_def by auto
  qed
  then obtain s1 where s1: "(case e_q (arp_table s ! i) of None \<Rightarrow> Some a | Some q \<Rightarrow> do {
           (_, s) \<leftarrow> pbuf_free (lk_free H) (Some q) a;
           Some (upd_entry i (e_q_update (\<lambda>_. None)) s) }) = Some s1" "calm (arp_queues (arp_table u) @ R) u (s1\<lparr>arp_table := arp_table u\<rparr>)"
      "arp_table s1 = (arp_table s)[i := e_ctime_update g (arp_table s ! i)\<lparr>e_q := None\<rparr>]" by blast
  note c = s1(2) [unfolded calm_def]
  define s' where "s' = upd_entry i (e_state_update (\<lambda>_. ETHARP_STATE_EMPTY)) s1"
  have t: "arp_table s' = (arp_table s)[i := e]" using s1(3) i D(1) by (simp add: s'_def e_def)
  then have "s' = s1\<lparr>arp_table := arp_table u\<rparr>" by (simp add: s'_def u_def upd_entry_def)
  with c have c': "calm (arp_queues (arp_table u) @ R) u s'" by (simp add: calm_def)
  note d = c' [unfolded calm_def]
  have "arp_inv s' R" by (rule arp_inv_via [OF u]) (use d in simp_all)
  then have "arp_to R s s'" using d by (simp add: arp_to_def u_def)
  moreover have "etharp_free_entry H i (upd_entry i (e_ctime_update g) s) = Some s'"
    using s1(1) [unfolded a_def] i D(1) by (simp add: etharp_free_entry_def s'_def)
  ultimately show ?thesis using t d by (simp add: u_def)
qed

lemma free_entry_ok:
  assumes "arp_inv s R" "i < ARP_TABLE_SIZE"
  shows "\<exists>s'. etharp_free_entry H i s = Some s' \<and> arp_to R s s' \<and>
    arp_table s' = (arp_table s)[i := (arp_table s ! i)\<lparr>e_q := None, e_state := ETHARP_STATE_EMPTY\<rparr>] \<and>
    etharp_cached_entry s' = etharp_cached_entry s"
proof -
  have c: "e_ctime_update (\<lambda>x. x) e = e" for e :: etharp_entry by (cases e) simp
  show ?thesis using free_entry_aged [OF assms, of H "\<lambda>x. x"] by (simp add: upd_entry_def c)
qed

text \<open>The entry found for an address, and the place chosen for a new one.\<close>

definition best :: "etharp_entry list \<Rightarrow> nat \<Rightarrow> bool" where
  "best t i \<longleftrightarrow> i < length t \<and> (\<forall>j < length t. entry_class (t ! i) < entry_class (t ! j) \<or>
     entry_class (t ! i) = entry_class (t ! j) \<and> (entry_class (t ! i) = 0 \<or> e_ctime (t ! j) \<le> e_ctime (t ! i)))"

lemma class_le: "entry_class e \<le> 3"
  by (simp add: entry_class_def)

lemma slot_best:
  assumes "slot_ok t {0..<length t} c x a" "length t = ARP_TABLE_SIZE" "\<forall>j < length t. c \<le> entry_class (t ! j)"
  shows "x < ARP_TABLE_SIZE \<Longrightarrow> best t x \<and> entry_class (t ! x) = c" "\<not> x < ARP_TABLE_SIZE \<Longrightarrow> \<forall>j < length t. Suc c \<le> entry_class (t ! j)"
proof -
  show "best t x \<and> entry_class (t ! x) = c" if x: "x < ARP_TABLE_SIZE"
  proof -
    have k: "entry_class (t ! x) = c" "\<forall>j < length t. entry_class (t ! j) = c \<longrightarrow> e_ctime (t ! j) \<le> e_ctime (t ! x)"
      using x assms(1) by (auto simp: slot_ok_def)
    then have "c < entry_class (t ! j) \<or> c = entry_class (t ! j) \<and> e_ctime (t ! j) \<le> e_ctime (t ! x)" if "j < length t" for j
      using that assms(3) by (metis le_neq_implies_less)
    then show ?thesis using k(1) x assms(2) unfolding best_def by auto
  qed
  show "\<forall>j < length t. Suc c \<le> entry_class (t ! j)" if x: "\<not> x < ARP_TABLE_SIZE"
  proof -
    have "\<forall>j < length t. entry_class (t ! j) \<noteq> c" using x assms(1) by (auto simp: slot_ok_def)
    then show ?thesis using assms(3) by (metis le_neq_implies_less Suc_leI)
  qed
qed

definition new_entry :: "u32 \<Rightarrow> nif \<Rightarrow> etharp_entry \<Rightarrow> etharp_entry" where
  "new_entry a n e = e\<lparr>e_q := None, e_ipaddr := a, e_netif := Some n, e_ctime := 0, e_state := ETHARP_STATE_EMPTY\<rparr>"

lemma find_new_ok:
  assumes inv: "arp_inv s R" and i: "i < ARP_TABLE_SIZE" and e: "e_state (arp_table s ! i) = ETHARP_STATE_EMPTY"
  shows "\<exists>s'. find_entry_new (Some a) (Some n) i s = (Inr i, s') \<and> arp_to R s s' \<and>
    arp_table s' = (arp_table s)[i := new_entry a n (arp_table s ! i)] \<and> etharp_cached_entry s' = etharp_cached_entry s"
proof -
  define e' where "e' = new_entry a n (arp_table s ! i)"
  have "e_q (arp_table s ! i) = None" using arp_invD(2) [OF inv i] e by (auto simp: entry_ok_def)
  then have f: "(arp_table s ! i)\<lparr>e_ipaddr := a, e_ctime := 0, e_netif := Some n\<rparr> = e'" "e_q (arp_table s ! i) = e_q e'"
    using e by (cases "arp_table s ! i"; simp add: e'_def new_entry_def)+
  have "arp_to R s (upd_entry i (\<lambda>_. e') s)"
    by (rule arp_inv_modify [OF inv i]) (use f(2) in \<open>simp_all add: e'_def new_entry_def entry_ok_def same_key_def\<close>)
  moreover have "find_entry_new (Some a) (Some n) i s = (Inr i, upd_entry i (\<lambda>_. e') s)"
    using i e f(1) arp_invD(1) [OF inv] by (simp add: find_entry_new_def LWIP_ASSERT_def upd_entry_def)
  ultimately show ?thesis using f by (simp add: e'_def)
qed

definition found :: "u32 \<Rightarrow> nif \<Rightarrow> 'a arp_scheme \<Rightarrow> nat \<Rightarrow> 'a arp_scheme \<Rightarrow> bool" where
  "found a n s i s' \<longleftrightarrow> i < ARP_TABLE_SIZE \<and>
     (matches (Some a) (Some n) (arp_table s ! i) \<and> s' = s \<or>
      (\<forall>j < ARP_TABLE_SIZE. \<not> matches (Some a) (Some n) (arp_table s ! j)) \<and> best (arp_table s) i \<and>
        arp_table s' = (arp_table s)[i := new_entry a n (arp_table s ! i)])"

lemma find_entry_ok:
  assumes inv: "arp_inv s R"
  shows "\<exists>r s'. etharp_find_entry H (Some a) flags (Some n) s = Some (r, s') \<and> arp_to R s s' \<and> etharp_cached_entry s' = etharp_cached_entry s \<and>
    (case r of Inr i \<Rightarrow> found a n s i s' | Inl e \<Rightarrow> e = ERR_MEM \<and> s' = s \<and> (\<forall>j < ARP_TABLE_SIZE. \<not> matches (Some a) (Some n) (arp_table s ! j)) \<and>
       (flags AND ETHARP_FLAG_FIND_ONLY \<noteq> 0 \<or> flags AND ETHARP_FLAG_TRY_HARD = 0))"
proof -
  define k0 where "k0 = \<lparr>k_pending = ARP_TABLE_SIZE, k_stable = ARP_TABLE_SIZE, k_empty = ARP_TABLE_SIZE, k_queue = ARP_TABLE_SIZE,
    k_age_queue = 0, k_age_pending = 0, k_age_stable = 0\<rparr>"
  note D = arp_invD [OF inv]
  have "cands_ok (arp_table s) {} k0" by (simp add: k0_def cands_ok_def slot_ok_def empty_ok_def)
  from find_loop [OF this, of "[0..<ARP_TABLE_SIZE]" "Some a" "Some n"]
  consider i where "find_entry_loop (Some a) (Some n) [0..<ARP_TABLE_SIZE] k0 s = (Inl i, s)" "i < ARP_TABLE_SIZE"
      "matches (Some a) (Some n) (arp_table s ! i)"
    | k where "find_entry_loop (Some a) (Some n) [0..<ARP_TABLE_SIZE] k0 s = (Inr k, s)" "cands_ok (arp_table s) {0..<ARP_TABLE_SIZE} k"
      "\<forall>i < ARP_TABLE_SIZE. \<not> matches (Some a) (Some n) (arp_table s ! i)"
    by fastforce
  then show ?thesis
  proof cases
    case (1 i)
    then show ?thesis using arp_to_refl [OF inv]
      by (simp add: etharp_find_entry_def k0_def [symmetric] found_def)
  next
    case (2 k)
    note c = 2(2) [unfolded cands_ok_def, folded D(1)]
    define give_up where "give_up \<longleftrightarrow> flags AND ETHARP_FLAG_FIND_ONLY \<noteq> 0 \<or> k_empty k = ARP_TABLE_SIZE \<and> flags AND ETHARP_FLAG_TRY_HARD = 0"
    consider "give_up" | "\<not> give_up" "k_empty k < ARP_TABLE_SIZE" | "\<not> give_up" "k_empty k = ARP_TABLE_SIZE"
      using c by (auto simp: empty_ok_def D(1))
    then show ?thesis
    proof cases
      case 1
      then have "etharp_find_entry H (Some a) flags (Some n) s = Some (Inl ERR_MEM, s)"
        using 2(1) by (simp add: etharp_find_entry_def k0_def [symmetric] give_up_def)
      then show ?thesis using arp_to_refl [OF inv] 1 2(3) by (auto simp: give_up_def)
    next
      case b: 2
      then have e: "entry_class (arp_table s ! k_empty k) = 0" using c by (auto simp: empty_ok_def D(1))
      have "best (arp_table s) (k_empty k)" using b(2) e D(1) by (auto simp: best_def)
      with find_new_ok [OF inv b(2)] b 2 e show ?thesis
        by (fastforce simp: etharp_find_entry_def k0_def [symmetric] give_up_def class_simps found_def)
    next
      case b: 3
      have c0: "\<forall>j < length (arp_table s). 1 \<le> entry_class (arp_table s ! j)"
        using c b(2) D(1) by (auto simp: empty_ok_def Suc_le_eq)
      define i where "i = (if k_stable k < ARP_TABLE_SIZE then k_stable k else if k_pending k < ARP_TABLE_SIZE then k_pending k else k_queue k)"
      note s1 = slot_best [OF conjunct1 [OF conjunct2 [OF c]] D(1) c0]
      note s2 = slot_best [OF conjunct1 [OF conjunct2 [OF conjunct2 [OF c]]] D(1)]
      note s3 = slot_best [OF conjunct2 [OF conjunct2 [OF conjunct2 [OF c]]] D(1)]
      have l3: "\<not> (\<forall>j < length (arp_table s). 4 \<le> entry_class (arp_table s ! j))"
        using class_le [of "arp_table s ! 0"] D(1) by (intro notI) (fastforce simp: ARP_TABLE_SIZE_def dest: spec [of _ 0])
      have i: "best (arp_table s) i" "i < ARP_TABLE_SIZE" "k_stable k < ARP_TABLE_SIZE \<Longrightarrow> entry_class (arp_table s ! k_stable k) = 1"
        "\<not> k_stable k < ARP_TABLE_SIZE \<Longrightarrow> \<not> k_pending k < ARP_TABLE_SIZE \<Longrightarrow> k_queue k < ARP_TABLE_SIZE"
        using s1 s2 s3 l3 by (auto simp: i_def numeral_eq_Suc)
      obtain s1 where s1: "etharp_free_entry H i s = Some s1" "arp_to R s s1"
        "arp_table s1 = (arp_table s)[i := (arp_table s ! i)\<lparr>e_q := None, e_state := ETHARP_STATE_EMPTY\<rparr>]"
        "etharp_cached_entry s1 = etharp_cached_entry s"
        using free_entry_ok [OF inv i(2)] by blast
      have "arp_inv s1 R" "e_state (arp_table s1 ! i) = ETHARP_STATE_EMPTY" using s1(2,3) i(2) D(1) by (simp_all add: arp_to_def)
      from find_new_ok [OF this(1) i(2) this(2)]
      obtain s' where s': "find_entry_new (Some a) (Some n) i s1 = (Inr i, s')" "arp_to R s1 s'"
        "arp_table s' = (arp_table s1)[i := new_entry a n (arp_table s1 ! i)]" "etharp_cached_entry s' = etharp_cached_entry s1" by blast
      have q: "e_q (arp_table s ! k_stable k) = None" if y: "k_stable k < ARP_TABLE_SIZE"
        using i(3) [OF y] D(2) [OF y] by (auto simp: class_simps entry_ok_def)
      have "etharp_find_entry H (Some a) flags (Some n) s = Some (Inr i, s')"
        using 2(1) b s1(1) s'(1) i q by (simp add: etharp_find_entry_def k0_def [symmetric] give_up_def i_def LWIP_ASSERT_def split: if_splits)
      moreover have "found a n s i s'" using 2(3) i s'(3) s1(3) D(1) by (simp add: found_def new_entry_def)
      ultimately show ?thesis using arp_to_trans [OF s1(2) s'(2)] s1(4) s'(4) by simp
    qed
  qed
qed


lemma find_entry_cases:
  assumes "arp_inv s R"
  obtains (entry) i s' where "etharp_find_entry H (Some a) flags (Some n) s = Some (Inr i, s')" "arp_to R s s'" "found a n s i s'"
      "etharp_cached_entry s' = etharp_cached_entry s"
    | (none) "etharp_find_entry H (Some a) flags (Some n) s = Some (Inl ERR_MEM, s)"
      "\<forall>j < ARP_TABLE_SIZE. \<not> matches (Some a) (Some n) (arp_table s ! j)"
      "flags AND ETHARP_FLAG_FIND_ONLY \<noteq> 0 \<or> flags AND ETHARP_FLAG_TRY_HARD = 0"
proof -
  obtain r s' where *: "etharp_find_entry H (Some a) flags (Some n) s = Some (r, s')" "arp_to R s s'" "etharp_cached_entry s' = etharp_cached_entry s"
    "case r of Inr i \<Rightarrow> found a n s i s' | Inl e \<Rightarrow> e = ERR_MEM \<and> s' = s \<and> (\<forall>j < ARP_TABLE_SIZE. \<not> matches (Some a) (Some n) (arp_table s ! j)) \<and>
       (flags AND ETHARP_FLAG_FIND_ONLY \<noteq> 0 \<or> flags AND ETHARP_FLAG_TRY_HARD = 0)"
    using find_entry_ok [OF assms, of H a flags n] by blast
  then show ?thesis using entry none by (cases r) simp_all
qed

end
