(* ===== verification/Etharp_Ops.thy ===== *)
theory Etharp_Ops
  imports Etharp_Table
begin

text \<open>
  The operations of \<^verbatim>\<open>lwip/src/core/ipv4/etharp.c\<close> on the table keep its invariant: updating an
  entry, keeping a packet on one, sending to one.
\<close>


section \<open>The operations on the table\<close>

lemma free_ok:
  assumes inv: "arp_inv s (p # R)"
  shows "\<exists>n s'. pbuf_free cf (Some p) s = Some (n, s') \<and> arp_to R s s' \<and> arp_table s' = arp_table s \<and> etharp_cached_entry s' = etharp_cached_entry s"
proof -
  have "owned s (p # arp_queues (arp_table s) @ R)"
    using arp_invD(4) [OF inv] owned_cong [of "p # arp_queues (arp_table s) @ R" "arp_queues (arp_table s) @ p # R" s] by simp
  then obtain n s' where s': "pbuf_free cf (Some p) s = Some (n, s')" "calm (arp_queues (arp_table s) @ R) s s'"
    using free_calm by blast
  note c = s'(2) [unfolded calm_def]
  have "arp_inv s' R" by (rule arp_inv_via [OF inv]) (use c in simp_all)
  then have "arp_to R s s'" using c by (simp add: arp_to_def)
  with s'(1) c show ?thesis by blast
qed

lemma send_ok:
  assumes H: "output_ok H" and inv: "arp_inv s R" and p: "p \<in> set R" "packet s p xs" and n: "netif_ok s n" and hw: "hw6 s src" "hw6 s dst"
  shows "\<exists>e s'. ethernet_output H n p src dst ty s = Some (e, s') \<and> arp_to R s s' \<and> arp_table s' = arp_table s \<and> etharp_cached_entry s' = etharp_cached_entry s"
proof -
  obtain e s' where s': "ethernet_output H n p src dst ty s = Some (e, s')" "calm (arp_queues (arp_table s) @ R) s s'"
    using ethernet_output_calm [OF H arp_invD(4) [OF inv] _ p(2) n hw, of ty] p(1) by auto
  then show ?thesis using calm_arp [OF inv s'(2)] by blast
qed

lemma raw_ok:
  assumes H: "output_ok H" and inv: "arp_inv s R" and n: "netif_ok s n" and hw: "hw6 s hwsrc" "hw6 s hwdst" "hw6 s ethsrc" "hw6 s ethdst"
  shows "\<exists>e s'. etharp_raw H n ethsrc ethdst hwsrc ipsrc hwdst ipdst opcode s = Some (e, s') \<and> arp_to R s s' \<and> arp_table s' = arp_table s \<and>
    etharp_cached_entry s' = etharp_cached_entry s"
proof -
  obtain e s' where s': "etharp_raw H n ethsrc ethdst hwsrc ipsrc hwdst ipdst opcode s = Some (e, s')" "calm (arp_queues (arp_table s) @ R) s s'"
    using etharp_raw_calm [OF H arp_invD(4) [OF inv] n hw] by blast
  then show ?thesis using calm_arp [OF inv s'(2)] by blast
qed

lemma request_ok:
  assumes H: "output_ok H" and inv: "arp_inv s R" and n: "netif_ok s n"
  shows "hw6 s dst \<Longrightarrow> \<exists>e s'. etharp_request_dst H n a dst s = Some (e, s') \<and> arp_to R s s' \<and> arp_table s' = arp_table s \<and>
      etharp_cached_entry s' = etharp_cached_entry s"
    "\<exists>e s'. etharp_request H n a s = Some (e, s') \<and> arp_to R s s' \<and> arp_table s' = arp_table s \<and> etharp_cached_entry s' = etharp_cached_entry s"
  using raw_ok [OF H inv n] n by (simp_all add: etharp_request_def etharp_request_dst_def)

lemma arp_toD:
  assumes "arp_to R s s'"
  shows "arp_inv s' R" "p \<in> set R \<Longrightarrow> packet s p xs \<Longrightarrow> packet s' p xs" "netif_ok s' n = netif_ok s n" "diag s' = diag s" "netifs s' = netifs s"
    "entry_ok s' e = entry_ok s e"
  using assms by (simp_all add: arp_to_def netif_ok_def entry_ok_def)

lemma found_key:
  assumes inv: "arp_inv s R" and f: "found a n s i s'"
  shows "e_ipaddr (arp_table s' ! i) = a" "e_netif (arp_table s' ! i) = Some n"
    "j < ARP_TABLE_SIZE \<Longrightarrow> j \<noteq> i \<Longrightarrow> \<not> matches (Some a) (Some n) (arp_table s' ! j)" "i < ARP_TABLE_SIZE"
proof -
  note D = arp_invD [OF inv]
  show i: "i < ARP_TABLE_SIZE" using f by (simp add: found_def)
  show "e_ipaddr (arp_table s' ! i) = a" "e_netif (arp_table s' ! i) = Some n"
    using f i D(1) by (auto simp: found_def matches_def new_entry_def)
  show "\<not> matches (Some a) (Some n) (arp_table s' ! j)" if j: "j < ARP_TABLE_SIZE" "j \<noteq> i"
  proof -
    have "arp_table s' ! j = arp_table s ! j" using f j by (auto simp: found_def)
    then show ?thesis
      using f j D(6) [OF i j(1) j(2) [symmetric]] unfolding found_def by (auto simp: matches_def same_key_def)
  qed
qed

text \<open>An entry that has the key looked for clashes with no other.\<close>

lemma found_apart:
  assumes "arp_inv s R" "found a n s i s'" "e_ipaddr e = a" "e_netif e = Some n" "j < ARP_TABLE_SIZE" "j \<noteq> i"
  shows "\<not> same_key e (arp_table s' ! j)"
  using found_key(3) [OF assms(1,2,5,6)] assms(3,4) by (auto simp: matches_def same_key_def)

definition stable_entry :: "u32 \<Rightarrow> nif \<Rightarrow> u8 list \<Rightarrow> etharp_entry" where
  "stable_entry a n m = \<lparr>e_q = None, e_ipaddr = a, e_netif = Some n, e_ethaddr = m, e_ctime = 0, e_state = ETHARP_STATE_STABLE\<rparr>"

lemma stable_entry_ok: "netif_ok s n \<Longrightarrow> length m = 6 \<Longrightarrow> entry_ok s (stable_entry a n m)"
  by (simp add: entry_ok_def stable_entry_def ARP_MAXAGE_def)

definition arp_host :: "'a net_scheme \<Rightarrow> nif \<Rightarrow> u32 \<Rightarrow> bool" where
  "arp_host s n a \<longleftrightarrow> \<not> (a = IPADDR_ANY \<or> ip4_addr_isbroadcast_u32 a (netifs s n) \<or> ip4_addr_ismulticast a)"

lemma update_ok:
  assumes H: "output_ok H" and inv: "arp_inv s R" and n: "netif_ok s n" and hw: "\<And>t. length (r t) = 6"
  shows "\<exists>e s'. etharp_update_arp_entry H n a r flags s = Some (e, s') \<and> arp_to R s s' \<and>
    (if arp_host s n a then
       case etharp_find_entry H (Some a) flags (Some n) s of Some (Inr i, s1) \<Rightarrow> e = ERR_OK \<and> found a n s i s1 \<and>
           (\<exists>t. arp_table s' = (arp_table s1)[i := stable_entry a n (r t)])
       | _ \<Rightarrow> e = ERR_MEM \<and> s' = s
     else e = ERR_ARG \<and> s' = s)"
proof -
  have l: "LWIP_ASSERT m (unat (nf_hwaddr_len (netifs s n)) = ETH_HWADDR_LEN) s = s" for m
    using n by (simp add: netif_ok_def LWIP_ASSERT_def)
  show ?thesis
  proof (cases "arp_host s n a")
    case False
    then show ?thesis using arp_to_refl [OF inv] by (auto simp: etharp_update_arp_entry_def l arp_host_def)
  next
    case host: True
    from inv show ?thesis
    proof (cases rule: find_entry_cases [of s R H a flags n])
      case none
      then show ?thesis using host arp_to_refl [OF inv] by (simp add: etharp_update_arp_entry_def l arp_host_def)
    next
      case f: (entry i s1)
      note fd = f(3)
      note k = found_key [OF inv fd]
      note A = arp_toD [OF f(2)]
      note D = arp_invD [OF A(1)]
      define s2 where "s2 = upd_entry i (e_netif_update (\<lambda>_. Some n)) (upd_entry i (e_state_update (\<lambda>_. ETHARP_STATE_STABLE)) s1)"
      define q where "q = e_q (arp_table s1 ! i)"
      define s4 where "s4 = upd_entry i (e_ctime_update (\<lambda>_. 0)) (upd_entry i (e_ethaddr_update (\<lambda>_. r s2)) s2)"
      define u where "u = upd_entry i (e_q_update (\<lambda>_. None)) s4"
      have t: "arp_table u = (arp_table s1)[i := stable_entry a n (r s2)]"
        using k D(1) by (cases "arp_table s1 ! i") (simp add: u_def s4_def s2_def stable_entry_def)
      have e: "entry_ok s1 (stable_entry a n (r s2))" using stable_entry_ok hw n A(3) by blast
      have uk: "unique_keys ((arp_table s1)[i := stable_entry a n (r s2)])"
        using unique_keys_upd [OF D(3), of i] found_apart [OF inv fd, of "stable_entry a n (r s2)"] k(4) D(1) by (simp add: stable_entry_def)
      have u: "arp_inv u (queue_of (arp_table s1 ! i) @ R)"
        by (rule arp_inv_entry [OF A(1) k(4) e uk t]) (simp_all add: u_def s4_def s2_def fun_eq_iff queue_of_def stable_entry_def)
      have us: "packet u = packet s1" "netifs u = netifs s1" "diag u = diag s1" by (simp_all add: u_def s4_def s2_def fun_eq_iff)
      have ev: "etharp_update_arp_entry H n a r flags s = (case q of None \<Rightarrow> Some (ERR_OK, u) | Some p \<Rightarrow> do {
           (_, s) \<leftarrow> ethernet_output H n p (netif_hwaddr n) r ETHTYPE_IP u;
           (_, s) \<leftarrow> pbuf_free (lk_free H) (Some p) s;
           Some (ERR_OK, s) })"
      proof -
        have "q = None \<Longrightarrow> u = s4"
          using k(4) D(1) by (cases "arp_table s1 ! i") (simp add: u_def s4_def s2_def q_def upd_entry_def)
        then show ?thesis
          using f(1) host by (simp add: etharp_update_arp_entry_def l arp_host_def Let_def s2_def [symmetric] s4_def [symmetric] u_def [symmetric]
            k(4) D(1) q_def [symmetric] split: option.split)
      qed
      have "\<exists>s'. etharp_update_arp_entry H n a r flags s = Some (ERR_OK, s') \<and> arp_to R u s' \<and> arp_table s' = arp_table u"
      proof (cases q)
        case None
        then show ?thesis using ev u us arp_to_refl [of u R] by (simp add: queue_of_def q_def)
      next
        case (Some p)
        have up: "arp_inv u (p # R)" using u Some by (simp add: q_def queue_of_def)
        obtain xs where xs: "packet u p xs" using D(5) [OF k(4)] Some us by (auto simp: q_def)
        have hw': "hw6 u r" "netif_ok u n" using hw n A(3) us by (simp_all add: hw6_def netif_ok_def)
        obtain e u1 where u1: "ethernet_output H n p (netif_hwaddr n) r ETHTYPE_IP u = Some (e, u1)" "arp_to (p # R) u u1" "arp_table u1 = arp_table u"
          using send_ok [OF H up _ xs hw'(2) _ hw'(1), of "netif_hwaddr n" ETHTYPE_IP] hw'(2) by auto
        obtain m s' where s': "pbuf_free (lk_free H) (Some p) u1 = Some (m, s')" "arp_to R u1 s'" "arp_table s' = arp_table u1"
          using free_ok [OF arp_toD(1) [OF u1(2)]] by blast
        have "arp_to R u s'" using u1(2) s'(2) by (simp add: arp_to_def)
        then show ?thesis using ev Some u1 s' by simp
      qed
      then obtain s' where s': "etharp_update_arp_entry H n a r flags s = Some (ERR_OK, s')" "arp_to R u s'" "arp_table s' = arp_table u" by blast
      have "arp_to R s s'" using f(2) s'(2) us by (simp add: arp_to_def)
      then show ?thesis using s' f(1) fd host t by auto
    qed
  qed
qed


text \<open>Keeping a packet on an entry.\<close>

lemma copy_loop_packet:
  assumes "pkt s p xs" "solid s xs"
  shows "\<exists>b. query_copy_loop p s = Some (b, s)"
  using assms
proof (induction xs arbitrary: p)
  case Nil
  then show ?case by (intro exI [of _ False]) (simp add: query_copy_loop.simps)
next
  case (Cons x xs)
  then obtain b where b: "p = Some x" "pb s x = Some b" "unat (p_tot_len b) = unat (p_len b) + pkt_len s xs" "pkt s (p_next b) xs" by auto
  have "p_len b \<noteq> p_tot_len b \<or> p_next b = None"
    using b(3,4) Cons.prems(2) by (cases xs) (auto dest: arg_cong [of _ _ unat])
  moreover obtain c where "query_copy_loop (p_next b) s = Some (c, s)" using Cons.IH [OF b(4)] Cons.prems(2) by auto
  ultimately show ?case using b(1,2) by (subst query_copy_loop.simps) (auto simp: LWIP_ASSERT_def)
qed

lemma keep_ok:
  assumes inv: "arp_inv s (p # R)" and p: "packet s p ys" and i: "i < ARP_TABLE_SIZE" and st: "e_state (arp_table s ! i) = ETHARP_STATE_PENDING"
  shows "\<exists>s1. (case e_q (arp_table s ! i) of None \<Rightarrow> Some s | Some old \<Rightarrow> do { (_, s) \<leftarrow> pbuf_free cf (Some old) s; Some s }) = Some s1 \<and>
    arp_to R s (upd_entry i (e_q_update (\<lambda>_. Some p)) s1)"
proof -
  note D = arp_invD [OF inv]
  define e where "e = (arp_table s ! i)\<lparr>e_q := Some p\<rparr>"
  define u where "u = upd_entry i (e_q_update (\<lambda>_. Some p)) s"
  have eo: "entry_ok s e" using D(2) [OF i] st by (simp add: e_def entry_ok_def)
  have t: "arp_table u = (arp_table s)[i := e]" by (simp add: u_def e_def)
  have uk: "unique_keys ((arp_table s)[i := e])"
    using unique_keys_upd [OF D(3), of i e] D(1) D(6) [OF i] i by (simp add: e_def same_key_def)
  have u: "arp_inv u (queue_of (arp_table s ! i) @ R)"
    by (rule arp_inv_entry [OF inv i eo uk t]) (use p in \<open>auto simp: u_def queue_of_def e_def fun_eq_iff\<close>)
  show ?thesis
  proof (cases "e_q (arp_table s ! i)")
    case None
    then show ?thesis using u by (simp add: u_def [symmetric] queue_of_def arp_to_def)
  next
    case (Some old)
    have "arp_inv u (old # R)" using u Some by (simp add: queue_of_def)
    then have "owned s (old # arp_queues (arp_table u) @ R)"
      using arp_invD(4) [of u "old # R"] owned_cong [of "old # arp_queues (arp_table u) @ R" "arp_queues (arp_table u) @ old # R" s]
      by (simp add: u_def)
    then obtain n s1 where s1: "pbuf_free cf (Some old) s = Some (n, s1)" "calm (arp_queues (arp_table u) @ R) s s1"
      using free_calm by blast
    note c = s1(2) [unfolded calm_def]
    have "arp_inv (upd_entry i (e_q_update (\<lambda>_. Some p)) s1) R"
      by (rule arp_inv_via [OF u]) (use c in \<open>simp_all add: u_def\<close>)
    then have "arp_to R s (upd_entry i (e_q_update (\<lambda>_. Some p)) s1)" using c by (simp add: arp_to_def)
    then show ?thesis using s1 Some by simp
  qed
qed

lemma queues_length: "length (arp_queues t) \<le> length t"
  by (induction t) (auto simp: arp_queues_def queue_of_def split: option.split)

lemma ref_ok:
  assumes inv: "arp_inv s R" and p: "packet s p xs" and c: "count_list R p < 200"
  shows "\<exists>s'. pbuf_ref (Some p) s = Some s' \<and> arp_inv s' (p # R) \<and> (\<forall>q ys. packet s q ys \<longrightarrow> packet s' q ys) \<and>
    arp_table s' = arp_table s \<and> etharp_cached_entry s' = etharp_cached_entry s \<and> netifs s' = netifs s \<and> diag s' = diag s"
proof -
  define s' where "s' = upd_pbuf p (p_ref_update (\<lambda>r. r + 1)) s"
  note D = arp_invD [OF inv]
  obtain b where b: "pb s p = Some b" using p by (cases xs) (auto simp: packet_def)
  have "count_list (arp_queues (arp_table s)) p \<le> 10"
    using count_le_length [of "arp_queues (arp_table s)" p] queues_length [of "arp_table s"] D(1) by (simp add: ARP_TABLE_SIZE_def)
  moreover have "preds s p = {}" using p by (simp add: packet_def)
  ultimately have "refs s p < 255" using ownedD(4) [OF D(4), of p] c by simp
  then have r: "pbuf_ref (Some p) s = Some s'" "owned s' (p # arp_queues (arp_table s) @ R)"
    using pbuf_ref_owned [OF D(4) b] by (simp_all add: s'_def)
  have m: "stack.more s' = stack.more s" "diag s' = diag s" by (simp_all add: s'_def upd_pbuf_def)
  note f = more_fields [OF m(1)]
  have k: "packet s' q ys" if "packet s q ys" for q ys
  proof (rule packet_refs [OF that])
    show "\<exists>k. pb s' y = map_option (p_ref_update k) (pb s y)" for y
      using shed_same [of s' y s] by (cases "y = p") (auto simp: s'_def upd_pbuf_def)
    show "preds s' q \<subseteq> preds s q" using b by (auto simp: preds_def s'_def upd_pbuf_def split: if_splits)
  qed
  have "owned s' (arp_queues (arp_table s) @ p # R)"
    using r(2) owned_cong [of "arp_queues (arp_table s) @ p # R" "p # arp_queues (arp_table s) @ R" s'] by simp
  then have "arp_inv s' (p # R)" by (intro arp_inv_via [OF inv f]) (use k in auto)
  then show ?thesis using r(1) f m k by blast
qed


lemma clone_arp:
  assumes inv: "arp_inv s R" and p: "packet s q xs"
  shows "\<exists>r s'. pbuf_clone cf l PBUF_RAM (Some q) s = Some (r, s') \<and> (\<forall>q ys. packet s q ys \<longrightarrow> packet s' q ys) \<and>
    arp_table s' = arp_table s \<and> etharp_cached_entry s' = etharp_cached_entry s \<and> netifs s' = netifs s \<and> diag s' = diag s \<and>
    (case r of None \<Rightarrow> arp_inv s' R | Some p \<Rightarrow> arp_inv s' (p # R) \<and> packet s' p [p])"
proof -
  note D = arp_invD [OF inv]
  have F: "pkt s (Some q) xs" "solid s xs" using p by (simp_all add: packet_def)
  have "placed s y" if y: "y \<in> set xs" for y
    using grounded_placed [OF D(4), of y] p linked_alloced [OF pkt_linked [OF F(1)] y] y by (auto simp: packet_def)
  then have "\<forall>y \<in> set xs. placed s y" by blast
  from clone_ok [OF D(4) F this, of cf l]
  obtain r s' where s': "pbuf_clone cf l PBUF_RAM (Some q) s = Some (r, s')" "diag s' = diag s" "stack.more s' = stack.more s"
    "r = None \<Longrightarrow> owned s' (arp_queues (arp_table s) @ R) \<and> pb s' = pb s"
    "\<And>p. r = Some p \<Longrightarrow> owned s' (p # arp_queues (arp_table s) @ R) \<and> fresh s s' [p] \<and> part s' 0 (Some p) [p]" by blast
  note f = more_fields [OF s'(3)]
  show ?thesis
  proof (cases r)
    case None
    have k: "packet s' q ys = packet s q ys" for q ys using pb_cong(5) [of s' s] s'(4) [OF None] by simp
    have "arp_inv s' R" by (rule arp_inv_via [OF inv f]) (use s'(4) [OF None] k in auto)
    then show ?thesis using s' f k None by auto
  next
    case (Some p)
    note c = s'(5) [OF Some]
    have k: "packet s' q ys" if "packet s q ys" for q ys using fresh_packet that c by blast
    have "owned s' (arp_queues (arp_table s) @ p # R)"
      using c owned_cong [of "arp_queues (arp_table s) @ p # R" "p # arp_queues (arp_table s) @ R" s'] by simp
    then have "arp_inv s' (p # R)" by (intro arp_inv_via [OF inv f]) (use k in auto)
    moreover have "packet s' p [p]" using new_packet(1) c by blast
    ultimately show ?thesis using s'(1,2) f k Some by auto
  qed
qed

lemma enqueue_ok:
  assumes inv: "arp_inv s R" and q: "packet s q xs" and c: "count_list R q < 200" and i: "i < ARP_TABLE_SIZE"
    and st: "e_state (arp_table s ! i) = ETHARP_STATE_PENDING"
  shows "\<exists>e s'. query_enqueue H i q s = Some (e, s') \<and> arp_to R s s'"
proof -
  obtain b where b: "query_copy_loop (Some q) s = Some (b, s)" using copy_loop_packet q unfolding packet_def by blast
  define pick where "pick = (if b then pbuf_clone (lk_free H) PBUF_LINK PBUF_RAM (Some q) s
    else do { s \<leftarrow> pbuf_ref (Some q) s; Some (Some q, s) })"
  have "\<exists>r s1. pick = Some (r, s1) \<and> (\<forall>q ys. packet s q ys \<longrightarrow> packet s1 q ys) \<and>
    arp_table s1 = arp_table s \<and> netifs s1 = netifs s \<and> diag s1 = diag s \<and>
    (case r of None \<Rightarrow> arp_inv s1 R | Some p \<Rightarrow> arp_inv s1 (p # R) \<and> (\<exists>ys. packet s1 p ys))"
  proof (cases b)
    case True
    obtain r s1 where s1: "pbuf_clone (lk_free H) PBUF_LINK PBUF_RAM (Some q) s = Some (r, s1)" "\<forall>q ys. packet s q ys \<longrightarrow> packet s1 q ys"
      "arp_table s1 = arp_table s" "netifs s1 = netifs s" "diag s1 = diag s"
      "case r of None \<Rightarrow> arp_inv s1 R | Some p \<Rightarrow> arp_inv s1 (p # R) \<and> packet s1 p [p]"
      using clone_arp [OF inv q, of "lk_free H" PBUF_LINK] by blast
    have "case r of None \<Rightarrow> arp_inv s1 R | Some p \<Rightarrow> arp_inv s1 (p # R) \<and> (\<exists>ys. packet s1 p ys)"
      using s1(6) by (cases r) auto
    then show ?thesis using True s1(1-5) unfolding pick_def by (intro exI [of _ r] exI [of _ s1]) simp
  next
    case False
    obtain s' where "pbuf_ref (Some q) s = Some s'" "arp_inv s' (q # R)" "\<forall>q ys. packet s q ys \<longrightarrow> packet s' q ys"
      "arp_table s' = arp_table s" "netifs s' = netifs s" "diag s' = diag s" using ref_ok [OF inv q c] by blast
    then show ?thesis using False q unfolding pick_def by (intro exI [of _ "Some q"] exI [of _ s']) auto
  qed
  then obtain r s1 where s1: "pick = Some (r, s1)" "\<forall>q ys. packet s q ys \<longrightarrow> packet s1 q ys"
    "arp_table s1 = arp_table s" "netifs s1 = netifs s" "diag s1 = diag s"
    "case r of None \<Rightarrow> arp_inv s1 R | Some p \<Rightarrow> arp_inv s1 (p # R) \<and> (\<exists>ys. packet s1 p ys)"
    by (elim exE conjE) (rule that; assumption)
  have ev: "query_enqueue H i q s = (case r of None \<Rightarrow> Some (ERR_MEM, ETHARP_STATS_INC st_memerr_update s1)
     | Some p \<Rightarrow> do {
         s \<leftarrow> (case e_q (arp_table s1 ! i) of None \<Rightarrow> Some s1
               | Some old \<Rightarrow> do { (_, s) \<leftarrow> pbuf_free (lk_free H) (Some old) s1; Some s });
         Some (ERR_OK, upd_entry i (e_q_update (\<lambda>_. Some p)) s)
       })"
    using b s1(1) unfolding pick_def query_enqueue_def by simp
  show ?thesis
  proof (cases r)
    case None
    then have i1: "arp_inv s1 R" using s1(6) by simp
    have "arp_inv (ETHARP_STATS_INC st_memerr_update s1) R"
      by (rule arp_inv_via [OF i1]) (use arp_invD(4) [OF i1] in simp_all)
    then have "arp_to R s (ETHARP_STATS_INC st_memerr_update s1)" using s1(2-5) by (simp add: arp_to_def)
    then show ?thesis using ev None by simp
  next
    case (Some p)
    then have "\<exists>ys. arp_inv s1 (p # R) \<and> packet s1 p ys" using s1(6) by simp
    then obtain ys where p: "arp_inv s1 (p # R)" "packet s1 p ys" by blast
    have "e_state (arp_table s1 ! i) = ETHARP_STATE_PENDING" using st s1(3) by simp
    from keep_ok [OF p i this, of "lk_free H"]
    obtain s2 where s2: "(case e_q (arp_table s1 ! i) of None \<Rightarrow> Some s1 | Some old \<Rightarrow> do { (_, s) \<leftarrow> pbuf_free (lk_free H) (Some old) s1; Some s }) = Some s2"
      "arp_to R s1 (upd_entry i (e_q_update (\<lambda>_. Some p)) s2)"
      by blast
    have "arp_to R s (upd_entry i (e_q_update (\<lambda>_. Some p)) s2)" using s2(2) s1(2-5) by (simp add: arp_to_def)
    then show ?thesis using ev s2(1) unfolding Some by simp
  qed
qed

lemma set_state_ok:
  assumes inv: "arp_inv s R" and i: "i < ARP_TABLE_SIZE" "ETHARP_STATE_STABLE \<le> e_state (arp_table s ! i)" "ETHARP_STATE_STABLE \<le> x"
  shows "arp_to R s (upd_entry i (e_state_update (\<lambda>_. x)) s)"
proof (rule arp_inv_modify [OF inv i(1)])
  have n: "e_state (arp_table s ! i) \<noteq> ETHARP_STATE_EMPTY" "e_state (arp_table s ! i) \<noteq> ETHARP_STATE_PENDING" "x \<noteq> ETHARP_STATE_EMPTY" "x \<noteq> ETHARP_STATE_PENDING"
    using i by auto
  show "entry_ok s ((arp_table s ! i)\<lparr>e_state := x\<rparr>)" using arp_invD(2) [OF inv i(1)] n i by (auto simp: entry_ok_def)
  show "\<not> same_key ((arp_table s ! i)\<lparr>e_state := x\<rparr>) (arp_table s ! j)" if "j < ARP_TABLE_SIZE" "j \<noteq> i" for j
    using arp_invD(6) [OF inv i(1) that(1)] that(2) n by (auto simp: same_key_def)
qed simp

lemma hw6_entry: "arp_inv s R \<Longrightarrow> i < ARP_TABLE_SIZE \<Longrightarrow> ETHARP_STATE_STABLE \<le> e_state (arp_table s ! i) \<Longrightarrow> hw6 s (arp_ethaddr i)"
  using arp_invD(2) [of s R i] by (simp add: hw6_def arp_ethaddr_def entry_ok_def)

lemma to_index_ok:
  assumes H: "output_ok H" and inv: "arp_inv s R" and q: "q \<in> set R" "packet s q xs" and n: "netif_ok s n"
    and i: "i < ARP_TABLE_SIZE" "ETHARP_STATE_STABLE \<le> e_state (arp_table s ! i)"
  shows "\<exists>e s'. etharp_output_to_arp_index H n q i s = Some (e, s') \<and> arp_to R s s'"
proof -
  define e where "e = arp_table s ! i"
  define ask where "ask = (if e_state e = ETHARP_STATE_STABLE then
         if ARP_AGE_REREQUEST_USED_BROADCAST \<le> e_ctime e then do {
           (r, s) \<leftarrow> etharp_request H n (e_ipaddr e) s;
           Some (if r = ERR_OK then upd_entry i (e_state_update (\<lambda>_. ETHARP_STATE_STABLE_REREQUESTING_1)) s else s)
         } else if ARP_AGE_REREQUEST_USED_UNICAST \<le> e_ctime e then do {
           (r, s) \<leftarrow> etharp_request_dst H n (e_ipaddr e) (arp_ethaddr i) s;
           Some (if r = ERR_OK then upd_entry i (e_state_update (\<lambda>_. ETHARP_STATE_STABLE_REREQUESTING_1)) s else s)
         } else Some s
       else Some s)"
  have mark: "\<exists>s2. Some (if r = ERR_OK then upd_entry i (e_state_update (\<lambda>_. ETHARP_STATE_STABLE_REREQUESTING_1)) s1 else s1) = Some s2 \<and>
      arp_to R s s2 \<and> ETHARP_STATE_STABLE \<le> e_state (arp_table s2 ! i)" if a: "arp_to R s s1" "arp_table s1 = arp_table s" for r :: err_t and s1
    using set_state_ok [OF arp_toD(1) [OF a(1)] i(1), of ETHARP_STATE_STABLE_REREQUESTING_1] a i arp_to_trans [OF a(1)] arp_invD(1) [OF inv]
    by (simp add: less_eq_etharp_state_def)
  have "\<exists>s2. ask = Some s2 \<and> arp_to R s s2 \<and> ETHARP_STATE_STABLE \<le> e_state (arp_table s2 ! i)"
    using request_ok(2) [OF H inv n, of "e_ipaddr e"] request_ok(1) [OF H inv n hw6_entry [OF inv i], of "e_ipaddr e"] mark arp_to_refl [OF inv] i(2)
    unfolding ask_def by (cases "e_state e = ETHARP_STATE_STABLE"; cases "ARP_AGE_REREQUEST_USED_BROADCAST \<le> e_ctime e";
      cases "ARP_AGE_REREQUEST_USED_UNICAST \<le> e_ctime e") fastforce+
  then obtain s2 where s2: "ask = Some s2" "arp_to R s s2" "ETHARP_STATE_STABLE \<le> e_state (arp_table s2 ! i)" by blast
  note A = arp_toD [OF s2(2)]
  obtain r s' where "ethernet_output H n q (netif_hwaddr n) (arp_ethaddr i) ETHTYPE_IP s2 = Some (r, s')" "arp_to R s2 s'"
    using send_ok [OF H A(1) q(1) A(2) [OF q] _ _ hw6_entry [OF A(1) i(1) s2(3)], of n "netif_hwaddr n" ETHTYPE_IP] A(3) n by auto
  moreover have "etharp_output_to_arp_index H n q i s = (ask \<bind> ethernet_output H n q (netif_hwaddr n) (arp_ethaddr i) ETHTYPE_IP)"
    using i(2) by (simp add: etharp_output_to_arp_index_def ask_def e_def LWIP_ASSERT_def)
  ultimately show ?thesis using s2 arp_to_trans by fastforce
qed

end
