(* ===== verification/Etharp_Resolve.thy ===== *)
theory Etharp_Resolve
  imports Etharp_Ops
begin

text \<open>
  Resolving an address and sending to it keeps the invariant of the ARP layer: \<^verbatim>\<open>etharp_query\<close> and
  \<^verbatim>\<open>etharp_output\<close> of \<^verbatim>\<open>lwip/src/core/ipv4/etharp.c\<close>.
\<close>


lemma arp_inv_tables:
  assumes "arp_inv s R" "arp_table s' = arp_table s" "netifs s' = netifs s" "unat (etharp_cached_entry s') < ARP_TABLE_SIZE"
    "pb s' = pb s" "owned s' = owned s"
  shows "arp_inv s' R"
proof -
  have "packet s' q ys = packet s q ys" for q ys using pb_cong(5) [OF assms(5)] .
  moreover have "entry_ok s' e = entry_ok s e" for e using assms(3) by (simp add: entry_ok_def netif_ok_def)
  ultimately show ?thesis using assms(1,2,4,6) by (simp add: arp_inv_def arp_table_ok_def)
qed

lemma stats_ok: "arp_inv s R \<Longrightarrow> arp_to R s (ETHARP_STATS_INC x s)"
  using arp_inv_tables [of s R "ETHARP_STATS_INC x s"] by (auto simp: arp_to_def fun_eq_iff dest: arp_invD(7))

lemma hint_ok: "arp_inv s R \<Longrightarrow> i < ARP_TABLE_SIZE \<Longrightarrow> arp_to R s (ETHARP_SET_ADDRHINT i s)"
  using arp_inv_tables [of s R "ETHARP_SET_ADDRHINT i s"] by (auto simp: arp_to_def fun_eq_iff ARP_TABLE_SIZE_def unat_of_nat)

text \<open>A new entry becomes pending.\<close>

lemma pending_ok:
  assumes inv: "arp_inv s R" and f: "found a n s i s1" "arp_to R s s1" and n: "netif_ok s n"
    and e: "e_state (arp_table s1 ! i) = ETHARP_STATE_EMPTY"
  defines "s2 \<equiv> upd_entry i (e_netif_update (\<lambda>_. Some n)) (upd_entry i (e_state_update (\<lambda>_. ETHARP_STATE_PENDING)) s1)"
  shows "arp_to R s s2" "e_state (arp_table s2 ! i) = ETHARP_STATE_PENDING"
proof -
  note k = found_key [OF inv f(1)]
  note A = arp_toD [OF f(2)]
  define x where "x = (arp_table s1 ! i)\<lparr>e_state := ETHARP_STATE_PENDING, e_netif := Some n\<rparr>"
  have l: "i < length (arp_table s1)" using k(4) arp_invD(1) [OF A(1)] by simp
  have "e_ctime (arp_table s1 ! i) = 0"
    using f(1) e arp_invD(1) [OF inv] by (auto simp: found_def new_entry_def matches_def)
  then have eo: "entry_ok s1 x" using n A(3) by (simp add: entry_ok_def x_def ARP_MAXPENDING_def)
  have s2: "s2 = upd_entry i (\<lambda>_. x) s1" using l by (simp add: s2_def upd_entry_def x_def)
  have "arp_to R s1 s2" unfolding s2
    by (rule arp_inv_modify [OF A(1) k(4) eo found_apart [OF inv f(1)]]) (use k in \<open>simp_all add: x_def\<close>)
  then show "arp_to R s s2" using arp_to_trans [OF f(2)] by blast
  show "e_state (arp_table s2 ! i) = ETHARP_STATE_PENDING" using l by (simp add: s2 x_def)
qed

lemma ctime_ok:
  assumes inv: "arp_inv s R" and i: "i < ARP_TABLE_SIZE"
  shows "arp_to R s (upd_entry i (e_ctime_update (\<lambda>_. 0)) s)"
proof (rule arp_inv_modify [OF inv i])
  show "entry_ok s ((arp_table s ! i)\<lparr>e_ctime := 0\<rparr>)"
    using arp_invD(2) [OF inv i] by (auto simp: entry_ok_def ARP_MAXPENDING_def ARP_MAXAGE_def)
  show "\<not> same_key ((arp_table s ! i)\<lparr>e_ctime := 0\<rparr>) (arp_table s ! j)" if "j < ARP_TABLE_SIZE" "j \<noteq> i" for j
    using arp_invD(6) [OF inv i that(1)] that(2) by (auto simp: same_key_def)
qed simp

text \<open>The request that \<^verbatim>\<open>etharp_query\<close> may send.\<close>

lemma query_request:
  assumes H: "output_ok H" and inv: "arp_inv s R" and n: "netif_ok s n" and i: "i < ARP_TABLE_SIZE"
  shows "\<exists>e s'. (if c then do {
                (result, s) \<leftarrow> etharp_request H n a s;
                Some (result, if result = ERR_OK \<and> e_state (arp_table s ! i) = ETHARP_STATE_PENDING \<and> \<not> is_new
                  then upd_entry i (e_ctime_update (\<lambda>_. 0)) s else s)
              } else Some (ERR_MEM, s)) = Some (e, s') \<and> arp_to R s s' \<and> e_state (arp_table s' ! i) = e_state (arp_table s ! i)"
proof (cases c)
  case False
  then show ?thesis using arp_to_refl [OF inv] by simp
next
  case True
  obtain e s1 where s1: "etharp_request H n a s = Some (e, s1)" "arp_to R s s1" "arp_table s1 = arp_table s"
    using request_ok(2) [OF H inv n, of a] by blast
  have "arp_to R s (upd_entry i (e_ctime_update (\<lambda>_. 0)) s1)"
    using arp_to_trans [OF s1(2) ctime_ok [OF arp_toD(1) [OF s1(2)] i]] .
  moreover have "e_state (arp_table (upd_entry i (e_ctime_update (\<lambda>_. 0)) s1) ! i) = e_state (arp_table s ! i)"
    using s1(3) i arp_invD(1) [OF inv] by simp
  ultimately show ?thesis using True s1 by simp
qed

lemma query_ok:
  assumes H: "output_ok H" and inv: "arp_inv s R" and n: "netif_ok s n"
    and q: "\<And>p. q = Some p \<Longrightarrow> p \<in> set R \<and> (\<exists>xs. packet s p xs) \<and> count_list R p < 200"
  shows "\<exists>e s'. etharp_query H n a q s = Some (e, s') \<and> arp_to R s s'"
proof (cases "arp_host s n a")
  case False
  then show ?thesis using arp_to_refl [OF inv] by (auto simp: etharp_query_def arp_host_def)
next
  case host: True
  from inv show ?thesis
  proof (cases rule: find_entry_cases [of s R H a ETHARP_FLAG_TRY_HARD n])
    case none
    then show ?thesis by (simp add: ETHARP_FLAG_TRY_HARD_def ETHARP_FLAG_FIND_ONLY_def)
  next
    case f: (entry i s1)
    note k = found_key [OF inv f(3)]
    define new where "new \<longleftrightarrow> e_state (arp_table s1 ! i) = ETHARP_STATE_EMPTY"
    define s2 where "s2 = (if new then upd_entry i (e_netif_update (\<lambda>_. Some n))
        (upd_entry i (e_state_update (\<lambda>_. ETHARP_STATE_PENDING)) s1) else s1)"
    have s2: "arp_to R s s2" "e_state (arp_table s2 ! i) = ETHARP_STATE_PENDING \<or> ETHARP_STATE_STABLE \<le> e_state (arp_table s2 ! i)"
      using pending_ok [OF inv f(3,2) n] f(2) state_cases [of "e_state (arp_table s1 ! i)"] by (auto simp: s2_def new_def)
    have ty: "i < 127" using k(4) by (simp add: ARP_TABLE_SIZE_def)
    obtain r s3 where s3: "(if new \<or> q = None then do {
                (result, s) \<leftarrow> etharp_request H n a s2;
                Some (result, if result = ERR_OK \<and> e_state (arp_table s ! i) = ETHARP_STATE_PENDING \<and> \<not> new
                  then upd_entry i (e_ctime_update (\<lambda>_. 0)) s else s)
              } else Some (ERR_MEM, s2)) = Some (r, s3)" "arp_to R s2 s3" "e_state (arp_table s3 ! i) = e_state (arp_table s2 ! i)"
      using query_request [OF H arp_toD(1) [OF s2(1)] _ k(4), of n "new \<or> q = None" a new] arp_toD(3) [OF s2(1)] n by blast
    have t3: "arp_to R s s3" using arp_to_trans [OF s2(1) s3(2)] .
    note A = arp_toD [OF t3]
    have ev: "etharp_query H n a q s = (case q of None \<Rightarrow> Some (r, s3)
            | Some q \<Rightarrow>
                if ETHARP_STATE_STABLE \<le> e_state (arp_table s3 ! i) then
                  ethernet_output H n q (netif_hwaddr n) (arp_ethaddr i) ETHTYPE_IP (ETHARP_SET_ADDRHINT i s3)
                else if e_state (arp_table s3 ! i) = ETHARP_STATE_PENDING then query_enqueue H i q s3
                else Some (r, s3))"
    proof -
      have as: "LWIP_ASSERT m (i < 0x7F) s1 = s1"
        "LWIP_ASSERT m (e_state (arp_table s2 ! i) = ETHARP_STATE_PENDING \<or> ETHARP_STATE_STABLE \<le> e_state (arp_table s2 ! i)) s2 = s2" for m
        using ty s2(2) by (simp_all add: LWIP_ASSERT_def)
      have h: "(ip4_addr_isbroadcast_u32 a (netifs s n) \<or> ip4_addr_ismulticast a \<or> a = IPADDR_ANY) = False"
        using host by (auto simp: arp_host_def)
      show ?thesis
        by (simp only: etharp_query_def h if_False f(1) Option.bind.simps prod.case sum.case Let_def as new_def [symmetric] s2_def [symmetric] s3(1))
    qed
    show ?thesis
    proof (cases q)
      case None
      then show ?thesis using ev t3 by simp
    next
      case (Some p)
      obtain xs where p: "p \<in> set R" "packet s p xs" "count_list R p < 200" using q [OF Some] by blast
      note p3 = A(2) [OF p(1,2)]
      show ?thesis
      proof (cases "ETHARP_STATE_STABLE \<le> e_state (arp_table s3 ! i)")
        case True
        define s4 where "s4 = ETHARP_SET_ADDRHINT i s3"
        have t4: "arp_to R s s4" using arp_to_trans [OF t3 hint_ok [OF A(1) k(4)]] by (simp add: s4_def)
        note B = arp_toD [OF t4]
        have hw: "hw6 s4 (arp_ethaddr i)" using hw6_entry [OF B(1) k(4)] True by (simp add: s4_def)
        obtain e s' where "ethernet_output H n p (netif_hwaddr n) (arp_ethaddr i) ETHTYPE_IP s4 = Some (e, s')" "arp_to R s4 s'"
          using send_ok [OF H B(1) p(1) B(2) [OF p(1,2)] _ _ hw, of n "netif_hwaddr n" ETHTYPE_IP] n B(3) by auto
        then show ?thesis using ev Some True arp_to_trans [OF t4] by (auto simp: s4_def)
      next
        case False
        then have "e_state (arp_table s3 ! i) = ETHARP_STATE_PENDING" using s2(2) s3(3) by auto
        then show ?thesis using enqueue_ok [OF A(1) p3 p(3) k(4), of H] ev Some False arp_to_trans [OF t3] by auto
      qed
    qed
  qed
qed

lemma find_stable_ok: "find_stable n a is s = Some i \<Longrightarrow> i \<in> set is \<and> ETHARP_STATE_STABLE \<le> e_state (arp_table s ! i) \<and> e_netif (arp_table s ! i) = Some n \<and> e_ipaddr (arp_table s ! i) = a"
  by (induction "is") (auto simp: Let_def split: if_splits)

lemma etharp_output_ok:
  assumes H: "output_ok H" and inv: "arp_inv s R" and n: "netif_ok s n" and q: "q \<in> set R" "packet s q xs" "count_list R q < 200"
    and d: "0 < plen s q"
  shows "\<exists>e s'. etharp_output H n q a s = Some (e, s') \<and> arp_to R s s'"
proof -
  have direct: "\<exists>e s'. ethernet_output H n q (netif_hwaddr n) (\<lambda>_. m) ETHTYPE_IP s = Some (e, s') \<and> arp_to R s s'" if "length m = 6" for m
    using send_ok [OF H inv q(1,2) n hw6_simps(4) [OF n], of "\<lambda>_. m" ETHTYPE_IP] that unfolding hw6_def by blast
  obtain b where b: "pb s q = Some b" using packet_head [OF q(2)] by blast
  have "p_payload b \<noteq> None" using q(2) b d by (cases xs) (auto simp: packet_def plen_def)
  then obtain h where h: "p_payload b = Some h" by blast
  have resolve: "\<exists>e s'. (let c = unat (etharp_cached_entry s); e = arp_table s ! c in
             if ARP_TABLE_SIZE \<le> c then None
             else if ETHARP_STATE_STABLE \<le> e_state e \<and> e_netif e = Some n \<and> dst = e_ipaddr e
             then etharp_output_to_arp_index H n q c (ETHARP_STATS_INC st_cachehit_update s)
             else (case find_stable n dst [0..<ARP_TABLE_SIZE] s of
                 Some i \<Rightarrow> etharp_output_to_arp_index H n q i (ETHARP_SET_ADDRHINT i s)
               | None \<Rightarrow> etharp_query H n dst (Some q) s)) = Some (e, s') \<and> arp_to R s s'" for dst
  proof -
    define c where "c = unat (etharp_cached_entry s)"
    have c: "c < ARP_TABLE_SIZE" using arp_invD(7) [OF inv] by (simp add: c_def)
    define s1 where "s1 = ETHARP_STATS_INC st_cachehit_update s"
    have s1: "arp_to R s s1" "arp_table s1 = arp_table s" using stats_ok [OF inv] by (simp_all add: s1_def)
    have via: "\<exists>e s'. etharp_output_to_arp_index H n q i t = Some (e, s') \<and> arp_to R s s'"
      if t: "arp_to R s t" "arp_table t = arp_table s" "i < ARP_TABLE_SIZE" "ETHARP_STATE_STABLE \<le> e_state (arp_table s ! i)" for i t
      using to_index_ok [OF H arp_toD(1) [OF t(1)] q(1) arp_toD(2) [OF t(1) q(1,2)] _ t(3)] arp_toD(3) [OF t(1)] n t arp_to_trans [OF t(1)]
      by fastforce
    have query: "\<exists>e s'. etharp_query H n dst (Some q) s = Some (e, s') \<and> arp_to R s s'"
      by (rule query_ok [OF H inv n]) (use q in auto)
    show ?thesis
      using c via [OF s1(1,2) c] query find_stable_ok [of n dst "[0..<ARP_TABLE_SIZE]" s] via [OF hint_ok [OF inv]]
      unfolding c_def [symmetric] s1_def [symmetric] Let_def
      by (cases "find_stable n dst [0..<ARP_TABLE_SIZE] s") auto
  qed
  show ?thesis
    unfolding etharp_output_def
    using direct [of ethbroadcast] direct [of "LL_IP4_MULTICAST_ADDR @ [ip4_addr_get_byte a 1 AND 0x7f, ip4_addr_get_byte a 2, ip4_addr_get_byte a 3]"]
      b h resolve [of a] resolve [of "nf_gw (netifs s n)"] arp_to_refl [OF inv]
    by (simp add: Let_def ethbroadcast_def LL_IP4_MULTICAST_ADDR_def)
qed

end
