(* ===== verification/Etharp_Input.thy ===== *)
theory Etharp_Input
  imports Etharp_Resolve
begin

text \<open>
  Ageing and receiving keep the invariant of the ARP layer: \<^verbatim>\<open>etharp_tmr\<close>, \<^verbatim>\<open>etharp_cleanup_netif\<close> and
  \<^verbatim>\<open>etharp_input\<close> of \<^verbatim>\<open>lwip/src/core/ipv4/etharp.c\<close>, and \<^verbatim>\<open>ethernet_input\<close> of \<^verbatim>\<open>lwip/src/netif/ethernet.c\<close>.
\<close>


section \<open>Ageing\<close>

text \<open>What one round of \<^verbatim>\<open>etharp_tmr\<close> makes of an entry.\<close>

definition aged :: "etharp_entry \<Rightarrow> etharp_entry" where
  "aged e = (if e_state e = ETHARP_STATE_EMPTY then e else
     (let e = e_ctime_update (\<lambda>t. t + 1) e in
      if ARP_MAXAGE \<le> e_ctime e \<or> (e_state e = ETHARP_STATE_PENDING \<and> ARP_MAXPENDING \<le> e_ctime e)
      then e\<lparr>e_q := None, e_state := ETHARP_STATE_EMPTY\<rparr>
      else if e_state e = ETHARP_STATE_STABLE_REREQUESTING_1 then e\<lparr>e_state := ETHARP_STATE_STABLE_REREQUESTING_2\<rparr>
      else if e_state e = ETHARP_STATE_STABLE_REREQUESTING_2 then e\<lparr>e_state := ETHARP_STATE_STABLE\<rparr>
      else e))"

lemma state_le: "ETHARP_STATE_STABLE \<le> ETHARP_STATE_STABLE_REREQUESTING_1" "ETHARP_STATE_STABLE \<le> ETHARP_STATE_STABLE_REREQUESTING_2"
  by (simp_all add: less_eq_etharp_state_def)

lemma aged_entry_ok:
  assumes "entry_ok s e"
  shows "entry_ok s (aged e)"
proof -
  have "e_state e = ETHARP_STATE_EMPTY \<or> e_state e = ETHARP_STATE_PENDING \<or> ETHARP_STATE_STABLE \<le> e_state e" by (rule state_cases)
  then show ?thesis using assms by (auto simp: aged_def entry_ok_def Let_def state_le)
qed

lemma same_key_aged: "same_key (aged e) e' \<Longrightarrow> same_key e e'"
  by (auto simp: aged_def same_key_def Let_def split: if_splits)

lemma tmr_step:
  assumes H: "output_ok H" and inv: "arp_inv s R" and i: "i < ARP_TABLE_SIZE"
  shows "\<exists>s'. (if e_state (arp_table s ! i) \<noteq> ETHARP_STATE_EMPTY then
         (let s = upd_entry i (e_ctime_update (\<lambda>t. t + 1)) s; e = arp_table s ! i in
          if ARP_MAXAGE \<le> e_ctime e \<or> (e_state e = ETHARP_STATE_PENDING \<and> ARP_MAXPENDING \<le> e_ctime e)
          then etharp_free_entry H i s
          else if e_state e = ETHARP_STATE_STABLE_REREQUESTING_1
          then Some (upd_entry i (e_state_update (\<lambda>_. ETHARP_STATE_STABLE_REREQUESTING_2)) s)
          else if e_state e = ETHARP_STATE_STABLE_REREQUESTING_2
          then Some (upd_entry i (e_state_update (\<lambda>_. ETHARP_STATE_STABLE)) s)
          else if e_state e = ETHARP_STATE_PENDING
          then do { n \<leftarrow> e_netif e; (_, s) \<leftarrow> etharp_request H n (e_ipaddr e) s; Some s }
          else Some s)
       else Some s) = Some s' \<and> arp_to R s s' \<and> arp_table s' = (arp_table s)[i := aged (arp_table s ! i)]"
    (is "\<exists>s'. ?step = Some s' \<and> _")
proof -
  define e where "e = arp_table s ! i"
  note D = arp_invD [OF inv]
  have l: "i < length (arp_table s)" using i D(1) by simp
  have eo: "entry_ok s e" using D(2) [OF i] by (simp add: e_def)
  define s1 where "s1 = upd_entry i (e_ctime_update (\<lambda>t. t + 1)) s"
  have s1: "arp_table s1 ! i = e_ctime_update (\<lambda>t. t + 1) e" using l by (simp add: s1_def e_def)
  have upd: "arp_to R s (upd_entry i (\<lambda>_. aged e) s)" if "e_q (aged e) = e_q e"
    by (rule arp_inv_modify [OF inv i]) (use that aged_entry_ok [OF eo] same_key_aged [of e] D(6) [OF i] in \<open>auto simp: e_def\<close>)
  consider "e_state e = ETHARP_STATE_EMPTY"
    | "e_state e \<noteq> ETHARP_STATE_EMPTY" "ARP_MAXAGE \<le> e_ctime e + 1 \<or> (e_state e = ETHARP_STATE_PENDING \<and> ARP_MAXPENDING \<le> e_ctime e + 1)"
    | "e_state e \<noteq> ETHARP_STATE_EMPTY" "\<not> (ARP_MAXAGE \<le> e_ctime e + 1 \<or> (e_state e = ETHARP_STATE_PENDING \<and> ARP_MAXPENDING \<le> e_ctime e + 1))"
    by blast
  then show ?thesis
  proof cases
    case 1
    then show ?thesis using arp_to_refl [OF inv] by (simp add: e_def aged_def)
  next
    case 2
    then have ev: "?step = etharp_free_entry H i s1"
      using s1 unfolding s1_def [symmetric] e_def [symmetric] Let_def by simp
    have a: "aged e = e_ctime_update (\<lambda>t. t + 1) e\<lparr>e_q := None, e_state := ETHARP_STATE_EMPTY\<rparr>" using 2 by (simp add: aged_def Let_def)
    show ?thesis unfolding ev
      using free_entry_aged [OF inv i, of H "\<lambda>t. t + 1"] unfolding a [unfolded e_def] s1_def by blast
  next
    case 3
    show ?thesis
    proof (cases "e_state e = ETHARP_STATE_PENDING")
      case False
      define s' where "s' = upd_entry i (\<lambda>_. aged e) s"
      have "e_q (aged e) = e_q e" using 3 False by (simp add: aged_def Let_def)
      then have "arp_to R s s'" using upd by (simp add: s'_def)
      moreover have "?step = Some s'"
        using 3 False s1 l unfolding s1_def [symmetric] e_def [symmetric] Let_def
        by (simp add: s'_def aged_def) (auto simp: s1_def upd_entry_def e_def)
      ultimately show ?thesis by (simp add: s'_def e_def)
    next
      case True
      have a: "aged e = e_ctime_update (\<lambda>t. t + 1) e" using 3 True by (simp add: aged_def Let_def)
      then have t1: "arp_to R s s1" using upd by (simp add: s1_def upd_entry_def e_def)
      obtain n where n: "e_netif e = Some n" "netif_ok s n" using eo True by (auto simp: entry_ok_def)
      obtain r s' where s': "etharp_request H n (e_ipaddr e) s1 = Some (r, s')" "arp_to R s1 s'" "arp_table s' = arp_table s1"
        using request_ok(2) [OF H arp_toD(1) [OF t1], of n "e_ipaddr e"] n(2) arp_toD(3) [OF t1] by auto
      have "?step = Some s'"
        using 3 True s1 s'(1) n(1) unfolding s1_def [symmetric] e_def [symmetric] Let_def by simp
      then show ?thesis using arp_to_trans [OF t1 s'(2)] s'(3) a by (simp add: s1_def e_def)
    qed
  qed
qed

lemma tmr_loop_ok:
  assumes "output_ok H" "arp_inv s R" "\<forall>i \<in> set is. i < ARP_TABLE_SIZE" "distinct is"
  shows "\<exists>s'. etharp_tmr_loop H is s = Some s' \<and> arp_to R s s' \<and>
    (\<forall>j < ARP_TABLE_SIZE. arp_table s' ! j = (if j \<in> set is then aged (arp_table s ! j) else arp_table s ! j))"
  using assms(2-)
proof (induction "is" arbitrary: s)
  case Nil
  then show ?case using arp_to_refl by simp
next
  case (Cons i "is")
  obtain s1 where s1: "arp_to R s s1" "arp_table s1 = (arp_table s)[i := aged (arp_table s ! i)]"
      "etharp_tmr_loop H (i # is) s = etharp_tmr_loop H is s1"
    using tmr_step [OF assms(1) Cons.prems(1), of i] Cons.prems(2) by auto
  obtain s' where s': "etharp_tmr_loop H is s1 = Some s'" "arp_to R s1 s'"
      "\<forall>j < ARP_TABLE_SIZE. arp_table s' ! j = (if j \<in> set is then aged (arp_table s1 ! j) else arp_table s1 ! j)"
    using Cons.IH [OF arp_toD(1) [OF s1(1)]] Cons.prems(2,3) by auto
  have "arp_table s' ! j = (if j \<in> set (i # is) then aged (arp_table s ! j) else arp_table s ! j)" if "j < ARP_TABLE_SIZE" for j
    using s'(3) that s1(2) Cons.prems arp_invD(1) [OF Cons.prems(1)] by (cases "j = i") auto
  then show ?case using s1(3) s'(1) arp_to_trans [OF s1(1) s'(2)] by auto
qed

lemma tmr_ok:
  assumes "output_ok H" "arp_inv s R"
  shows "\<exists>s'. etharp_tmr H s = Some s' \<and> arp_to R s s' \<and> arp_table s' = map aged (arp_table s)"
proof -
  obtain s' where s': "etharp_tmr H s = Some s'" "arp_to R s s'" "\<forall>j < ARP_TABLE_SIZE. arp_table s' ! j = aged (arp_table s ! j)"
    using tmr_loop_ok [OF assms, of "[0..<ARP_TABLE_SIZE]"] unfolding etharp_tmr_def by auto
  have "arp_table s' = map aged (arp_table s)"
    using s'(3) arp_invD(1) [OF assms(2)] arp_invD(1) [OF arp_toD(1) [OF s'(2)]] by (intro nth_equalityI) auto
  then show ?thesis using s' by blast
qed

lemma cleanup_ok:
  assumes "arp_inv s R" "\<forall>i \<in> set is. i < ARP_TABLE_SIZE" "distinct is"
  shows "\<exists>s'. cleanup_loop H n is s = Some s' \<and> arp_to R s s' \<and>
    (\<forall>j < ARP_TABLE_SIZE. arp_table s' ! j = (let e = arp_table s ! j in
       if j \<in> set is \<and> e_state e \<noteq> ETHARP_STATE_EMPTY \<and> e_netif e = Some n then e\<lparr>e_q := None, e_state := ETHARP_STATE_EMPTY\<rparr> else e))"
  using assms
proof (induction "is" arbitrary: s)
  case Nil
  then show ?case using arp_to_refl by (simp add: Let_def)
next
  case (Cons i "is")
  define hit where "hit \<longleftrightarrow> e_state (arp_table s ! i) \<noteq> ETHARP_STATE_EMPTY \<and> e_netif (arp_table s ! i) = Some n"
  have "\<exists>s1. (if hit then etharp_free_entry H i s else Some s) = Some s1 \<and> arp_to R s s1 \<and>
    arp_table s1 = (if hit then (arp_table s)[i := (arp_table s ! i)\<lparr>e_q := None, e_state := ETHARP_STATE_EMPTY\<rparr>] else arp_table s)"
    using free_entry_ok [OF Cons.prems(1), of i H] arp_to_refl [OF Cons.prems(1)] Cons.prems(2) by auto
  then obtain s1 where s1: "(if hit then etharp_free_entry H i s else Some s) = Some s1" "arp_to R s s1"
    "arp_table s1 = (if hit then (arp_table s)[i := (arp_table s ! i)\<lparr>e_q := None, e_state := ETHARP_STATE_EMPTY\<rparr>] else arp_table s)" by blast
  obtain s' where s': "cleanup_loop H n is s1 = Some s'" "arp_to R s1 s'"
    "\<forall>j < ARP_TABLE_SIZE. arp_table s' ! j = (let e = arp_table s1 ! j in
       if j \<in> set is \<and> e_state e \<noteq> ETHARP_STATE_EMPTY \<and> e_netif e = Some n then e\<lparr>e_q := None, e_state := ETHARP_STATE_EMPTY\<rparr> else e)"
    using Cons.IH [OF arp_toD(1) [OF s1(2)]] Cons.prems(2,3) by auto
  have t: "arp_table s' ! j = (let e = arp_table s ! j in
       if j \<in> set (i # is) \<and> e_state e \<noteq> ETHARP_STATE_EMPTY \<and> e_netif e = Some n then e\<lparr>e_q := None, e_state := ETHARP_STATE_EMPTY\<rparr> else e)"
    if j: "j < ARP_TABLE_SIZE" for j
    using s'(3) [rule_format, OF j] s1(3) Cons.prems arp_invD(1) [OF Cons.prems(1)] by (cases "j = i") (auto simp: hit_def Let_def)
  have "cleanup_loop H n (i # is) s = Some s'" using s1(1) s'(1) unfolding hit_def by simp
  then show ?case using arp_to_trans [OF s1(2) s'(2)] t by blast
qed



section \<open>Receiving\<close>

definition arp_safe :: "ptr list \<Rightarrow> 'a arp_scheme \<Rightarrow> 'a arp_scheme \<Rightarrow> bool" where
  "arp_safe R s s' \<longleftrightarrow> arp_inv s' R \<and> (\<forall>q \<in> set R. \<forall>ys. packet s q ys \<longrightarrow> packet s' q ys) \<and>
     (\<forall>n. netif_ok s n \<longrightarrow> netif_ok s' n) \<and> diag s' = diag s"

lemma arp_to_safe: "arp_to R s s' \<Longrightarrow> arp_safe R s s'"
  by (simp add: arp_safe_def arp_to_def netif_ok_def)

lemma arp_safe_trans: "arp_safe R s t \<Longrightarrow> arp_safe R t u \<Longrightarrow> arp_safe R s u"
  by (simp add: arp_safe_def)

lemma arp_safe_tail: "arp_safe (p # R) s t \<Longrightarrow> arp_safe R t u \<Longrightarrow> arp_safe R s u"
  by (simp add: arp_safe_def)

text \<open>
  What the layers above and below promise: a sender keeps the packet as it is (\<open>output_ok\<close>), the
  address conflict detection keeps the invariant, and \<^verbatim>\<open>ip4_input\<close> takes over the packet.
\<close>

definition hooks_ok :: "'a arp_scheme link \<Rightarrow> bool" where
  "hooks_ok H \<longleftrightarrow> output_ok H \<and>
     (\<forall>n h s R. arp_inv s R \<longrightarrow> netif_ok s n \<longrightarrow> (\<exists>s'. lk_acd_arp_reply H n h s = Some s' \<and> arp_safe R s s')) \<and>
     (\<forall>p n s xs R. arp_inv s (p # R) \<longrightarrow> packet s p xs \<longrightarrow> netif_ok s n \<longrightarrow>
        (\<exists>e s'. lk_ip4_input H p n s = Some (e, s') \<and> arp_safe R s s'))"

lemma free_safe:
  assumes "arp_inv s (p # R)"
  shows "\<exists>n s'. pbuf_free cf (Some p) s = Some (n, s') \<and> arp_safe R s s'"
  using free_ok [OF assms, of cf] arp_to_safe by blast

lemma etharp_input_ok:
  assumes H: "hooks_ok H" and inv: "arp_inv s (p # R)" and p: "packet s p xs" and n: "netif_ok s n" and d: "0 < plen s p"
  shows "\<exists>s'. etharp_input H p (Some n) s = Some s' \<and> arp_safe R s s'"
proof -
  obtain b where b: "pb s p = Some b" using packet_head [OF p] by blast
  have "p_payload b \<noteq> None" using p b d by (cases xs) (auto simp: packet_def plen_def)
  then obtain h where h: "p_payload b = Some h" by blast
  have finish: "\<exists>s'. do { (_, s) \<leftarrow> pbuf_free (lk_free H) (Some p) t; Some s } = Some s' \<and> arp_safe R s s'" if t: "arp_safe (p # R) s t" for t
  proof -
    obtain k s' where "pbuf_free (lk_free H) (Some p) t = Some (k, s')" "arp_safe R t s'"
      using free_safe [of t p R] t unfolding arp_safe_def [of "p # R"] by blast
    then show ?thesis using arp_safe_tail [OF t] by simp
  qed
  define bad where "bad \<longleftrightarrow> get16 (octet s) h \<noteq> lwip_htons LWIP_IANA_HWTYPE_ETHERNET \<or> octet s (ptr_add h 4) \<noteq> of_nat ETH_HWADDR_LEN \<or>
         octet s (ptr_add h 5) \<noteq> 4 \<or> get16 (octet s) (ptr_add h 2) \<noteq> lwip_htons ETHTYPE_IP"
  show ?thesis
  proof (cases bad)
    case True
    have "arp_safe (p # R) s (ETHARP_STATS_INC st_drop_update (ETHARP_STATS_INC st_proterr_update s))"
      using arp_to_safe [OF stats_ok [OF inv]] arp_to_safe [OF stats_ok [OF arp_toD(1) [OF stats_ok [OF inv]]]] arp_safe_trans by blast
    from finish [OF this] show ?thesis using b h True by (simp add: etharp_input_def bad_def)
  next
    case False
    define s1 where "s1 = ETHARP_STATS_INC st_recv_update s"
    have s1: "arp_safe (p # R) s s1" using arp_to_safe [OF stats_ok [OF inv]] by (simp add: s1_def)
    then have "arp_inv s1 (p # R)" "netif_ok s1 n" using n by (simp_all add: arp_safe_def)
    then obtain s2 where s2: "lk_acd_arp_reply H n h s1 = Some s2" "arp_safe (p # R) s1 s2" using H unfolding hooks_ok_def by blast
    have i2: "arp_inv s2 (p # R)" "netif_ok s2 n" using s1 s2(2) n by (simp_all add: arp_safe_def)
    define sip where "sip = get32 (octet s2) (ptr_add h 14)"
    define us where "us = (if nf_ip_addr (netifs s2 n) = IPADDR_ANY then False else get32 (octet s2) (ptr_add h 24) = nf_ip_addr (netifs s2 n))"
    define from_us where "from_us = (if nf_ip_addr (netifs s2 n) = IPADDR_ANY then False else sip = nf_ip_addr (netifs s2 n))"
    have oH: "output_ok H" using H by (simp add: hooks_ok_def)
    have hw: "length (hwaddr_at (ptr_add h 8) t) = 6" for t :: "'a arp_scheme" by (simp add: hwaddr_at_def ETH_HWADDR_LEN_def)
    obtain e s3 where s3: "etharp_update_arp_entry H n sip (hwaddr_at (ptr_add h 8)) (if us then ETHARP_FLAG_TRY_HARD else ETHARP_FLAG_FIND_ONLY) s2 = Some (e, s3)"
      "arp_to (p # R) s2 s3" using update_ok [OF oH i2, of "hwaddr_at (ptr_add h 8)" sip "if us then ETHARP_FLAG_TRY_HARD else ETHARP_FLAG_FIND_ONLY"] hw by blast
    have i3: "arp_inv s3 (p # R)" "netif_ok s3 n" using arp_toD(1,3) [OF s3(2)] i2 by simp_all
    define reply where "reply = (if get16 (octet s3) (ptr_add h 6) = lwip_htons ARP_REQUEST then
             if us \<and> \<not> from_us then do {
               (_, s) \<leftarrow> etharp_raw H n (netif_hwaddr n) (hwaddr_at (ptr_add h 8)) (netif_hwaddr n)
                 (nf_ip_addr (netifs s3 n)) (hwaddr_at (ptr_add h 8)) sip ARP_REPLY s3;
               Some s
             } else Some s3
           else if get16 (octet s3) (ptr_add h 6) = lwip_htons ARP_REPLY then Some s3
           else Some (ETHARP_STATS_INC st_err_update s3))"
    have "\<exists>s4. reply = Some s4 \<and> arp_to (p # R) s3 s4"
      using raw_ok [OF oH i3, of "netif_hwaddr n" "hwaddr_at (ptr_add h 8)" "netif_hwaddr n" "hwaddr_at (ptr_add h 8)" "nf_ip_addr (netifs s3 n)" sip ARP_REPLY]
        i3(2) arp_to_refl [OF i3(1)] stats_ok [OF i3(1), of st_err_update]
      unfolding reply_def by auto
    then obtain s4 where s4: "reply = Some s4" "arp_to (p # R) s3 s4" by blast
    have "arp_safe (p # R) s s4"
      using arp_safe_trans [OF s1 arp_safe_trans [OF s2(2) arp_safe_trans [OF arp_to_safe [OF s3(2)] arp_to_safe [OF s4(2)]]]] .
    from finish [OF this]
    obtain s' where s': "do { (_, s) \<leftarrow> pbuf_free (lk_free H) (Some p) s4; Some s } = Some s'" "arp_safe R s s'" by blast
    have "etharp_input H p (Some n) s = Some s'"
      by (simp only: etharp_input_def option.case b h Option.bind.simps Let_def bad_def [symmetric] False if_False s1_def [symmetric] s2(1)
        sip_def [symmetric] us_def [symmetric] from_us_def [symmetric] s3(1) prod.case reply_def [symmetric] s4(1) s'(1))
    then show ?thesis using s'(2) by blast
  qed
qed

lemma mark_safe:
  assumes inv: "arp_inv s Q" and p: "packet s p xs" and f: "\<And>b. p_next (f b) = p_next b \<and> p_ref (f b) = p_ref b \<and> p_type (f b) = p_type b \<and>
    p_payload (f b) = p_payload b \<and> p_len (f b) = p_len b \<and> p_tot_len (f b) = p_tot_len b \<and> custom (f b) = custom b"
  shows "arp_safe Q s (upd_pbuf p f s)" "packet (upd_pbuf p f s) p xs"
proof -
  note m = mark_packet [OF arp_invD(4) [OF inv] p f]
  have "arp_inv (upd_pbuf p f s) Q"
    by (rule arp_inv_via [OF inv]) (use m(1) m(2) in \<open>auto simp: upd_pbuf_def\<close>)
  then show "arp_safe Q s (upd_pbuf p f s)" using m(2) by (auto simp: arp_safe_def netif_ok_def upd_pbuf_def)
  show "packet (upd_pbuf p f s) p xs" using m(2) p by blast
qed

lemma down_safe:
  assumes inv: "arp_inv s Q" and p: "packet s p xs" and b: "pb s p = Some b" and k: "k \<le> unat (p_len b)" "0 < k"
  shows "\<exists>s'. pbuf_remove_header (Some p) k s = Some (0, s') \<and> arp_safe Q s s' \<and> packet s' p xs \<and> plen s' p = unat (p_len b) - k"
proof -
  define s1 where "s1 = upd_pbuf p (drop_front k) s"
  note h = header_down [OF arp_invD(4) [OF inv] p b k, folded s1_def]
  have f: "arp_table s1 = arp_table s" "etharp_cached_entry s1 = etharp_cached_entry s" "netifs s1 = netifs s" "diag s1 = diag s"
    by (simp_all add: s1_def upd_pbuf_def)
  have "arp_inv s1 Q" by (rule arp_inv_via [OF inv f(1-3)]) (use h(2,3) in auto)
  then have "arp_safe Q s s1" using h(3) f by (auto simp: arp_safe_def netif_ok_def)
  moreover have "unat (p_len b - of_nat k) = unat (p_len b) - k"
  proof -
    have "k < 65536" using k unat_u16_less [of "p_len b"] by linarith
    then show ?thesis using k by (simp add: unat_sub word_le_nat_alt unat_of_nat)
  qed
  then have "plen s1 p = unat (p_len b) - k" using b by (simp add: plen_def s1_def)
  ultimately show ?thesis using h(1) h(3) [OF p] by blast
qed


text \<open>The marks \<^verbatim>\<open>ethernet_input\<close> leaves on a packet.\<close>

definition ether_marks :: "u8 \<Rightarrow> u8 list \<Rightarrow> pbuf \<Rightarrow> pbuf" where
  "ether_marks idx dest b = (let b = (if p_if_idx b = NETIF_NO_INDEX then b\<lparr>p_if_idx := idx\<rparr> else b) in
     if dest ! 0 AND 1 \<noteq> 0 then
       if dest ! 0 = LL_IP4_MULTICAST_ADDR ! 0 then
         if dest ! 1 = LL_IP4_MULTICAST_ADDR ! 1 \<and> dest ! 2 = LL_IP4_MULTICAST_ADDR ! 2
         then p_flags_update (\<lambda>f. f OR PBUF_FLAG_LLMCAST) b else b
       else if dest = ethbroadcast then p_flags_update (\<lambda>f. f OR PBUF_FLAG_LLBCAST) b
       else b
     else b)"

lemma custom_flag: "custom (p_flags_update (\<lambda>f. f OR PBUF_FLAG_LLMCAST) b) = custom b" "custom (p_flags_update (\<lambda>f. f OR PBUF_FLAG_LLBCAST) b) = custom b"
  "custom (b\<lparr>p_if_idx := i\<rparr>) = custom b"
  by (simp_all add: custom_def PBUF_FLAG_LLMCAST_def PBUF_FLAG_LLBCAST_def PBUF_FLAG_IS_CUSTOM_def bit.conj_disj_distrib2)

lemma ether_marks_same:
  "p_next (ether_marks i d b) = p_next b \<and> p_ref (ether_marks i d b) = p_ref b \<and> p_type (ether_marks i d b) = p_type b \<and>
   p_payload (ether_marks i d b) = p_payload b \<and> p_len (ether_marks i d b) = p_len b \<and> p_tot_len (ether_marks i d b) = p_tot_len b \<and>
   custom (ether_marks i d b) = custom b"
  by (simp add: ether_marks_def Let_def custom_flag)


lemma ethernet_input_ok:
  assumes H: "hooks_ok H" and inv: "arp_inv s (p # R)" and p: "packet s p xs" and n: "netif_ok s n"
  shows "\<exists>s'. ethernet_input H p n s = Some (ERR_OK, s') \<and> arp_safe R s s'"
proof -
  obtain b where b: "pb s p = Some b" using packet_head [OF p] by blast
  define fin where "fin = (\<lambda>s. do { (_, s) \<leftarrow> pbuf_free (lk_free H) (Some p) s; Some (ERR_OK, s) })"
  have fin: "\<exists>s'. fin t = Some (ERR_OK, s') \<and> arp_safe R s s'" if t: "arp_safe (p # R) s t" for t
  proof -
    obtain k s' where "pbuf_free (lk_free H) (Some p) t = Some (k, s')" "arp_safe R t s'"
      using free_safe [of t p R] t unfolding arp_safe_def [of "p # R"] by blast
    then show ?thesis using arp_safe_tail [OF t] by (simp add: fin_def)
  qed
  have stat: "arp_safe (p # R) s (ETHARP_STATS_INC x (ETHARP_STATS_INC y t))" if t: "arp_safe (p # R) s t" for x y t
    using arp_safe_trans [OF t] arp_safe_trans arp_to_safe stats_ok t unfolding arp_safe_def [of "p # R" s t] by (metis arp_toD(1))
  show ?thesis
  proof (cases "p_len b \<le> of_nat SIZEOF_ETH_HDR")
    case True
    then have "ethernet_input H p n s = fin (ETHARP_STATS_INC st_drop_update (ETHARP_STATS_INC st_proterr_update s))"
      using b by (simp add: ethernet_input_def fin_def)
    then show ?thesis using fin [OF stat [OF arp_to_safe [OF arp_to_refl [OF inv]]]] by simp
  next
    case False
    then have len: "14 < unat (p_len b)" by (simp add: word_le_nat_alt SIZEOF_ETH_HDR_def not_le)
    then have "p_payload b \<noteq> None" using p b by (cases xs) (auto simp: packet_def)
    then obtain h where h: "p_payload b = Some h" by blast
    define ty where "ty = get16 (octet s) (ptr_add h 12)"
    define dest where "dest = mem_read (octet s) h ETH_HWADDR_LEN"
    define f where "f = ether_marks (netif_get_index (netifs s n)) dest"
    define s2 where "s2 = upd_pbuf p f s"
    note m = mark_safe [OF inv p, of f, folded s2_def, OF ether_marks_same [of "netif_get_index (netifs s n)" dest, folded f_def]]
    have i2: "arp_inv s2 (p # R)" "netif_ok s2 n" using m(1) n by (simp_all add: arp_safe_def)
    have b2: "pb s2 p = Some (f b)" "p_len (f b) = p_len b" using b ether_marks_same [of _ dest b] by (simp_all add: s2_def f_def)
    obtain s3 where s3: "pbuf_remove_header (Some p) 14 s2 = Some (0, s3)" "arp_safe (p # R) s2 s3" "packet s3 p xs" "0 < plen s3 p"
      using down_safe [OF i2(1) m(2) b2(1), of 14] b2(2) len by auto
    have t3: "arp_safe (p # R) s s3" using arp_safe_trans [OF m(1) s3(2)] .
    then have i3: "arp_inv s3 (p # R)" "netif_ok s3 n" using n by (simp_all add: arp_safe_def)
    have ev: "ethernet_input H p n s = (if ty = lwip_htons ETHTYPE_IP then
         if nf_flags (netifs s2 n) AND NETIF_FLAG_ETHARP = 0 then fin s2 else do { (_, s) \<leftarrow> lk_ip4_input H p n s3; Some (ERR_OK, s) }
       else if ty = lwip_htons ETHTYPE_ARP then
         if nf_flags (netifs s2 n) AND NETIF_FLAG_ETHARP = 0 then fin s2 else do { s \<leftarrow> etharp_input H p (Some n) s3; Some (ERR_OK, s) }
       else fin (ETHARP_STATS_INC st_drop_update (ETHARP_STATS_INC st_proterr_update s2)))"
    proof -
      define s1 where "s1 = (if p_if_idx b = NETIF_NO_INDEX then upd_pbuf p (p_if_idx_update (\<lambda>_. netif_get_index (netifs s n))) s else s)"
      have o1: "octet s1 = octet s" by (simp add: s1_def upd_pbuf_def)
      have u: "(if dest ! 0 AND 1 \<noteq> 0 then
           if dest ! 0 = LL_IP4_MULTICAST_ADDR ! 0 then
             if dest ! 1 = LL_IP4_MULTICAST_ADDR ! 1 \<and> dest ! 2 = LL_IP4_MULTICAST_ADDR ! 2
             then upd_pbuf p (p_flags_update (\<lambda>f. f OR PBUF_FLAG_LLMCAST)) s1 else s1
           else if dest = ethbroadcast then upd_pbuf p (p_flags_update (\<lambda>f. f OR PBUF_FLAG_LLBCAST)) s1
           else s1
         else s1) = s2"
      proof -
        define c where "c \<longleftrightarrow> p_if_idx b = NETIF_NO_INDEX"
        have s1': "s1 = s\<lparr>pb := (pb s)(p := Some (if c then b\<lparr>p_if_idx := netif_get_index (netifs s n)\<rparr> else b))\<rparr>"
          using b by (simp add: s1_def c_def upd_pbuf_def fun_upd_idem)
        have "s2 = s\<lparr>pb := (pb s)(p := Some (f b))\<rparr>" using b by (simp add: s2_def upd_pbuf_def)
        then show ?thesis unfolding s1' f_def ether_marks_def Let_def c_def [symmetric] by (simp add: upd_pbuf_def)
      qed
      show ?thesis
        by (simp only: ethernet_input_def b Option.bind.simps Let_def fin_def [symmetric] False if_False h ty_def [symmetric] s1_def [symmetric] o1
          dest_def [symmetric] u s3(1) [folded SIZEOF_ETH_HDR_def] prod.case if_P simp_thms)
    qed
    have ip: "\<exists>s'. do { (_, s) \<leftarrow> lk_ip4_input H p n s3; Some (ERR_OK, s) } = Some (ERR_OK, s') \<and> arp_safe R s s'"
    proof -
      obtain e s' where "lk_ip4_input H p n s3 = Some (e, s')" "arp_safe R s3 s'"
        using H i3 s3(3) unfolding hooks_ok_def by blast
      then show ?thesis using arp_safe_tail [OF t3] by simp
    qed
    have arp: "\<exists>s'. do { s \<leftarrow> etharp_input H p (Some n) s3; Some (ERR_OK, s) } = Some (ERR_OK, s') \<and> arp_safe R s s'"
      using etharp_input_ok [OF H i3(1) s3(3) i3(2) s3(4)] arp_safe_tail [OF t3] by auto
    show ?thesis unfolding ev using ip arp fin [OF m(1)] fin [OF stat [OF m(1)]] by simp
  qed
qed

end
