(* ===== verification/Etharp_Safety.thy ===== *)
theory Etharp_Safety
  imports Etharp_Input
begin

text \<open>
  The properties of the ARP layer as a whole: any sequence of its operations keeps packets and table
  in order and returns; looking up, learning and forgetting addresses.
\<close>


section \<open>Sequences of operations\<close>

text \<open>
  What its clients do to the ARP layer: the interface and the packets they refer to, and, for each
  operation, when it may be called and what it does. The list holds the references to packets
  outside the table; a received packet is handed over.
\<close>

datatype arp_op =
  Send nif ptr u32
| Receive ptr nif
| Request nif u32
| Learn nif u32 "u8 list" u8
| Tick
| Cleanup nif

fun arp_can :: "arp_op \<Rightarrow> 'a arp_scheme \<times> ptr list \<Rightarrow> bool" where
  "arp_can (Send n q a) (s, R) \<longleftrightarrow> netif_ok s n \<and> q \<in> set R \<and> count_list R q < 200 \<and> 0 < plen s q \<and> (\<exists>xs. packet s q xs)"
| "arp_can (Receive p n) (s, R) \<longleftrightarrow> netif_ok s n \<and> p \<in> set R \<and> (\<exists>xs. packet s p xs)"
| "arp_can (Request n a) (s, R) \<longleftrightarrow> netif_ok s n"
| "arp_can (Learn n a m f) (s, R) \<longleftrightarrow> netif_ok s n \<and> length m = 6"
| "arp_can Tick (s, R) \<longleftrightarrow> True"
| "arp_can (Cleanup n) (s, R) \<longleftrightarrow> True"

fun arp_do :: "'a arp_scheme link \<Rightarrow> arp_op \<Rightarrow> 'a arp_scheme \<times> ptr list \<Rightarrow> ('a arp_scheme \<times> ptr list) option" where
  "arp_do H (Send n q a) (s, R) = map_option (\<lambda>(e, s). (s, R)) (etharp_output H n q a s)"
| "arp_do H (Receive p n) (s, R) = map_option (\<lambda>(e, s). (s, remove1 p R)) (ethernet_input H p n s)"
| "arp_do H (Request n a) (s, R) = map_option (\<lambda>(e, s). (s, R)) (etharp_query H n a None s)"
| "arp_do H (Learn n a m f) (s, R) = map_option (\<lambda>(e, s). (s, R)) (etharp_update_arp_entry H n a (\<lambda>_. m) f s)"
| "arp_do H Tick (s, R) = map_option (\<lambda>s. (s, R)) (etharp_tmr H s)"
| "arp_do H (Cleanup n) (s, R) = map_option (\<lambda>s. (s, R)) (etharp_cleanup_netif H n s)"

inductive arp_run :: "'a arp_scheme link \<Rightarrow> 'a arp_scheme \<times> ptr list \<Rightarrow> arp_op list \<Rightarrow> 'a arp_scheme \<times> ptr list \<Rightarrow> bool" for H where
  stop: "arp_run H c [] c"
| step: "arp_can op c \<Longrightarrow> arp_do H op c = Some c' \<Longrightarrow> arp_run H c' ops c'' \<Longrightarrow> arp_run H c (op # ops) c''"

inductive_cases arp_run_ConsE: "arp_run H c (op # ops) c''"

lemma arp_inv_swap: "(\<And>x. count_list R' x = count_list R x) \<Longrightarrow> arp_inv s R' = arp_inv s R"
  using owned_cong [of "arp_queues (arp_table s) @ R'" "arp_queues (arp_table s) @ R" s] by (simp add: arp_inv_def)

lemma count_remove1: "p \<in> set R \<Longrightarrow> count_list (p # remove1 p R) x = count_list R x"
  by (induction R) auto

lemma arp_do_ok:
  assumes H: "hooks_ok H" and inv: "arp_inv s R" and can: "arp_can op (s, R)"
  shows "\<exists>s' R'. arp_do H op (s, R) = Some (s', R') \<and> arp_inv s' R' \<and> diag s' = diag s \<and> (\<forall>n. netif_ok s n \<longrightarrow> netif_ok s' n)"
proof -
  have oH: "output_ok H" using H by (simp add: hooks_ok_def)
  have to: "arp_inv s' R \<and> diag s' = diag s \<and> (\<forall>n. netif_ok s n \<longrightarrow> netif_ok s' n)" if "arp_to R s s'" for s'
    using arp_toD [OF that] by simp
  show ?thesis
  proof (cases op)
    case (Send n q a)
    then obtain xs where c: "netif_ok s n" "q \<in> set R" "count_list R q < 200" "0 < plen s q" "packet s q xs" using can by auto
    then show ?thesis using etharp_output_ok [OF oH inv c(1,2,5,3,4), of a] to Send by fastforce
  next
    case (Receive p n)
    then obtain xs where c: "netif_ok s n" "p \<in> set R" "packet s p xs" using can by auto
    have "arp_inv s (p # remove1 p R)" using arp_inv_swap [OF count_remove1 [OF c(2)]] inv by blast
    from ethernet_input_ok [OF H this c(3,1)] show ?thesis using Receive by (auto simp: arp_safe_def)
  next
    case (Request n a)
    then have "netif_ok s n" using can by simp
    from query_ok [OF oH inv this, of None a] show ?thesis using to Request by fastforce
  next
    case (Learn n a m f)
    then have c: "netif_ok s n" "length m = 6" using can by simp_all
    then show ?thesis using update_ok [OF oH inv c(1), of "\<lambda>_. m" a f] to Learn by fastforce
  next
    case Tick
    then show ?thesis using tmr_ok [OF oH inv] to by fastforce
  next
    case (Cleanup n)
    then show ?thesis using cleanup_ok [OF inv, of "[0..<ARP_TABLE_SIZE]" H n] to by (fastforce simp: etharp_cleanup_netif_def)
  qed
qed

lemma arp_run_pair:
  assumes "arp_run H c ops c'" "hooks_ok H" "arp_inv (fst c) (snd c)"
  shows "arp_inv (fst c') (snd c') \<and> diag (fst c') = diag (fst c)"
  using assms(1,3)
proof (induction rule: arp_run.induct)
  case (step op c c' ops c'')
  then show ?case using arp_do_ok [OF assms(2), of "fst c" "snd c" op] by auto
qed simp

lemmas arp_run_ok = arp_run_pair [of _ "(s, R)" _ "(s', R')" for s R s' R', simplified]





section \<open>Looking up, learning and forgetting\<close>


text \<open>
  C33. What the ARP layer learns it can tell: after an address that denotes one host was entered with
  a hardware address, looking it up on that interface gives exactly this hardware address, without
  changing anything.
\<close>

theorem arp_learn_find:
  fixes s :: "'a arp_scheme"
  assumes "output_ok H" "arp_inv s R" "netif_ok s n" "length m = 6" "arp_host s n a"
  shows "\<exists>s' i. etharp_update_arp_entry H n a (\<lambda>_. m) ETHARP_FLAG_TRY_HARD s = Some (ERR_OK, s') \<and>
    etharp_find_addr H n a s' = Some (Some (i, m, a), s') \<and> arp_inv s' R"
proof -
  obtain e s' where s': "etharp_update_arp_entry H n a (\<lambda>_. m) ETHARP_FLAG_TRY_HARD s = Some (e, s')" "arp_to R s s'"
    "case etharp_find_entry H (Some a) ETHARP_FLAG_TRY_HARD (Some n) s of Some (Inr i, s1) \<Rightarrow> e = ERR_OK \<and> found a n s i s1 \<and>
       (\<exists>t. arp_table s' = (arp_table s1)[i := stable_entry a n ((\<lambda>_. m) (t :: 'a arp_scheme))]) | _ \<Rightarrow> e = ERR_MEM \<and> s' = s"
    using update_ok [OF assms(1-3), of "\<lambda>_. m" a ETHARP_FLAG_TRY_HARD] assms(4,5) by auto
  from assms(2) show ?thesis
  proof (cases rule: find_entry_cases [of s R H a ETHARP_FLAG_TRY_HARD n])
    case none
    then show ?thesis by (simp add: ETHARP_FLAG_TRY_HARD_def ETHARP_FLAG_FIND_ONLY_def)
  next
    case f: (entry i s1)
    have t: "e = ERR_OK" "arp_table s' = (arp_table s1)[i := stable_entry a n m]" using s'(3) f(1) by simp_all
    have l: "i < length (arp_table s1)" "i < ARP_TABLE_SIZE"
      using found_key(4) [OF assms(2) f(3)] arp_invD(1) [OF arp_toD(1) [OF f(2)]] by simp_all
    have hit: "matches (Some a) (Some n) (arp_table s' ! i)" using t(2) l by (simp add: matches_def stable_entry_def)
    from arp_toD(1) [OF s'(2)] show ?thesis
    proof (cases rule: find_entry_cases [of s' R H a ETHARP_FLAG_FIND_ONLY n])
      case none
      then show ?thesis using hit l by blast
    next
      case g: (entry j s2)
      have j: "s2 = s'" "j < ARP_TABLE_SIZE" "matches (Some a) (Some n) (arp_table s' ! j)"
        using g(3) hit l unfolding found_def by blast+
      have "j = i" using arp_invD(6) [OF arp_toD(1) [OF s'(2)] j(2) l(2)] j(3) hit by (auto simp: matches_def same_key_def)
      then have "etharp_find_addr H n a s' = Some (Some (i, m, a), s')"
        using g(1) j(1) t(2) l by (simp add: etharp_find_addr_def stable_entry_def)
      then show ?thesis using s'(1) t(1) arp_toD(1) [OF s'(2)] by blast
    qed
  qed
qed

text \<open>The timer, a number of times.\<close>

fun etharp_ticks :: "'a arp_scheme link \<Rightarrow> nat \<Rightarrow> 'a arp_scheme \<Rightarrow> 'a arp_scheme option" where
  "etharp_ticks H 0 s = Some s"
| "etharp_ticks H (Suc k) s = do { s \<leftarrow> etharp_tmr H s; etharp_ticks H k s }"

lemma ticks_ok:
  assumes "output_ok H" "arp_inv s R"
  shows "\<exists>s'. etharp_ticks H k s = Some s' \<and> arp_to R s s' \<and> arp_table s' = map (aged ^^ k) (arp_table s)"
  using assms(2)
proof (induction k arbitrary: s)
  case 0
  then show ?case using arp_to_refl by simp
next
  case (Suc k)
  obtain s1 where s1: "etharp_tmr H s = Some s1" "arp_to R s s1" "arp_table s1 = map aged (arp_table s)"
    using tmr_ok [OF assms(1) Suc.prems] by blast
  obtain s' where s': "etharp_ticks H k s1 = Some s'" "arp_to R s1 s'" "arp_table s' = map (aged ^^ k) (arp_table s1)"
    using Suc.IH [OF arp_toD(1) [OF s1(2)]] by blast
  then show ?case using s1 arp_to_trans [OF s1(2) s'(2)] by (simp add: funpow_swap1 comp_def)
qed

lemma aged_once:
  assumes "unat (e_ctime e) < 300"
  shows "e_state (aged e) = ETHARP_STATE_EMPTY \<or> unat (e_ctime (aged e)) = Suc (unat (e_ctime e)) \<and> unat (e_ctime (aged e)) < 300 \<and>
    (e_state e = ETHARP_STATE_PENDING \<longrightarrow> e_state (aged e) = ETHARP_STATE_PENDING \<and> unat (e_ctime (aged e)) < 5) \<and>
    (e_state (aged e) = ETHARP_STATE_PENDING \<longrightarrow> e_state e = ETHARP_STATE_PENDING)"
proof -
  have "unat (e_ctime e + 1) = Suc (unat (e_ctime e))" using assms by (simp add: unat_word_ariths)
  then show ?thesis by (cases "e_state e") (simp_all add: aged_def Let_def ARP_MAXAGE_def ARP_MAXPENDING_def word_le_nat_alt)
qed

lemma aged_empty: "e_state e = ETHARP_STATE_EMPTY \<Longrightarrow> aged e = e"
  by (simp add: aged_def)

lemma aged_many:
  assumes "unat (e_ctime e) < 300"
  shows "e_state ((aged ^^ k) e) = ETHARP_STATE_EMPTY \<or> unat (e_ctime ((aged ^^ k) e)) = unat (e_ctime e) + k \<and> unat (e_ctime ((aged ^^ k) e)) < 300 \<and>
    (0 < k \<longrightarrow> e_state ((aged ^^ k) e) = ETHARP_STATE_PENDING \<longrightarrow> unat (e_ctime ((aged ^^ k) e)) < 5)"
proof (induction k)
  case (Suc k)
  define x where "x = (aged ^^ k) e"
  have "e_state (aged x) = ETHARP_STATE_EMPTY \<or> unat (e_ctime (aged x)) = unat (e_ctime e) + Suc k \<and> unat (e_ctime (aged x)) < 300 \<and>
    (e_state (aged x) = ETHARP_STATE_PENDING \<longrightarrow> unat (e_ctime (aged x)) < 5)"
  proof (cases "e_state x = ETHARP_STATE_EMPTY")
    case False
    then have "unat (e_ctime x) = unat (e_ctime e) + k" "unat (e_ctime x) < 300" using Suc.IH [folded x_def] by simp_all
    then show ?thesis using aged_once [of x] by linarith
  qed (simp add: aged_empty)
  then show ?case by (simp add: x_def)
qed (use assms in simp)




section \<open>The state after initialisation\<close>

definition stats_zero :: stats_proto where
  "stats_zero = \<lparr>st_xmit = 0, st_recv = 0, st_fw = 0, st_drop = 0, st_chkerr = 0, st_lenerr = 0, st_memerr = 0, st_rterr = 0,
     st_proterr = 0, st_opterr = 0, st_err = 0, st_cachehit = 0\<rparr>"

definition empty_entry :: etharp_entry where
  "empty_entry = \<lparr>e_q = None, e_ipaddr = 0, e_netif = None, e_ethaddr = replicate 6 0, e_ctime = 0, e_state = ETHARP_STATE_EMPTY\<rparr>"

text \<open>One interface, 10.0.0.2/24, that is up and can send.\<close>

definition eth0 :: netdev where
  "eth0 = \<lparr>nf_next = None, nf_ip_addr = 0x0200000a, nf_netmask = 0x00ffffff, nf_gw = 0x0100000a, nf_mtu = 1500,
     nf_hwaddr = [0x02, 0, 0, 0, 0, 0x01], nf_hwaddr_len = 6, nf_flags = 0x0f, nf_name = (0x65, 0x30), nf_num = 0,
     nf_input = Some 1, nf_output = Some 0, nf_linkoutput = Some 0, nf_status_callback = None, nf_link_callback = None,
     nf_state = None, nf_dhcp = None, nf_autoip = None, nf_acd_list = None\<rparr>"

definition arp_boot :: arp where
  "arp_boot = net.extend (timers.extend (stack.extend (stack_boot desc_two) (timers.fields Map.empty None 0 False None None))
     (net.fields (\<lambda>_. eth0) (Some 0) (Some 0) 1 stats_zero stats_zero stats_zero stats_zero stats_zero stats_zero stats_zero))
     (arp.fields (replicate ARP_TABLE_SIZE empty_entry) 0)"

lemma arp_boot_sel [simp]:
  "arp_table arp_boot = replicate ARP_TABLE_SIZE empty_entry" "etharp_cached_entry arp_boot = 0" "netifs arp_boot n = eth0"
  "pb arp_boot = Map.empty" "diag arp_boot = []"
  using boot_two(3,5)
  by (simp_all add: arp_boot_def net.defs arp.defs timers.defs stack.defs)

lemma arp_boot_mem: "mem_ok arp_boot"
proof -
  let ?b = "stack_boot desc_two"
  have f: "ram arp_boot = ram ?b" "lfree arp_boot = lfree ?b" "ram_end arp_boot = ram_end ?b" "mst_used arp_boot = mst_used ?b"
    "memp_pools arp_boot = memp_pools ?b" "tab arp_boot = tab ?b" "mnext arp_boot = mnext ?b" "mps_used arp_boot = mps_used ?b"
    by (simp_all add: arp_boot_def net.defs arp.defs timers.defs stack.defs)
  show ?thesis
    using boot_two(1) heap_inv_frame(1) [OF f(1-4)] pools_frame(1) [OF f(5-8)] f(5) by (simp add: mem_ok_def)
qed


lemma arp_boot_inv: "arp_inv arp_boot []"
proof -
  have "arp_queues (arp_table arp_boot) = []" by (simp add: arp_queues_def queue_of_def empty_entry_def)
  moreover have "owned arp_boot []" by (rule boot_owned) (simp_all add: arp_boot_mem)
  moreover have "unique_keys (arp_table arp_boot)" by (simp add: unique_keys_def same_key_def empty_entry_def)
  moreover have "entry_ok arp_boot empty_entry" by (simp add: entry_ok_def empty_entry_def)
  ultimately show ?thesis by (simp add: arp_inv_def arp_table_ok_def ARP_TABLE_SIZE_def)
qed

lemma arp_boot_netif: "netif_ok arp_boot n"
  by (simp add: netif_ok_def eth0_def ETH_HWADDR_LEN_def)

lemma extend_boot_sel [simp]:
  "arp_table (arp.extend arp_boot x) = replicate ARP_TABLE_SIZE empty_entry" "netifs (arp.extend arp_boot x) n = eth0"
  "pb (arp.extend arp_boot x) = Map.empty" "diag (arp.extend arp_boot x) = []" "octet (arp.extend arp_boot x) = octet arp_boot"
  "stats_link (arp.extend arp_boot x) = stats_link arp_boot" "etharp_cached_entry (arp.extend arp_boot x) = 0"
  using boot_two(3,5)
  by (simp_all add: arp_boot_def net.defs arp.defs timers.defs stack.defs)

lemma extend_boot_mem: "mem_ok (arp.extend arp_boot x)"
proof -
  let ?b = "arp.extend arp_boot x"
  have f: "ram ?b = ram arp_boot" "lfree ?b = lfree arp_boot" "ram_end ?b = ram_end arp_boot" "mst_used ?b = mst_used arp_boot"
    "memp_pools ?b = memp_pools arp_boot" "tab ?b = tab arp_boot" "mnext ?b = mnext arp_boot" "mps_used ?b = mps_used arp_boot"
    by (simp_all add: arp.defs)
  show ?thesis
    using arp_boot_mem heap_inv_frame(1) [OF f(1-4)] pools_frame(1) [OF f(5-8)] f(5) by (simp add: mem_ok_def)
qed

lemma extend_boot: "arp_inv (arp.extend arp_boot x) []" "netif_ok (arp.extend arp_boot x) n"
proof -
  let ?b = "arp.extend arp_boot x"
  have "arp_queues (arp_table ?b) = []" by (simp add: arp_queues_def queue_of_def empty_entry_def)
  moreover have "owned ?b []" by (rule boot_owned) (simp_all add: extend_boot_mem)
  moreover have "unique_keys (arp_table ?b)" by (simp add: unique_keys_def same_key_def empty_entry_def)
  moreover have "entry_ok ?b empty_entry" by (simp add: entry_ok_def empty_entry_def)
  ultimately show "arp_inv ?b []" by (simp add: arp_inv_def arp_table_ok_def ARP_TABLE_SIZE_def)
  show "netif_ok ?b n" by (simp add: netif_ok_def eth0_def ETH_HWADDR_LEN_def)
qed

text \<open>A link that takes every frame, under an IP layer that drops every packet.\<close>

definition plain_link :: "'a arp_scheme link" where
  "plain_link = \<lparr>lk_free = (\<lambda>_. Some), lk_linkoutput = (\<lambda>_ _ _ s. Some (ERR_OK, s)),
     lk_ip4_input = (\<lambda>p _ s. map_option (\<lambda>(_, s). (ERR_OK, s)) (pbuf_free (\<lambda>_. Some) (Some p) s)), lk_acd_arp_reply = (\<lambda>_ _. Some)\<rparr>"

lemma plain_link_ok: "hooks_ok plain_link"
  unfolding hooks_ok_def
proof (intro conjI allI impI)
  show "output_ok plain_link" by (simp add: output_ok_def plain_link_def link_frame_def same_mem_def)
  show "\<exists>s'. lk_acd_arp_reply plain_link n h s = Some s' \<and> arp_safe R s s'" if "arp_inv s R" for n h s R
    using that by (simp add: plain_link_def arp_safe_def)
  show "\<exists>e s'. lk_ip4_input plain_link p n s = Some (e, s') \<and> arp_safe R s s'" if i: "arp_inv s (p # R)" for p n s R
    using free_safe [OF i, of "\<lambda>_. Some"] by (auto simp: plain_link_def)
qed

lemma boot_run:
  assumes "\<forall>c. arp_can op (c :: arp \<times> ptr list)"
  shows "\<exists>s R. arp_run plain_link (arp_boot, []) [op] (s, R)"
proof -
  obtain s R where "arp_do plain_link op (arp_boot, []) = Some (s, R)"
    using arp_do_ok [OF plain_link_ok arp_boot_inv, of op] assms by blast
  then have "arp_run plain_link (arp_boot, []) [op] (s, R)" using assms arp_run.stop by (intro arp_run.step) auto
  then show ?thesis by blast
qed





theorem arp_learn_find_witness:
  "\<exists>s' i. etharp_update_arp_entry plain_link 0 0x0300000a (\<lambda>_. [2, 0, 0, 0, 0, 3]) ETHARP_FLAG_TRY_HARD arp_boot = Some (ERR_OK, s') \<and>
     etharp_find_addr plain_link 0 0x0300000a s' = Some (Some (i, [2, 0, 0, 0, 0, 3], 0x0300000a), s')"
proof -
  have "\<not> (0x0300000a = IPADDR_ANY \<or> ip4_addr_isbroadcast_u32 0x0300000a eth0 \<or> ip4_addr_ismulticast 0x0300000a)" by code_simp
  then have "arp_host arp_boot 0 0x0300000a" by (simp add: arp_host_def)
  then show ?thesis
    using arp_learn_find [OF _ arp_boot_inv arp_boot_netif, of plain_link "[2, 0, 0, 0, 0, 3]" 0 "0x0300000a"] plain_link_ok
    by (auto simp: hooks_ok_def)
qed


end
