(* ===== verification/Lan91c111.thy ===== *)
theory Lan91c111
  imports Etharp_Safety "HOL-Library.Signed_Division"
begin

text \<open>
  The driver of the LAN91C111 Ethernet chip, \<^verbatim>\<open>platform/eth_driver.c\<close>. The chip itself is a
  parameter: what reading and writing each of its registers does to it. Delay loops and progress
  messages on the console are left out.
\<close>

section \<open>Registers\<close>

text \<open>
  The registers by their offset; which register an offset means depends on the bank that was
  selected last, which is a matter of the chip.
\<close>

record 'h chip =
  ch_read :: "nat \<Rightarrow> 'h \<Rightarrow> u16 \<times> 'h"
  ch_write :: "nat \<Rightarrow> u16 \<Rightarrow> 'h \<Rightarrow> 'h"
  ch_write8 :: "nat \<Rightarrow> u8 \<Rightarrow> 'h \<Rightarrow> 'h"

definition np_bank :: nat where "np_bank = 14"

text \<open>Bank 0.\<close>

definition np_tcr :: nat where "np_tcr = 0"

definition np_eph_status :: nat where "np_eph_status = 2"

definition np_rcr :: nat where "np_rcr = 4"

definition np_counter :: nat where "np_counter = 6"

definition np_mir :: nat where "np_mir = 8"

definition np_rpcr :: nat where "np_rpcr = 10"

text \<open>Bank 1.\<close>

definition np_config :: nat where "np_config = 0"

definition np_base :: nat where "np_base = 2"

definition np_ia0_1 :: nat where "np_ia0_1 = 4"

definition np_ia2_3 :: nat where "np_ia2_3 = 6"

definition np_ia4_5 :: nat where "np_ia4_5 = 8"

definition np_general :: nat where "np_general = 10"

definition np_control :: nat where "np_control = 12"

text \<open>Bank 2.\<close>

definition np_mmu_command :: nat where "np_mmu_command = 0"

definition np_pnr :: nat where "np_pnr = 2"

definition np_fifo_ports :: nat where "np_fifo_ports = 4"

definition np_pointer :: nat where "np_pointer = 6"

definition np_data :: nat where "np_data = 8"

definition np_data_2 :: nat where "np_data_2 = 10"

definition np_interrupt :: nat where "np_interrupt = 12"

text \<open>Bank 3.\<close>

definition np_mt0_1 :: nat where "np_mt0_1 = 0"

definition np_mt2_3 :: nat where "np_mt2_3 = 2"

definition np_mt4_5 :: nat where "np_mt4_5 = 4"

definition np_mt6_7 :: nat where "np_mt6_7 = 6"

definition np_mgmt :: nat where "np_mgmt = 8"

definition np_revision :: nat where "np_revision = 10"

definition np_ercv :: nat where "np_ercv = 12"

section \<open>Bits of the registers\<close>

definition TCR_ENABLE :: u16 where "TCR_ENABLE = 0x0001"

definition TCR_PAD_EN :: u16 where "TCR_PAD_EN = 0x0080"

definition TCR_CLEAR :: u16 where "TCR_CLEAR = 0"

definition TCR_DEFAULT :: u16 where "TCR_DEFAULT = TCR_ENABLE OR TCR_PAD_EN"

definition RCR_PRMS :: u16 where "RCR_PRMS = 0x0002"

definition RCR_RXEN :: u16 where "RCR_RXEN = 0x0100"

definition RCR_STRIP_CRC :: u16 where "RCR_STRIP_CRC = 0x0200"

definition RCR_SOFTRST :: u16 where "RCR_SOFTRST = 0x8000"

definition RCR_DEFAULT :: u16 where "RCR_DEFAULT = RCR_STRIP_CRC OR RCR_RXEN"

definition RCR_CLEAR :: u16 where "RCR_CLEAR = 0"

definition CONFIG_EPH_POWER_EN :: u16 where "CONFIG_EPH_POWER_EN = 0x8000"

definition CONFIG_DEFAULT :: u16 where "CONFIG_DEFAULT = CONFIG_EPH_POWER_EN"

definition CTL_AUTO_RELEASE :: u16 where "CTL_AUTO_RELEASE = 0x0800"

definition MC_BUSY :: u16 where "MC_BUSY = 1"

definition MC_ALLOC :: u16 where "MC_ALLOC = push_bit 5 1"

definition MC_RESET :: u16 where "MC_RESET = push_bit 5 2"

definition MC_RELEASE :: u16 where "MC_RELEASE = push_bit 5 4"

definition MC_ENQUEUE :: u16 where "MC_ENQUEUE = push_bit 5 6"

definition AR_FAILED :: u16 where "AR_FAILED = 0x80"

definition RXFIFO_REMPTY :: u16 where "RXFIFO_REMPTY = 0x8000"

definition PTR_RCV :: u16 where "PTR_RCV = 0x8000"

definition PTR_AUTOINC :: u16 where "PTR_AUTOINC = 0x4000"

definition PTR_READ :: u16 where "PTR_READ = 0x2000"

definition IM_EPH_INT :: u8 where "IM_EPH_INT = 0x20"

definition IM_RX_OVRN_INT :: u8 where "IM_RX_OVRN_INT = 0x10"

definition IM_TX_INT :: u8 where "IM_TX_INT = 0x02"

definition IM_RCV_INT :: u8 where "IM_RCV_INT = 0x01"

definition LAN91C111_INTERRUPT_MASK :: u8 where "LAN91C111_INTERRUPT_MASK = IM_EPH_INT OR IM_RCV_INT"

definition MII_MDOE :: u8 where "MII_MDOE = 0x0008"

definition MII_MCLK :: u8 where "MII_MCLK = 0x0004"

definition MII_MDI :: u8 where "MII_MDI = 0x0002"

definition MII_MDO :: u8 where "MII_MDO = 0x0001"

definition RS_ALGNERR :: u16 where "RS_ALGNERR = 0x8000"

definition RS_BADCRC :: u16 where "RS_BADCRC = 0x2000"

definition RS_TOOLONG :: u16 where "RS_TOOLONG = 0x0800"

definition RS_TOOSHORT :: u16 where "RS_TOOSHORT = 0x0400"

definition RS_ERRORS :: u16 where "RS_ERRORS = RS_ALGNERR OR RS_BADCRC OR RS_TOOLONG OR RS_TOOSHORT"

text \<open>The chip revisions with a name in the table.\<close>

definition chip_ids :: "bool list" where
  "chip_ids = [False, False, False, True, True, True, True, True, True, True, False, False, False, False, False, False]"

section \<open>The driver's state\<close>

text \<open>The chip and \<^verbatim>\<open>s_lan91c111_state\<close>.\<close>

record 'h adapter = arp +
  dev :: 'h
  phy_address :: int
  ever_sent_packet :: int
  tx_packet :: int
  irq_onoff :: int

text \<open>The receive buffer, an array of 768 words.\<close>

definition g_frame_buffer :: ptr where "g_frame_buffer = (Ext 0, 0)"

definition SIZEOF_FRAME_BUFFER :: int where "SIZEOF_FRAME_BUFFER = 2 * 768"

definition rd :: "'h chip \<Rightarrow> nat \<Rightarrow> ('h, 'z) adapter_scheme \<Rightarrow> u16 \<times> ('h, 'z) adapter_scheme" where
  "rd C r s = (let (v, h) = ch_read C r (dev s) in (v, s\<lparr>dev := h\<rparr>))"

definition wr :: "'h chip \<Rightarrow> nat \<Rightarrow> u16 \<Rightarrow> ('h, 'z) adapter_scheme \<Rightarrow> ('h, 'z) adapter_scheme" where
  "wr C r v s = s\<lparr>dev := ch_write C r v (dev s)\<rparr>"

definition wr8 :: "'h chip \<Rightarrow> nat \<Rightarrow> u8 \<Rightarrow> ('h, 'z) adapter_scheme \<Rightarrow> ('h, 'z) adapter_scheme" where
  "wr8 C r v s = s\<lparr>dev := ch_write8 C r v (dev s)\<rparr>"

definition LAN91C111_SELECT_BANK :: "'h chip \<Rightarrow> u16 \<Rightarrow> ('h, 'z) adapter_scheme \<Rightarrow> ('h, 'z) adapter_scheme" where
  "LAN91C111_SELECT_BANK C x s = wr C np_bank x s"

definition LAN91C111_ACKNOWLEDGE_INTERRUPT :: "'h chip \<Rightarrow> u8 \<Rightarrow> ('h, 'z) adapter_scheme \<Rightarrow> ('h, 'z) adapter_scheme" where
  "LAN91C111_ACKNOWLEDGE_INTERRUPT C ack_mask s = wr8 C np_interrupt ack_mask (LAN91C111_SELECT_BANK C 2 s)"

section \<open>Setting up\<close>

definition r_lan91c111_enable :: "'h chip \<Rightarrow> ('h, 'z) adapter_scheme \<Rightarrow> ('h, 'z) adapter_scheme" where
  "r_lan91c111_enable C s =
     (let s = LAN91C111_SELECT_BANK C 0 s;
          s = wr C np_tcr TCR_DEFAULT s;
          s = wr C np_rcr RCR_DEFAULT s;
          s = wr C np_bank 2 s
      in wr C np_interrupt 0 s)"

definition r_allocate_tx_packet :: "'h chip \<Rightarrow> ('h, 'z) adapter_scheme \<Rightarrow> int \<times> ('h, 'z) adapter_scheme" where
  "r_allocate_tx_packet C s =
     (let s = wr C np_bank 2 s;
          s = wr C np_mmu_command MC_RESET s;
          s = wr C np_mmu_command MC_ALLOC s;
          (pnr, s) = rd C np_pnr s
      in if pnr AND AR_FAILED \<noteq> 0 then (-1, s)
         else (0, s\<lparr>tx_packet := uint (drop_bit 8 pnr AND 0x3F), ever_sent_packet := 0\<rparr>))"

definition nr_lan91c111_reset :: "'h chip \<Rightarrow> ('h, 'z) adapter_scheme \<Rightarrow> int \<times> ('h, 'z) adapter_scheme" where
  "nr_lan91c111_reset C s =
     (let s = wr C np_bank 0 s;
          s = wr C np_rcr RCR_SOFTRST s;
          s = wr C np_rcr 0 s;
          s = LAN91C111_SELECT_BANK C 0 s;
          (bank, s) = rd C np_bank s
      in if bank AND 0xFF00 \<noteq> 0x3300 then (-1, s)
         else
      (let s = LAN91C111_SELECT_BANK C 3 s;
           (rev, s) = rd C np_revision s
       in if \<not> chip_ids ! unat (drop_bit 4 rev AND 0x0F) then (-1, s)
          else
      (let (_, s) = rd C np_revision s;
           s = LAN91C111_SELECT_BANK C 0 s;
           s = wr C np_rcr RCR_SOFTRST s;
           s = LAN91C111_SELECT_BANK C 1 s;
           s = wr C np_config CONFIG_DEFAULT s;
           s = LAN91C111_SELECT_BANK C 0 s;
           s = wr C np_rcr RCR_CLEAR s;
           s = wr C np_tcr TCR_CLEAR s;
           s = LAN91C111_SELECT_BANK C 1 s;
           (ctl, s) = rd C np_control s;
           s = wr C np_control (ctl AND NOT CTL_AUTO_RELEASE) s;
           s = LAN91C111_SELECT_BANK C 2 s;
           s = wr C np_mmu_command MC_RESET s;
           s = wr C np_interrupt 0 s;
           s = r_lan91c111_enable C s
       in r_allocate_tx_packet C s)))"

definition nr_lan91c111_set_promiscuous :: "'h chip \<Rightarrow> int \<Rightarrow> ('h, 'z) adapter_scheme \<Rightarrow> int \<times> ('h, 'z) adapter_scheme" where
  "nr_lan91c111_set_promiscuous C promiscuous_onoff s =
     (let s = LAN91C111_SELECT_BANK C 0 s;
          s = (if promiscuous_onoff = 0 then wr C np_rcr (RCR_DEFAULT AND NOT RCR_PRMS) s
               else wr C np_rcr (RCR_DEFAULT OR RCR_PRMS) s)
      in (0, s))"

definition nr_lan91c111_set_loopback :: "'h chip \<Rightarrow> int \<Rightarrow> ('h, 'z) adapter_scheme \<Rightarrow> int \<times> ('h, 'z) adapter_scheme" where
  "nr_lan91c111_set_loopback C loopback_onoff s = (-1, s)"

definition nr_lan91c111_set_irq :: "'h chip \<Rightarrow> int \<Rightarrow> ('h, 'z) adapter_scheme \<Rightarrow> int \<times> ('h, 'z) adapter_scheme" where
  "nr_lan91c111_set_irq C onoff s =
     (let interrupt_mask = (if onoff \<noteq> 0 then LAN91C111_INTERRUPT_MASK else 0);
          s = wr C np_bank 2 s;
          s = wr8 C (np_interrupt + 1) interrupt_mask s
      in (irq_onoff s, s\<lparr>irq_onoff := onoff\<rparr>))"

section \<open>The management interface\<close>

text \<open>A number, most significant of its five bits first, as the bits put on the line.\<close>

fun mii_number :: "nat \<Rightarrow> int \<Rightarrow> u8 \<Rightarrow> u8 list" where
  "mii_number 0 x msk = []"
| "mii_number (Suc n) x msk =
     (if x AND uint msk \<noteq> 0 then MII_MDOE OR MII_MDO else MII_MDOE) # mii_number n x (drop_bit 1 msk)"

fun mii_clock :: "'h chip \<Rightarrow> u16 \<Rightarrow> u8 list \<Rightarrow> ('h, 'z) adapter_scheme \<Rightarrow> u8 list \<times> ('h, 'z) adapter_scheme" where
  "mii_clock C mii_reg [] s = ([], s)"
| "mii_clock C mii_reg (b # bits) s =
     (let s = wr C np_mgmt (mii_reg OR ucast b) s;
          s = wr C np_mgmt (mii_reg OR ucast b OR ucast MII_MCLK) s;
          (v, s) = rd C np_mgmt s;
          (bs, s) = mii_clock C mii_reg bits s
      in ((b OR (ucast v AND MII_MDI)) # bs, s))"

fun mii_collect :: "u8 list \<Rightarrow> u16 \<Rightarrow> u16" where
  "mii_collect [] phydata = phydata"
| "mii_collect (b # bits) phydata =
     (let phydata = push_bit 1 phydata in
      mii_collect bits (if b AND MII_MDI \<noteq> 0 then phydata OR 1 else phydata))"

definition r_read_phy_register :: "'h chip \<Rightarrow> int \<Rightarrow> u8 \<Rightarrow> ('h, 'z) adapter_scheme \<Rightarrow> u16 \<times> ('h, 'z) adapter_scheme" where
  "r_read_phy_register C pa phyreg s =
     (let one = MII_MDOE OR MII_MDO; zero = MII_MDOE;
          out = replicate 32 one @ [zero, one] @ [one, zero] @ mii_number 5 pa 0x10 @ mii_number 5 (uint phyreg) 0x10 @ [0];
          input_idx = length out;
          bits = out @ replicate 16 0 @ [0];
          (old_bank, s) = rd C np_bank s;
          s = wr C np_bank 3 s;
          (mii_reg, s) = rd C np_mgmt s;
          mii_reg = mii_reg AND NOT (ucast (MII_MDOE OR MII_MCLK OR MII_MDI OR MII_MDO));
          (bits, s) = mii_clock C mii_reg bits s;
          s = wr C np_mgmt mii_reg s;
          s = wr C np_bank old_bank s
      in (mii_collect (take 16 (drop input_idx bits)) 0, s))"

text \<open>Reading a list of registers, for the dump.\<close>

fun read_all :: "'h chip \<Rightarrow> nat list \<Rightarrow> ('h, 'z) adapter_scheme \<Rightarrow> ('h, 'z) adapter_scheme" where
  "read_all C [] s = s"
| "read_all C (r # rs) s = read_all C rs (snd (rd C r s))"

definition nr_lan91c111_dump_registers :: "'h chip \<Rightarrow> ('h, 'z) adapter_scheme \<Rightarrow> int \<times> ('h, 'z) adapter_scheme" where
  "nr_lan91c111_dump_registers C s =
     (let pa = phy_address s;
          s = read_all C [np_tcr, np_eph_status, np_rcr, np_counter, np_mir, np_rpcr] (wr C np_bank 0 s);
          s = read_all C [np_config, np_base, np_ia0_1, np_ia2_3, np_ia4_5, np_general, np_control] (wr C np_bank 1 s);
          s = read_all C [np_mmu_command, np_pnr, np_fifo_ports, np_pointer, np_data, np_data_2, np_interrupt] (wr C np_bank 2 s);
          s = read_all C [np_mt0_1, np_mt2_3, np_mt4_5, np_mt6_7, np_mgmt, np_revision, np_ercv] (wr C np_bank 3 s)
      in (0, fold (\<lambda>r s. snd (r_read_phy_register C pa r s)) [0x00, 0x01, 0x02, 0x03, 0x04, 0x05, 0x10, 0x11, 0x12, 0x13] s))"

section \<open>Receiving\<close>

text \<open>A store to the receive buffer; one outside the array has no defined result.\<close>

definition put_frame :: "ptr \<Rightarrow> u8 list \<Rightarrow> ('h, 'z) adapter_scheme \<Rightarrow> ('h, 'z) adapter_scheme option" where
  "put_frame w xs s =
     (if snd g_frame_buffer \<le> snd w \<and> snd w + int (length xs) \<le> snd g_frame_buffer + SIZEOF_FRAME_BUFFER
      then Some (s\<lparr>octet := mem_write (octet s) w xs\<rparr>) else None)"

text \<open>The statement \<^verbatim>\<open>*w++ = *lan91c111_data_reg_ptr\<close>.\<close>

definition rx_word :: "'h chip \<Rightarrow> ptr \<times> ('h, 'z) adapter_scheme \<Rightarrow> (ptr \<times> ('h, 'z) adapter_scheme) option" where
  "rx_word C ws = (case ws of (w, s) \<Rightarrow>
     (let (v, s) = rd C np_data s in do {
        s \<leftarrow> put_frame w [ucast v, ucast (drop_bit 8 v)] s;
        Some (ptr_add w 2, s)
      }))"

fun rx_big_loops :: "'h chip \<Rightarrow> nat \<Rightarrow> ptr \<times> ('h, 'z) adapter_scheme \<Rightarrow> (ptr \<times> ('h, 'z) adapter_scheme) option" where
  "rx_big_loops C 0 ws = Some ws"
| "rx_big_loops C (Suc i) ws = do {
     ws \<leftarrow> rx_word C ws;
     ws \<leftarrow> rx_word C ws;
     ws \<leftarrow> rx_word C ws;
     ws \<leftarrow> rx_word C ws;
     ws \<leftarrow> rx_word C ws;
     ws \<leftarrow> rx_word C ws;
     ws \<leftarrow> rx_word C ws;
     ws \<leftarrow> rx_word C ws;
     rx_big_loops C i ws
   }"

fun rx_words :: "'h chip \<Rightarrow> nat \<Rightarrow> ptr \<times> ('h, 'z) adapter_scheme \<Rightarrow> (ptr \<times> ('h, 'z) adapter_scheme) option" where
  "rx_words C 0 ws = Some ws"
| "rx_words C (Suc i) ws = do { ws \<leftarrow> rx_word C ws; rx_words C i ws }"

text \<open>The frame at the head of the receive FIFO, into the buffer; the length without the control bytes.\<close>

definition rx_frame :: "'h chip \<Rightarrow> ('h, 'z) adapter_scheme \<Rightarrow> (int \<times> ('h, 'z) adapter_scheme) option" where
  "rx_frame C s =
     (let s = wr C np_pointer (PTR_READ OR PTR_RCV OR PTR_AUTOINC) s;
          (status, s) = rd C np_data s;
          (flen, s) = rd C np_data s;
          frame_length = uint (flen AND 0x07ff) - 4;
          frame_length = (if status AND RS_ERRORS \<noteq> 0 then 0 else frame_length);
          frame_length_in_words = frame_length sdiv 2;
          num_big_loops = frame_length_in_words sdiv 8;
          num_leftover_words = frame_length_in_words - num_big_loops * 8;
          num_leftover_bytes = frame_length - frame_length_in_words * 2
      in do {
        ws \<leftarrow> rx_big_loops C (nat num_big_loops) (g_frame_buffer, s);
        (w, s) \<leftarrow> rx_words C (nat num_leftover_words) ws;
        s \<leftarrow> (if num_leftover_bytes \<noteq> 0
              then (let (v, s) = rd C np_data s in
                    put_frame w (map (\<lambda>i. ucast (drop_bit (8 * i) v)) [0..<nat num_leftover_bytes]) s)
              else Some s);
        let control_byte = octet s (ptr_add g_frame_buffer (frame_length - 1));
        Some (if control_byte AND 0x20 \<noteq> 0 then frame_length - 1 else frame_length - 2, s)
      })"

text \<open>Waiting for the memory management unit, at most \<open>n\<close> times.\<close>

fun mmu_wait :: "'h chip \<Rightarrow> nat \<Rightarrow> ('h, 'z) adapter_scheme \<Rightarrow> bool \<times> ('h, 'z) adapter_scheme" where
  "mmu_wait C 0 s = (False, s)"
| "mmu_wait C (Suc n) s =
     (let (v, s) = rd C np_mmu_command s in if v AND MC_BUSY = 0 then (True, s) else mmu_wait C n s)"

text \<open>
  The loop over the received frames. The first part of the result tells whether the registers are
  restored on the way out.
\<close>

partial_function (option) rx_loop ::
  "'h chip \<Rightarrow> (ptr \<Rightarrow> int \<Rightarrow> ('h, 'z) adapter_scheme \<Rightarrow> (int \<times> ('h, 'z) adapter_scheme) option) \<Rightarrow> int \<Rightarrow> ('h, 'z) adapter_scheme \<Rightarrow>
   (bool \<times> int \<times> ('h, 'z) adapter_scheme) option" where
  "rx_loop C process_frame result s =
     (let (ist, s) = rd C np_interrupt s in
      if ist AND ucast IM_RCV_INT = 0 then Some (True, result, s)
      else
      (let (rx_packet, s) = rd C np_fifo_ports s in
       if rx_packet AND RXFIFO_REMPTY \<noteq> 0 then Some (True, -1, s)
       else do {
         (frame_length, s) \<leftarrow> rx_frame C s;
         let s = wr C np_mmu_command MC_RELEASE s;
         let (ready, s) = mmu_wait C 1000000 s;
         if \<not> ready then Some (False, -1, s)
         else do {
           (result, s) \<leftarrow> (if frame_length \<noteq> 0 then process_frame g_frame_buffer frame_length s else Some (result, s));
           rx_loop C process_frame result s
         }
       }))"

definition nr_lan91c111_check_for_events ::
  "'h chip \<Rightarrow> (ptr \<Rightarrow> int \<Rightarrow> ('h, 'z) adapter_scheme \<Rightarrow> (int \<times> ('h, 'z) adapter_scheme) option) \<Rightarrow> ('h, 'z) adapter_scheme \<Rightarrow>
   (int \<times> ('h, 'z) adapter_scheme) option" where
  "nr_lan91c111_check_for_events C process_frame s =
     (let (saved_bank, s) = rd C np_bank s;
          s = wr C np_bank 2 s;
          (saved_pointer, s) = rd C np_pointer s;
          (ist, s) = rd C np_interrupt s;
          s = (if ist AND ucast IM_RX_OVRN_INT \<noteq> 0 then LAN91C111_ACKNOWLEDGE_INTERRUPT C IM_RX_OVRN_INT s else s);
          (ist, s) = rd C np_interrupt s;
          (result, s) = (if ist AND ucast IM_EPH_INT \<noteq> 0 then (-1, LAN91C111_ACKNOWLEDGE_INTERRUPT C IM_EPH_INT s) else (0, s))
      in do {
        (restore, result, s) \<leftarrow> rx_loop C process_frame result s;
        Some (result, if restore then wr C np_bank saved_bank (wr C np_pointer saved_pointer s) else s)
      })"

section \<open>Transmitting\<close>

text \<open>The statement \<^verbatim>\<open>*lan91c111_data_reg_ptr = *w++\<close>.\<close>

definition tx_word :: "'h chip \<Rightarrow> ptr \<times> ('h, 'z) adapter_scheme \<Rightarrow> ptr \<times> ('h, 'z) adapter_scheme" where
  "tx_word C ws = (case ws of (w, s) \<Rightarrow> (ptr_add w 2, wr C np_data (get16 (octet s) w) s))"

fun tx_big_loops :: "'h chip \<Rightarrow> nat \<Rightarrow> ptr \<times> ('h, 'z) adapter_scheme \<Rightarrow> ptr \<times> ('h, 'z) adapter_scheme" where
  "tx_big_loops C 0 ws = ws"
| "tx_big_loops C (Suc i) ws =
     (let ws = tx_word C ws;
          ws = tx_word C ws;
          ws = tx_word C ws;
          ws = tx_word C ws;
          ws = tx_word C ws;
          ws = tx_word C ws;
          ws = tx_word C ws;
          ws = tx_word C ws
      in tx_big_loops C i ws)"

fun tx_words :: "'h chip \<Rightarrow> nat \<Rightarrow> ptr \<times> ('h, 'z) adapter_scheme \<Rightarrow> ptr \<times> ('h, 'z) adapter_scheme" where
  "tx_words C 0 ws = ws"
| "tx_words C (Suc i) ws = tx_words C i (tx_word C ws)"

text \<open>What is done about the frame sent before: whether the chip is free for the next one.\<close>

definition tx_previous :: "'h chip \<Rightarrow> ('h, 'z) adapter_scheme \<Rightarrow> bool \<times> ('h, 'z) adapter_scheme" where
  "tx_previous C s =
     (if ever_sent_packet s \<noteq> 0 then
        (let s = wr C np_bank 2 s;
             (ist, s) = rd C np_interrupt s
         in if ist AND ucast IM_TX_INT = 0 then (False, s)
            else
         (let s = wr C np_bank 0 s;
              (tcr, s) = rd C np_tcr s
          in if tcr AND TCR_ENABLE = 0
             then (let (tcr, s) = rd C np_tcr s in (True, wr C np_tcr (tcr OR TCR_ENABLE) s))
             else (True, s)))
      else (True, s))"

text \<open>Moving a frame into the chip and sending it.\<close>

definition tx_send :: "'h chip \<Rightarrow> ptr \<Rightarrow> int \<Rightarrow> ('h, 'z) adapter_scheme \<Rightarrow> ('h, 'z) adapter_scheme" where
  "tx_send C ethernet_frame frame_length s =
     (let frame_length_in_words = frame_length sdiv 2;
          num_big_loops = frame_length_in_words sdiv 8;
          num_leftover_words = frame_length_in_words - num_big_loops * 8;
          num_leftover_bytes = frame_length - frame_length_in_words * 2;
          s = wr C np_bank 2 s;
          s = wr C np_pnr (of_int (tx_packet s)) s;
          s = wr C np_pointer PTR_AUTOINC s;
          s = wr C np_data 0x0000 s;
          s = wr C np_data (of_int (frame_length + 6)) s;
          (w, s) = tx_words C (nat num_leftover_words) (tx_big_loops C (nat num_big_loops) (ethernet_frame, s));
          (w, s) = (if 2 \<le> num_leftover_bytes then tx_word C (w, s) else (w, s));
          s = (if odd num_leftover_bytes then wr C np_data (0x2000 OR (get16 (octet s) w AND 0x00ff)) s
               else wr C np_data 0 s);
          s = LAN91C111_ACKNOWLEDGE_INTERRUPT C IM_TX_INT s
      in wr C np_mmu_command MC_ENQUEUE s)"

definition nr_lan91c111_tx_frame ::
  "'h chip \<Rightarrow> ptr \<Rightarrow> int \<Rightarrow> ('h, 'z) adapter_scheme \<Rightarrow> int \<times> ('h, 'z) adapter_scheme" where
  "nr_lan91c111_tx_frame C ethernet_frame frame_length s =
     (let (old_irq, s) = nr_lan91c111_set_irq C 0 s;
          (result, s) =
            (if frame_length = 0 then (0, s)
             else
             (let (free, s) = tx_previous C s in
              if \<not> free then (1, s) else (0, tx_send C ethernet_frame frame_length s)));
          (_, s) = nr_lan91c111_set_irq C old_irq s
      in (result, s))"

end
