(* ===== verification/Lan91c111_Frames.thy ===== *)
theory Lan91c111_Frames
  imports Lan91c111
begin

text \<open>
  What the driver of \<^verbatim>\<open>platform/eth_driver.c\<close> puts into the chip for a frame and takes out of it: the
  unrolled loops against plain sequences of register accesses, and the frames against their layout
  in the chip's memory.
\<close>

section \<open>Accesses as a sequence\<close>

datatype access = W16 nat u16 | W8 nat u8

fun play :: "'h chip \<Rightarrow> access list \<Rightarrow> 'h \<Rightarrow> 'h" where
  "play C [] h = h"
| "play C (W16 r v # as) h = play C as (ch_write C r v h)"
| "play C (W8 r v # as) h = play C as (ch_write8 C r v h)"

lemma play_append [simp]: "play C (as @ bs) h = play C bs (play C as h)"
  by (induction C as h rule: play.induct) simp_all

fun chip_reads :: "'h chip \<Rightarrow> nat \<Rightarrow> 'h \<Rightarrow> u16 list \<times> 'h" where
  "chip_reads C 0 h = ([], h)"
| "chip_reads C (Suc n) h = (let (v, h) = ch_read C np_data h; (vs, h) = chip_reads C n h in (v # vs, h))"

lemma length_chip_reads: "length (fst (chip_reads C n h)) = n"
  by (induction n arbitrary: h) (simp_all add: Let_def split_beta)

section \<open>Transmitting\<close>

text \<open>A frame as the words written to the chip: pairs of octets, then the control word, with a last odd octet.\<close>

fun tx_frame_words :: "u8 list \<Rightarrow> u16 list" where
  "tx_frame_words [] = [0]"
| "tx_frame_words [a] = [0x2000 OR ucast a]"
| "tx_frame_words (a # b # xs) = le16 a b # tx_frame_words xs"

definition tx_script :: "int \<Rightarrow> int \<Rightarrow> u8 list \<Rightarrow> access list" where
  "tx_script tp irq xs =
     [W16 np_bank 2, W8 (np_interrupt + 1) 0, W16 np_bank 2, W16 np_pnr (of_int tp), W16 np_pointer PTR_AUTOINC,
      W16 np_data 0, W16 np_data (of_nat (length xs) + 6)] @ map (W16 np_data) (tx_frame_words xs) @
     [W16 np_bank 2, W8 np_interrupt IM_TX_INT, W16 np_mmu_command MC_ENQUEUE,
      W16 np_bank 2, W8 (np_interrupt + 1) (if irq \<noteq> 0 then LAN91C111_INTERRUPT_MASK else 0)]"

lemma tx_words_add: "tx_words C (m + n) ws = tx_words C n (tx_words C m ws)"
  by (induction m arbitrary: ws) simp_all

lemma tx_big: "tx_big_loops C n ws = tx_words C (8 * n) ws"
proof (induction n arbitrary: ws)
  case (Suc n)
  have "tx_words C (8 * Suc n) ws = tx_words C (8 * n) (tx_words C 8 ws)" using tx_words_add [of C 8 "8 * n" ws] by simp
  then show ?case using Suc by (simp add: Let_def eval_nat_numeral)
qed simp

lemma tx_unrolled: "tx_words C (n - n div 8 * 8) (tx_big_loops C (n div 8) ws) = tx_words C n ws"
proof -
  have "n = 8 * (n div 8) + (n - n div 8 * 8)" by simp
  then show ?thesis unfolding tx_big using tx_words_add by metis
qed

lemma tx_words_eq:
  "tx_words C n (w, s) = (ptr_add w (2 * int n), s\<lparr>dev := play C (map (W16 np_data) (map (\<lambda>i. get16 (octet s) (ptr_add w (2 * int i))) [0..<n])) (dev s)\<rparr>)"
proof (induction n arbitrary: w s)
  case (Suc n)
  have "map (\<lambda>i. get16 (octet s) (ptr_add w (2 * int i))) [0..<Suc n] =
    get16 (octet s) w # map (\<lambda>i. get16 (octet s) (ptr_add (ptr_add w 2) (2 * int i))) [0..<n]"
    unfolding upt_conv_Cons [OF zero_less_Suc] map_Suc_upt [symmetric] by (simp add: ptr_add_def algebra_simps)
  then show ?case using Suc.IH [of "ptr_add w 2" "wr C np_data (get16 (octet s) w) s"]
    by (simp add: tx_word_def wr_def ptr_add_def algebra_simps)
qed (simp add: ptr_add_def)

lemma tx_frame_words_read:
  "tx_frame_words (mem_read m w n) = map (\<lambda>i. get16 m (ptr_add w (2 * int i))) [0..<n div 2] @
     [if odd n then 0x2000 OR (get16 m (ptr_add w (2 * int (n div 2))) AND 0x00ff) else 0]"
proof (induction n arbitrary: w rule: induct_nat_012)
  case 1
  have "(0xff :: u16) = mask 8" by (simp add: mask_eq_exp_minus_1)
  then have "le16 a b AND 0xff = ucast a" for a b :: u8
    using bit_imp_le_length [of a] by (auto simp: le16_def bit_eq_iff bit_simps)
  then show ?case by (simp add: mem_read_def get16_def)
next
  case (ge2 n)
  have e: "map (\<lambda>i. get16 m (ptr_add w (2 * int i))) [0..<Suc (n div 2)] =
    get16 m w # map (\<lambda>i. get16 m (ptr_add (ptr_add w 2) (2 * int i))) [0..<n div 2]"
    unfolding upt_conv_Cons [OF zero_less_Suc] map_Suc_upt [symmetric] by (simp add: ptr_add_def algebra_simps)
  show ?case using ge2.IH(1) [of "ptr_add w 2"] e by (simp add: mem_read_2 get16_def ptr_add_def algebra_simps)
qed (simp add: mem_read_def)


lemma set_irq_eq:
  "nr_lan91c111_set_irq C x s = (irq_onoff s, s\<lparr>irq_onoff := x,
     dev := play C [W16 np_bank 2, W8 (np_interrupt + 1) (if x \<noteq> 0 then LAN91C111_INTERRUPT_MASK else 0)] (dev s)\<rparr>)"
  by (simp add: nr_lan91c111_set_irq_def wr_def wr8_def Let_def)

lemma sdiv_nat: "int n sdiv 2 = int (n div 2)" "int n sdiv 8 = int (n div 8)"
  by (simp_all add: signed_divide_int_def sgn_if zdiv_int)

definition tx_data :: "int \<Rightarrow> u8 list \<Rightarrow> access list" where
  "tx_data tp xs = [W16 np_bank 2, W16 np_pnr (of_int tp), W16 np_pointer PTR_AUTOINC, W16 np_data 0, W16 np_data (of_nat (length xs) + 6)] @
     map (W16 np_data) (tx_frame_words xs) @ [W16 np_bank 2, W8 np_interrupt IM_TX_INT, W16 np_mmu_command MC_ENQUEUE]"

lemma tx_send_eq: "tx_send C w (int n) s = s\<lparr>dev := play C (tx_data (tx_packet s) (mem_read (octet s) w n)) (dev s)\<rparr>"
proof -
  define s1 where "s1 = wr C np_data (of_int (int n + 6)) (wr C np_data 0 (wr C np_pointer PTR_AUTOINC (wr C np_pnr (of_int (tx_packet s)) (wr C np_bank 2 s))))"
  have s1: "s1 = s\<lparr>dev := play C [W16 np_bank 2, W16 np_pnr (of_int (tx_packet s)), W16 np_pointer PTR_AUTOINC, W16 np_data 0,
      W16 np_data (of_nat n + 6)] (dev s)\<rparr>" by (simp add: s1_def wr_def)
  define p where "p = ptr_add w (2 * int (n div 2))"
  define ws where "ws = map (\<lambda>i. get16 (octet s) (ptr_add w (2 * int i))) [0..<n div 2]"
  have lw: "nat (int (n div 2) - int (n div 2 div 8) * 8) = n div 2 - n div 2 div 8 * 8" by (simp add: of_nat_diff)
  have lb: "int n - int (n div 2) * 2 = int (n mod 2)" by presburger
  have x: "tx_words C (nat (int (n div 2) - int (n div 2 div 8) * 8)) (tx_big_loops C (nat (int (n div 2 div 8))) (w, s1)) =
    (p, s1\<lparr>dev := play C (map (W16 np_data) ws) (dev s1)\<rparr>)"
    unfolding lw nat_int tx_unrolled tx_words_eq by (simp add: ws_def p_def s1)
  have pn: "tx_packet (wr C np_bank 2 s) = tx_packet s" by (simp add: wr_def)
  have "tx_send C w (int n) s = wr C np_mmu_command MC_ENQUEUE (LAN91C111_ACKNOWLEDGE_INTERRUPT C IM_TX_INT
    (wr C np_data (if odd n then 0x2000 OR (get16 (octet s) p AND 0x00ff) else 0) (s1\<lparr>dev := play C (map (W16 np_data) ws) (dev s1)\<rparr>)))"
    unfolding tx_send_def Let_def sdiv_nat lb pn s1_def [symmetric] x prod.case by (simp add: s1)
  then show ?thesis
    by (simp add: s1 tx_data_def tx_frame_words_read ws_def p_def wr_def wr8_def LAN91C111_ACKNOWLEDGE_INTERRUPT_def LAN91C111_SELECT_BANK_def)
qed

text \<open>
  Sending a frame writes exactly the documented sequence to the chip, whatever the length: packet
  number and pointer, an empty status word, the length with its overhead, the octets of the frame in
  pairs, the control word with the odd octet, and the commands to queue it. The loop unrolled eight
  times with its two left-over loops does neither more nor less, and the driver's own state is as
  before.
\<close>

lemma tx_frame_writes:
  assumes "ever_sent_packet s = 0" "0 < n"
  shows "nr_lan91c111_tx_frame C w (int n) s =
    (0, s\<lparr>dev := play C (tx_script (tx_packet s) (irq_onoff s) (mem_read (octet s) w n)) (dev s)\<rparr>)"
  using assms
  by (simp add: nr_lan91c111_tx_frame_def set_irq_eq tx_previous_def tx_send_eq Let_def tx_data_def tx_script_def)



section \<open>Receiving\<close>

definition word_octets :: "u16 \<Rightarrow> u8 list" where
  "word_octets v = [ucast v, ucast (drop_bit 8 v)]"

lemma rx_words_add: "rx_words C (m + n) ws = do { ws \<leftarrow> rx_words C m ws; rx_words C n ws }"
proof (induction m arbitrary: ws)
  case (Suc m)
  then show ?case by (cases "rx_word C ws") simp_all
qed simp

lemma rx_big: "rx_big_loops C n ws = rx_words C (8 * n) ws"
proof (induction n arbitrary: ws)
  case (Suc n)
  have "rx_words C (8 * Suc n) ws = do { ws \<leftarrow> rx_words C 8 ws; rx_words C (8 * n) ws }" using rx_words_add [of C 8 "8 * n" ws] by simp
  also have "\<dots> = do { ws \<leftarrow> rx_words C 8 ws; rx_big_loops C n ws }" using Suc by simp
  finally show ?case by (simp add: eval_nat_numeral bind_assoc)
qed simp

lemma rx_unrolled: "do { ws \<leftarrow> rx_big_loops C (n div 8) ws; rx_words C (n - n div 8 * 8) ws } = rx_words C n ws"
proof -
  have "n = 8 * (n div 8) + (n - n div 8 * 8)" by simp
  then show ?thesis unfolding rx_big using rx_words_add by metis
qed

lemma length_word_octets [simp]: "length (concat (map word_octets ws)) = 2 * length ws"
  by (induction ws) (simp_all add: word_octets_def)

lemma rx_words_eq:
  assumes "0 \<le> o1"
  shows "rx_words C n ((Ext 0, o1), s) = (if o1 + 2 * int n \<le> 1536 \<or> n = 0
    then Some ((Ext 0, o1 + 2 * int n), s\<lparr>dev := snd (chip_reads C n (dev s)),
      octet := mem_write (octet s) (Ext 0, o1) (concat (map word_octets (fst (chip_reads C n (dev s)))))\<rparr>)
    else None)"
  using assms
proof (induction n arbitrary: o1 s)
  case 0
  then show ?case by simp
next
  case (Suc n)
  obtain v h where v: "ch_read C np_data (dev s) = (v, h)" by (cases "ch_read C np_data (dev s)")
  obtain vs h' where vs: "chip_reads C n h = (vs, h')" by (cases "chip_reads C n h")
  define s1 where "s1 = s\<lparr>dev := h, octet := mem_write (octet s) (Ext 0, o1) (word_octets v)\<rparr>"
  have one: "rx_word C ((Ext 0, o1), s) = (if o1 + 2 \<le> 1536 then Some ((Ext 0, o1 + 2), s1) else None)"
    using Suc.prems v by (simp add: rx_word_def rd_def put_frame_def g_frame_buffer_def SIZEOF_FRAME_BUFFER_def s1_def word_octets_def ptr_add_def)
  have "mem_write (octet s1) (Ext 0, o1 + 2) (concat (map word_octets vs)) = mem_write (octet s) (Ext 0, o1) (concat (map word_octets (v # vs)))"
    using mem_write_append [of "octet s" "(Ext 0, o1)" "word_octets v" "concat (map word_octets vs)"]
    by (simp add: s1_def word_octets_def ptr_add_def)
  then have two: "o1 + 2 \<le> 1536 \<Longrightarrow> rx_words C (Suc n) ((Ext 0, o1), s) = (if o1 + 2 + 2 * int n \<le> 1536 \<or> n = 0
    then Some ((Ext 0, o1 + 2 + 2 * int n), s\<lparr>dev := h', octet := mem_write (octet s) (Ext 0, o1) (concat (map word_octets (v # vs)))\<rparr>) else None)"
    using Suc.IH [of "o1 + 2" s1] Suc.prems one vs by (simp add: s1_def)
  show ?case
  proof (cases "o1 + 2 \<le> 1536")
    case True
    then show ?thesis using two v vs by (cases n) (simp_all add: algebra_simps)
  next
    case False
    then show ?thesis using one by simp
  qed
qed


text \<open>
  A received frame in the chip's memory: pairs of octets; the last word holds the control octet, with
  a bit that tells whether its other octet belongs to the frame.
\<close>

fun rx_frame_words :: "u8 list \<Rightarrow> u16 list" where
  "rx_frame_words [] = [0x4000]"
| "rx_frame_words [a] = [0x6000 OR ucast a]"
| "rx_frame_words (a # b # xs) = le16 a b # rx_frame_words xs"

lemma word_octets_le16: "word_octets (le16 a b) = [a, b]"
  using bit_imp_le_length [of a] by (auto simp: word_octets_def le16_def bit_eq_iff bit_simps)

lemma rx_octets: "concat (map word_octets (rx_frame_words xs)) = xs @ (if odd (length xs) then [0x60] else [0, 0x40])"
proof (induction xs rule: rx_frame_words.induct)
  case (2 a)
  have "le16 a 0x60 = 0x6000 OR ucast a" by (simp add: le16_def or.commute)
  then show ?case using word_octets_le16 [of a "0x60"] by simp
next
  case (3 a b xs)
  then show ?case by (simp add: word_octets_le16)
qed (simp add: word_octets_def)

lemma rx_frame_words_len: "2 * length (rx_frame_words xs) = length xs + (if odd (length xs) then 1 else 2)"
  by (induction xs rule: rx_frame_words.induct) simp_all

text \<open>The driver's view of one frame, from what the chip gives.\<close>

lemma rx_frame_eq:
  fixes C :: "'h chip" and s :: "('h, 'z) adapter_scheme"
  defines "h1 \<equiv> ch_write C np_pointer (PTR_READ OR PTR_RCV OR PTR_AUTOINC) (dev s)"
  assumes st: "ch_read C np_data h1 = (st, h2)" and cnt: "ch_read C np_data h2 = (cnt, h3)" and ok: "st AND RS_ERRORS = 0"
    and k: "uint (cnt AND 0x07ff) = 4 + 2 * int k"
  shows "rx_frame C s = (if 2 * k \<le> 1536 then
    (let m = mem_write (octet s) g_frame_buffer (concat (map word_octets (fst (chip_reads C k h3)))) in
     Some (2 * int k - (if m (ptr_add g_frame_buffer (2 * int k - 1)) AND 0x20 \<noteq> 0 then 1 else 2), s\<lparr>dev := snd (chip_reads C k h3), octet := m\<rparr>))
    else None)"
proof -
  define s3 where "s3 = s\<lparr>dev := h3\<rparr>"
  have fl: "(if st AND RS_ERRORS \<noteq> 0 then 0 else uint (cnt AND 0x07ff) - 4) = 2 * int k" using ok k by simp
  have wk: "2 * int k sdiv 2 = int k" "int k sdiv 8 = int (k div 8)" using sdiv_nat(1) [of "2 * k"] sdiv_nat(2) [of k] by simp_all
  have lw: "nat (int k - int (k div 8) * 8) = k - k div 8 * 8" by (simp add: of_nat_diff)
  have r1: "rd C np_data (wr C np_pointer (PTR_READ OR PTR_RCV OR PTR_AUTOINC) s) = (st, s\<lparr>dev := h2\<rparr>)"
    "rd C np_data (s\<lparr>dev := h2\<rparr>) = (cnt, s3)"
    using st cnt by (simp_all add: rd_def wr_def h1_def s3_def)
  have "rx_frame C s = do { (w, s) \<leftarrow> rx_words C k (g_frame_buffer, s3);
      Some (if octet s (ptr_add g_frame_buffer (2 * int k - 1)) AND 0x20 \<noteq> 0 then 2 * int k - 1 else 2 * int k - 2, s) }"
    unfolding rx_frame_def Let_def r1 prod.case fl wk lw nat_int rx_unrolled [symmetric, of C k] by (simp add: bind_assoc)
  then show ?thesis using rx_words_eq [of 0 C k s3] by (simp add: g_frame_buffer_def s3_def Let_def)
qed

text \<open>
  A frame that the chip holds in its documented layout and that has no error arrives complete:
  the driver reports its length, its octets are at the beginning of the receive buffer, exactly the
  frame was taken out of the chip, and nothing outside the buffer has changed.
\<close>

lemma rx_frame_delivers:
  assumes "length xs \<le> 1534" "st AND RS_ERRORS = 0" "uint (cnt AND 0x07ff) = 4 + 2 * int (length (rx_frame_words xs))"
    "chip_reads C (2 + length (rx_frame_words xs)) (ch_write C np_pointer (PTR_READ OR PTR_RCV OR PTR_AUTOINC) (dev s)) =
       (st # cnt # rx_frame_words xs, h)"
  shows "\<exists>m. rx_frame C s = Some (int (length xs), s\<lparr>dev := h, octet := m\<rparr>) \<and> mem_read m g_frame_buffer (length xs) = xs \<and>
    (\<forall>a. apart g_frame_buffer 1536 a 1 \<longrightarrow> m a = octet s a)"
proof -
  define k where "k = length (rx_frame_words xs)"
  define ys where "ys = xs @ (if odd (length xs) then [0x60] else [0, 0x40])"
  define m where "m = mem_write (octet s) g_frame_buffer ys"
  have k2: "2 * k = length ys" "length ys \<le> 1536" using rx_frame_words_len [of xs] assms(1) by (simp_all add: k_def ys_def)
  obtain h2 h3 where r: "ch_read C np_data (ch_write C np_pointer (PTR_READ OR PTR_RCV OR PTR_AUTOINC) (dev s)) = (st, h2)"
    "ch_read C np_data h2 = (cnt, h3)" "chip_reads C k h3 = (rx_frame_words xs, h)"
    using assms(4) by (auto simp: k_def numeral_2_eq_2 Let_def split: prod.splits)
  have ik: "2 * int k = int (length ys)" using k2(1) by linarith
  have ctl: "m (ptr_add g_frame_buffer (2 * int k - 1)) = (if odd (length xs) then 0x60 else 0x40)"
  proof -
    have "length ys - 1 < length ys" by (simp add: ys_def)
    then have "m (ptr_add g_frame_buffer (int (length ys - 1))) = ys ! (length ys - 1)"
      unfolding m_def mem_write_def ptr_add_def by (simp del: of_nat_diff)
    moreover have "2 * int k - 1 = int (length ys - 1)" using ik by (simp add: ys_def)
    ultimately show ?thesis by (simp add: ys_def nth_append)
  qed
  have len: "2 * int k - (if m (ptr_add g_frame_buffer (2 * int k - 1)) AND 0x20 \<noteq> 0 then 1 else 2) = int (length xs)"
    unfolding ctl using rx_frame_words_len [of xs] by (auto simp: k_def)
  have c: "concat (map word_octets (rx_frame_words xs)) = ys" by (simp add: rx_octets ys_def)
  have "rx_frame C s = Some (int (length xs), s\<lparr>dev := h, octet := m\<rparr>)"
    using rx_frame_eq [OF r(1,2) assms(2), of k] assms(3) k2 r(3) c len by (simp add: k_def [symmetric] m_def [symmetric] Let_def)
  moreover have "mem_read m g_frame_buffer (length ys) = ys" by (simp add: m_def mem_read_write_same)
  then have "mem_read m g_frame_buffer (length xs) = xs"
    using take_mem_read [of "length xs" "length ys" m g_frame_buffer] by (simp add: ys_def)
  moreover have "\<forall>a. apart g_frame_buffer 1536 a 1 \<longrightarrow> m a = octet s a"
    using mem_write_outside k2(2) by (simp add: m_def)
  ultimately show ?thesis by blast
qed



text \<open>The flag that makes the driver wait for the frame before is cleared on reset and never set.\<close>

lemma never_set_sent:
  "ever_sent_packet s = 0 \<Longrightarrow> ever_sent_packet (snd (nr_lan91c111_tx_frame C w l s)) = 0"
  "ever_sent_packet s = 0 \<Longrightarrow> ever_sent_packet (snd (nr_lan91c111_reset C s)) = 0"
proof -
  have tx: "ever_sent_packet (snd (tx_words C n ws)) = ever_sent_packet (snd ws)" for n ws
    by (induction n arbitrary: ws) (simp_all add: tx_word_def wr_def split_beta)
  have "ever_sent_packet (tx_send C w l s) = ever_sent_packet s" for s :: "('a, 'b) adapter_scheme"
    by (simp add: tx tx_send_def Let_def split_beta wr_def tx_big LAN91C111_ACKNOWLEDGE_INTERRUPT_def LAN91C111_SELECT_BANK_def wr8_def tx_word_def)
  then show "ever_sent_packet s = 0 \<Longrightarrow> ever_sent_packet (snd (nr_lan91c111_tx_frame C w l s)) = 0"
    by (simp add: nr_lan91c111_tx_frame_def set_irq_eq tx_previous_def Let_def)
  have r: "ever_sent_packet (snd (rd C r s)) = ever_sent_packet s" "ever_sent_packet (wr C r v s) = ever_sent_packet s"
    for r v and s :: "('a, 'b) adapter_scheme" by (simp_all add: rd_def wr_def split_beta)
  show "ever_sent_packet s = 0 \<Longrightarrow> ever_sent_packet (snd (nr_lan91c111_reset C s)) = 0"
    by (simp add: nr_lan91c111_reset_def r_allocate_tx_packet_def r_lan91c111_enable_def LAN91C111_SELECT_BANK_def r Let_def split_beta)
qed

section \<open>Two chips\<close>

definition adapter_boot :: "'h \<Rightarrow> 'h adapter" where
  "adapter_boot h = arp.extend arp_boot (adapter.fields h 0 0 0 0)"

lemma adapter_boot_sel [simp]:
  "dev (adapter_boot h) = h" "ever_sent_packet (adapter_boot h) = 0" "tx_packet (adapter_boot h) = 0" "irq_onoff (adapter_boot h) = 0"
  "octet (adapter_boot h) = octet arp_boot"
  by (simp_all add: adapter_boot_def arp.defs adapter.defs)

lemma adapter_boot_dev [simp]: "(adapter_boot h)\<lparr>dev := h'\<rparr> = adapter_boot h'"
  by (simp add: adapter_boot_def arp.defs adapter.defs)

text \<open>One that keeps a record of the writes, and one that has a list of words to read.\<close>

definition log_chip :: "access list chip" where
  "log_chip = \<lparr>ch_read = (\<lambda>_ h. (0, h)), ch_write = (\<lambda>r v h. h @ [W16 r v]), ch_write8 = (\<lambda>r v h. h @ [W8 r v])\<rparr>"

definition word_chip :: "u16 list chip" where
  "word_chip = \<lparr>ch_read = (\<lambda>_ h. case h of [] \<Rightarrow> (0, []) | v # vs \<Rightarrow> (v, vs)), ch_write = (\<lambda>_ _ h. h), ch_write8 = (\<lambda>_ _ h. h)\<rparr>"


end
