(* ===== verification/Netif.thy ===== *)
theory Netif
  imports Etharp_Safety
begin

text \<open>
  The network interfaces, \<^verbatim>\<open>core/netif.c\<close>: the list of interfaces and their numbers, the address
  configuration, the administrative and the link state, and the search by index and by name. The
  protocols that are told about changes, the driver's initialisation and the application's callbacks
  are parameters; without IGMP and IPv6, and with address conflict detection, the reports about a
  new address are empty.
\<close>

section \<open>What the interfaces call\<close>

record 's netif_calls =
  nc_init :: "fnptr \<Rightarrow> nif \<Rightarrow> 's \<Rightarrow> (err_t \<times> 's) option"
  nc_callback :: "fnptr \<Rightarrow> nif \<Rightarrow> 's \<Rightarrow> 's option"
  nc_tcp_netif_ip_addr_changed :: "u32 \<Rightarrow> u32 option \<Rightarrow> 's \<Rightarrow> 's option"
  nc_udp_netif_ip_addr_changed :: "u32 \<Rightarrow> u32 option \<Rightarrow> 's \<Rightarrow> 's option"
  nc_raw_netif_ip_addr_changed :: "u32 \<Rightarrow> u32 option \<Rightarrow> 's \<Rightarrow> 's option"
  nc_acd_netif_ip_addr_changed :: "nif \<Rightarrow> u32 \<Rightarrow> u32 \<Rightarrow> 's \<Rightarrow> 's option"
  nc_acd_network_changed_link_down :: "nif \<Rightarrow> 's \<Rightarrow> 's option"
  nc_dhcp_network_changed_link_up :: "nif \<Rightarrow> 's \<Rightarrow> 's option"
  nc_autoip_network_changed_link_up :: "nif \<Rightarrow> 's \<Rightarrow> 's option"
  nc_autoip_network_changed_link_down :: "nif \<Rightarrow> 's \<Rightarrow> 's option"

definition NETIF_STATUS_CALLBACK :: "'a arp_scheme netif_calls \<Rightarrow> nif \<Rightarrow> 'a arp_scheme \<Rightarrow> 'a arp_scheme option" where
  "NETIF_STATUS_CALLBACK K n s =
     (case nf_status_callback (netifs s n) of None \<Rightarrow> Some s | Some f \<Rightarrow> nc_callback K f n s)"

definition NETIF_LINK_CALLBACK :: "'a arp_scheme netif_calls \<Rightarrow> nif \<Rightarrow> 'a arp_scheme \<Rightarrow> 'a arp_scheme option" where
  "NETIF_LINK_CALLBACK K n s =
     (case nf_link_callback (netifs s n) of None \<Rightarrow> Some s | Some f \<Rightarrow> nc_callback K f n s)"

definition netif_set_flags :: "nif \<Rightarrow> u8 \<Rightarrow> 'a net_scheme \<Rightarrow> 'a net_scheme" where
  "netif_set_flags netif fl s = upd_netif netif (nf_flags_update (\<lambda>x. x OR fl)) s"

definition netif_clear_flags :: "nif \<Rightarrow> u8 \<Rightarrow> 'a net_scheme \<Rightarrow> 'a net_scheme" where
  "netif_clear_flags netif fl s = upd_netif netif (nf_flags_update (\<lambda>x. x AND NOT fl)) s"

definition netif_is_up :: "nif \<Rightarrow> 'a net_scheme \<Rightarrow> bool" where
  "netif_is_up netif s \<longleftrightarrow> nf_flags (netifs s netif) AND NETIF_FLAG_UP \<noteq> 0"

definition netif_is_link_up :: "nif \<Rightarrow> 'a net_scheme \<Rightarrow> bool" where
  "netif_is_link_up netif s \<longleftrightarrow> nf_flags (netifs s netif) AND NETIF_FLAG_LINK_UP \<noteq> 0"

section \<open>Receiving\<close>

definition netif_input :: "'a arp_scheme link \<Rightarrow> ptr \<Rightarrow> nif \<Rightarrow> 'a arp_scheme \<Rightarrow> (err_t \<times> 'a arp_scheme) option" where
  "netif_input H p inp s =
     (if nf_flags (netifs s inp) AND (NETIF_FLAG_ETHARP OR NETIF_FLAG_ETHERNET) \<noteq> 0
      then ethernet_input H p inp s else lk_ip4_input H p inp s)"

section \<open>Addresses\<close>

definition NETIF_REPORT_TYPE_IPV4 :: u8 where "NETIF_REPORT_TYPE_IPV4 = 0x01"

definition NETIF_REPORT_TYPE_IPV6 :: u8 where "NETIF_REPORT_TYPE_IPV6 = 0x02"

text \<open>With address conflict detection and without IGMP and IPv6 there is nothing left to send.\<close>

definition netif_issue_reports :: "nif \<Rightarrow> u8 \<Rightarrow> 'a arp_scheme \<Rightarrow> 'a arp_scheme" where
  "netif_issue_reports netif report_type s =
     (if \<not> netif_is_link_up netif s \<or> \<not> netif_is_up netif s then s else s)"

definition netif_do_ip_addr_changed ::
  "'a arp_scheme netif_calls \<Rightarrow> u32 \<Rightarrow> u32 option \<Rightarrow> 'a arp_scheme \<Rightarrow> 'a arp_scheme option" where
  "netif_do_ip_addr_changed K old_addr new_addr s = do {
     s \<leftarrow> nc_tcp_netif_ip_addr_changed K old_addr new_addr s;
     s \<leftarrow> nc_udp_netif_ip_addr_changed K old_addr new_addr s;
     nc_raw_netif_ip_addr_changed K old_addr new_addr s
   }"

definition netif_do_set_ipaddr ::
  "'a arp_scheme netif_calls \<Rightarrow> nif \<Rightarrow> u32 \<Rightarrow> 'a arp_scheme \<Rightarrow> (bool \<times> 'a arp_scheme) option" where
  "netif_do_set_ipaddr K netif ipaddr s =
     (if ipaddr \<noteq> nf_ip_addr (netifs s netif) then do {
        let new_addr = ipaddr;
        let old_addr = nf_ip_addr (netifs s netif);
        s \<leftarrow> netif_do_ip_addr_changed K old_addr (Some new_addr) s;
        s \<leftarrow> nc_acd_netif_ip_addr_changed K netif old_addr new_addr s;
        let s = upd_netif netif (nf_ip_addr_update (\<lambda>_. ipaddr)) s;
        let s = netif_issue_reports netif NETIF_REPORT_TYPE_IPV4 s;
        s \<leftarrow> NETIF_STATUS_CALLBACK K netif s;
        Some (True, s)
      } else Some (False, s))"

definition netif_set_ipaddr ::
  "'a arp_scheme netif_calls \<Rightarrow> nif option \<Rightarrow> u32 option \<Rightarrow> 'a arp_scheme \<Rightarrow> 'a arp_scheme option" where
  "netif_set_ipaddr K netif ipaddr s =
     (case netif of None \<Rightarrow> Some (LWIP_ERROR ''netif_set_ipaddr: invalid netif'' s)
      | Some n \<Rightarrow> do {
          let ipaddr = (case ipaddr of None \<Rightarrow> IPADDR_ANY | Some a \<Rightarrow> a);
          (_, s) \<leftarrow> netif_do_set_ipaddr K n ipaddr s;
          Some s
        })"

definition netif_do_set_netmask :: "nif \<Rightarrow> u32 \<Rightarrow> 'a arp_scheme \<Rightarrow> bool \<times> 'a arp_scheme" where
  "netif_do_set_netmask netif netmask s =
     (if netmask \<noteq> nf_netmask (netifs s netif)
      then (True, upd_netif netif (nf_netmask_update (\<lambda>_. netmask)) s)
      else (False, s))"

definition netif_set_netmask :: "nif option \<Rightarrow> u32 option \<Rightarrow> 'a arp_scheme \<Rightarrow> 'a arp_scheme" where
  "netif_set_netmask netif netmask s =
     (case netif of None \<Rightarrow> LWIP_ERROR ''netif_set_netmask: invalid netif'' s
      | Some n \<Rightarrow>
          (let netmask = (case netmask of None \<Rightarrow> IPADDR_ANY | Some a \<Rightarrow> a)
           in snd (netif_do_set_netmask n netmask s)))"

definition netif_do_set_gw :: "nif \<Rightarrow> u32 \<Rightarrow> 'a arp_scheme \<Rightarrow> bool \<times> 'a arp_scheme" where
  "netif_do_set_gw netif gw s =
     (if gw \<noteq> nf_gw (netifs s netif)
      then (True, upd_netif netif (nf_gw_update (\<lambda>_. gw)) s)
      else (False, s))"

definition netif_set_gw :: "nif option \<Rightarrow> u32 option \<Rightarrow> 'a arp_scheme \<Rightarrow> 'a arp_scheme" where
  "netif_set_gw netif gw s =
     (case netif of None \<Rightarrow> LWIP_ERROR ''netif_set_gw: invalid netif'' s
      | Some n \<Rightarrow>
          (let gw = (case gw of None \<Rightarrow> IPADDR_ANY | Some a \<Rightarrow> a)
           in snd (netif_do_set_gw n gw s)))"

definition netif_set_addr ::
  "'a arp_scheme netif_calls \<Rightarrow> nif \<Rightarrow> u32 option \<Rightarrow> u32 option \<Rightarrow> u32 option \<Rightarrow> 'a arp_scheme \<Rightarrow> 'a arp_scheme option" where
  "netif_set_addr K netif ipaddr netmask gw s = do {
     let ipaddr = (case ipaddr of None \<Rightarrow> IPADDR_ANY | Some a \<Rightarrow> a);
     let netmask = (case netmask of None \<Rightarrow> IPADDR_ANY | Some a \<Rightarrow> a);
     let gw = (case gw of None \<Rightarrow> IPADDR_ANY | Some a \<Rightarrow> a);
     let remove = (ipaddr = IPADDR_ANY);
     s \<leftarrow> (if remove then map_option snd (netif_do_set_ipaddr K netif ipaddr s) else Some s);
     let s = snd (netif_do_set_netmask netif netmask s);
     let s = snd (netif_do_set_gw netif gw s);
     (if \<not> remove then map_option snd (netif_do_set_ipaddr K netif ipaddr s) else Some s)
   }"

section \<open>Adding an interface\<close>

text \<open>
  The loop over the list in the search for a number: whether an interface with the number of the
  new one was found, whose number is then increased.
\<close>

partial_function (option) num_scan ::
  "nif \<Rightarrow> nif option \<Rightarrow> nat \<Rightarrow> 'a arp_scheme \<Rightarrow> (bool \<times> 'a arp_scheme) option" where
  "num_scan netif netif2 num_netifs s =
     (case netif2 of None \<Rightarrow> Some (False, s)
      | Some n2 \<Rightarrow>
          (let s = LWIP_ASSERT ''netif already added'' (n2 \<noteq> netif) s;
               num_netifs = num_netifs + 1;
               s = LWIP_ASSERT ''too many netifs, max. supported number is 255'' (num_netifs \<le> 255) s
           in if nf_num (netifs s n2) = nf_num (netifs s netif)
              then Some (True, upd_netif netif (nf_num_update (\<lambda>x. x + 1)) s)
              else num_scan netif (nf_next (netifs s n2)) num_netifs s))"

partial_function (option) num_search :: "nif \<Rightarrow> 'a arp_scheme \<Rightarrow> 'a arp_scheme option" where
  "num_search netif s = do {
     let s = (if nf_num (netifs s netif) = 255 then upd_netif netif (nf_num_update (\<lambda>_. 0)) s else s);
     (again, s) \<leftarrow> num_scan netif (netif_list s) 0 s;
     if again then num_search netif s else Some s
   }"

text \<open>The fields of a new interface before its driver sets it up.\<close>

definition FN_netif_null_output_ip4 :: fnptr where "FN_netif_null_output_ip4 = 0"

definition netif_reset :: "ptr option \<Rightarrow> u8 \<Rightarrow> fnptr option \<Rightarrow> netdev \<Rightarrow> netdev" where
  "netif_reset state num input d = d\<lparr>nf_ip_addr := 0, nf_netmask := 0, nf_gw := 0, nf_output := Some FN_netif_null_output_ip4,
     nf_mtu := 0, nf_flags := 0, nf_dhcp := None, nf_autoip := None, nf_status_callback := None, nf_link_callback := None,
     nf_state := state, nf_num := num, nf_input := input, nf_acd_list := None\<rparr>"

definition netif_add ::
  "'a arp_scheme netif_calls \<Rightarrow> nif option \<Rightarrow> u32 option \<Rightarrow> u32 option \<Rightarrow> u32 option \<Rightarrow> ptr option \<Rightarrow>
   fnptr option \<Rightarrow> fnptr option \<Rightarrow> 'a arp_scheme \<Rightarrow> (nif option \<times> 'a arp_scheme) option" where
  "netif_add K netif ipaddr netmask gw state init input s =
     (case netif of None \<Rightarrow> Some (None, LWIP_ERROR ''netif_add: invalid netif'' s)
      | Some n \<Rightarrow> (case init of None \<Rightarrow> Some (None, LWIP_ERROR ''netif_add: No init function given'' s)
      | Some f \<Rightarrow> do {
          let ipaddr = Some (case ipaddr of None \<Rightarrow> IPADDR_ANY | Some a \<Rightarrow> a);
          let netmask = Some (case netmask of None \<Rightarrow> IPADDR_ANY | Some a \<Rightarrow> a);
          let gw = Some (case gw of None \<Rightarrow> IPADDR_ANY | Some a \<Rightarrow> a);
          let s = upd_netif n (netif_reset state (netif_num s) input) s;
          s \<leftarrow> netif_set_addr K n ipaddr netmask gw s;
          (e, s) \<leftarrow> nc_init K f n s;
          if e \<noteq> ERR_OK then Some (None, s)
          else do {
            s \<leftarrow> num_search n s;
            let s = s\<lparr>netif_num := (if nf_num (netifs s n) = 254 then 0 else nf_num (netifs s n) + 1)\<rparr>;
            let s = upd_netif n (nf_next_update (\<lambda>_. netif_list s)) s;
            Some (Some n, s\<lparr>netif_list := Some n\<rparr>)
          }
        }))"

definition netif_add_noaddr ::
  "'a arp_scheme netif_calls \<Rightarrow> nif option \<Rightarrow> ptr option \<Rightarrow> fnptr option \<Rightarrow> fnptr option \<Rightarrow>
   'a arp_scheme \<Rightarrow> (nif option \<times> 'a arp_scheme) option" where
  "netif_add_noaddr K netif state init input s = netif_add K netif None None None state init input s"

section \<open>States\<close>

definition netif_set_default :: "nif option \<Rightarrow> 'a arp_scheme \<Rightarrow> 'a arp_scheme" where
  "netif_set_default netif s = s\<lparr>netif_default := netif\<rparr>"

definition netif_set_up ::
  "'a arp_scheme netif_calls \<Rightarrow> nif option \<Rightarrow> 'a arp_scheme \<Rightarrow> 'a arp_scheme option" where
  "netif_set_up K netif s =
     (case netif of None \<Rightarrow> Some (LWIP_ERROR ''netif_set_up: invalid netif'' s)
      | Some n \<Rightarrow>
          if \<not> netif_is_up n s then do {
            let s = netif_set_flags n NETIF_FLAG_UP s;
            s \<leftarrow> NETIF_STATUS_CALLBACK K n s;
            Some (netif_issue_reports n (NETIF_REPORT_TYPE_IPV4 OR NETIF_REPORT_TYPE_IPV6) s)
          } else Some s)"

definition netif_set_down ::
  "'a arp_scheme link \<Rightarrow> 'a arp_scheme netif_calls \<Rightarrow> nif option \<Rightarrow> 'a arp_scheme \<Rightarrow> 'a arp_scheme option" where
  "netif_set_down H K netif s =
     (case netif of None \<Rightarrow> Some (LWIP_ERROR ''netif_set_down: invalid netif'' s)
      | Some n \<Rightarrow>
          if netif_is_up n s then do {
            let s = netif_clear_flags n NETIF_FLAG_UP s;
            s \<leftarrow> (if nf_flags (netifs s n) AND NETIF_FLAG_ETHARP \<noteq> 0 then etharp_cleanup_netif H n s else Some s);
            NETIF_STATUS_CALLBACK K n s
          } else Some s)"

definition netif_set_status_callback :: "nif option \<Rightarrow> fnptr option \<Rightarrow> 'a arp_scheme \<Rightarrow> 'a arp_scheme" where
  "netif_set_status_callback netif status_callback s =
     (case netif of None \<Rightarrow> s | Some n \<Rightarrow> upd_netif n (nf_status_callback_update (\<lambda>_. status_callback)) s)"

definition netif_set_link_up ::
  "'a arp_scheme netif_calls \<Rightarrow> nif option \<Rightarrow> 'a arp_scheme \<Rightarrow> 'a arp_scheme option" where
  "netif_set_link_up K netif s =
     (case netif of None \<Rightarrow> Some (LWIP_ERROR ''netif_set_link_up: invalid netif'' s)
      | Some n \<Rightarrow>
          if \<not> netif_is_link_up n s then do {
            let s = netif_set_flags n NETIF_FLAG_LINK_UP s;
            s \<leftarrow> nc_dhcp_network_changed_link_up K n s;
            s \<leftarrow> nc_autoip_network_changed_link_up K n s;
            let s = netif_issue_reports n (NETIF_REPORT_TYPE_IPV4 OR NETIF_REPORT_TYPE_IPV6) s;
            NETIF_LINK_CALLBACK K n s
          } else Some s)"

definition netif_set_link_down ::
  "'a arp_scheme netif_calls \<Rightarrow> nif option \<Rightarrow> 'a arp_scheme \<Rightarrow> 'a arp_scheme option" where
  "netif_set_link_down K netif s =
     (case netif of None \<Rightarrow> Some (LWIP_ERROR ''netif_set_link_down: invalid netif'' s)
      | Some n \<Rightarrow>
          if netif_is_link_up n s then do {
            let s = netif_clear_flags n NETIF_FLAG_LINK_UP s;
            s \<leftarrow> nc_autoip_network_changed_link_down K n s;
            s \<leftarrow> nc_acd_network_changed_link_down K n s;
            NETIF_LINK_CALLBACK K n s
          } else Some s)"

definition netif_set_link_callback :: "nif option \<Rightarrow> fnptr option \<Rightarrow> 'a arp_scheme \<Rightarrow> 'a arp_scheme" where
  "netif_set_link_callback netif link_callback s =
     (case netif of None \<Rightarrow> s | Some n \<Rightarrow> upd_netif n (nf_link_callback_update (\<lambda>_. link_callback)) s)"

section \<open>Removing an interface\<close>

partial_function (option) netif_unlink :: "nif \<Rightarrow> nif option \<Rightarrow> 'a arp_scheme \<Rightarrow> 'a arp_scheme option" where
  "netif_unlink netif tmp_netif s =
     (case tmp_netif of None \<Rightarrow> Some s
      | Some t \<Rightarrow>
          if nf_next (netifs s t) = Some netif
          then Some (upd_netif t (nf_next_update (\<lambda>_. nf_next (netifs s netif))) s)
          else netif_unlink netif (nf_next (netifs s t)) s)"

definition netif_remove ::
  "'a arp_scheme link \<Rightarrow> 'a arp_scheme netif_calls \<Rightarrow> nif option \<Rightarrow> 'a arp_scheme \<Rightarrow> 'a arp_scheme option" where
  "netif_remove H K netif s =
     (case netif of None \<Rightarrow> Some s
      | Some n \<Rightarrow> do {
          s \<leftarrow> (if nf_ip_addr (netifs s n) \<noteq> IPADDR_ANY
                then netif_do_ip_addr_changed K (nf_ip_addr (netifs s n)) None s else Some s);
          s \<leftarrow> (if netif_is_up n s then netif_set_down H K (Some n) s else Some s);
          let s = (if netif_default s = Some n then netif_set_default None s else s);
          if netif_list s = Some n then Some (s\<lparr>netif_list := nf_next (netifs s n)\<rparr>)
          else netif_unlink n (netif_list s) s
        })"

section \<open>Searching\<close>

definition netif_null_output_ip4 :: "nif \<Rightarrow> ptr \<Rightarrow> u32 \<Rightarrow> 'a arp_scheme \<Rightarrow> (err_t \<times> 'a arp_scheme) option" where
  "netif_null_output_ip4 netif p ipaddr s = Some (ERR_IF, s)"

text \<open>The loop \<^verbatim>\<open>NETIF_FOREACH\<close> with a test that ends it.\<close>

partial_function (option) netif_foreach :: "(netdev \<Rightarrow> bool) \<Rightarrow> nif option \<Rightarrow> 'a net_scheme \<Rightarrow> nif option option" where
  "netif_foreach P netif s =
     (case netif of None \<Rightarrow> Some None
      | Some n \<Rightarrow> if P (netifs s n) then Some (Some n) else netif_foreach P (nf_next (netifs s n)) s)"

definition netif_get_by_index :: "u8 \<Rightarrow> 'a net_scheme \<Rightarrow> nif option option" where
  "netif_get_by_index idx s =
     (if idx \<noteq> NETIF_NO_INDEX then netif_foreach (\<lambda>d. idx = netif_get_index d) (netif_list s) s else Some None)"

text \<open>\<^verbatim>\<open>atoi\<close> of the C library, with no result where the number is too large for an int.\<close>

partial_function (option) atoi_space :: "ptr \<Rightarrow> octets \<Rightarrow> ptr option" where
  "atoi_space p m = (if m p \<in> {9, 10, 11, 12, 13, 32} then atoi_space (ptr_add p 1) m else Some p)"

partial_function (option) atoi_digits :: "ptr \<Rightarrow> int \<Rightarrow> octets \<Rightarrow> int option" where
  "atoi_digits p acc m =
     (if 48 \<le> m p \<and> m p \<le> 57
      then (if acc * 10 + (uint (m p) - 48) < 2 ^ 31 then atoi_digits (ptr_add p 1) (acc * 10 + (uint (m p) - 48)) m else None)
      else Some acc)"

definition atoi :: "ptr \<Rightarrow> octets \<Rightarrow> int option" where
  "atoi p m = do {
     p \<leftarrow> atoi_space p m;
     if m p = 45 then map_option uminus (atoi_digits (ptr_add p 1) 0 m)
     else if m p = 43 then atoi_digits (ptr_add p 1) 0 m
     else atoi_digits p 0 m
   }"

definition netif_find :: "ptr option \<Rightarrow> 'a net_scheme \<Rightarrow> nif option option" where
  "netif_find name s =
     (case name of None \<Rightarrow> Some None
      | Some q \<Rightarrow> do {
          k \<leftarrow> atoi (ptr_add q 2) (octet s);
          let num = (of_int k :: u8);
          if num = 0 \<and> octet s (ptr_add q 2) \<noteq> 48 then Some None
          else netif_foreach (\<lambda>d. num = nf_num d \<and> octet s q = fst (nf_name d) \<and> octet s (ptr_add q 1) = snd (nf_name d))
                 (netif_list s) s
        })"

definition netif_name_to_index :: "ptr option \<Rightarrow> 'a net_scheme \<Rightarrow> u8 option" where
  "netif_name_to_index name s = do {
     netif \<leftarrow> netif_find name s;
     Some (case netif of None \<Rightarrow> NETIF_NO_INDEX | Some n \<Rightarrow> netif_get_index (netifs s n))
   }"

definition netif_index_to_num :: "u8 \<Rightarrow> int" where
  "netif_index_to_num index = uint index - 1"

definition NETIF_NAMESIZE :: nat where "NETIF_NAMESIZE = 6"

definition netif_index_to_name :: "u8 \<Rightarrow> ptr \<Rightarrow> 'a net_scheme \<Rightarrow> (ptr option \<times> 'a net_scheme) option" where
  "netif_index_to_name idx name s = do {
     netif \<leftarrow> netif_get_by_index idx s;
     (case netif of None \<Rightarrow> Some (None, s)
      | Some n \<Rightarrow> do {
          let m = (octet s)(name := fst (nf_name (netifs s n)), ptr_add name 1 := snd (nf_name (netifs s n)));
          m \<leftarrow> lwip_itoa (ptr_add name 2) (NETIF_NAMESIZE - 2) (netif_index_to_num idx) m;
          Some (Some name, s\<lparr>octet := m\<rparr>)
        })
   }"

end
