(* ===== verification/Netif_List.thy ===== *)
theory Netif_List
  imports Netif
begin

text \<open>
  The list of interfaces of \<^verbatim>\<open>core/netif.c\<close>: it stays well-formed and the numbers in it stay
  unique, whatever is done to the interfaces; every operation returns, among them the search for a
  free number; and names and numbers lead back to the interface they belong to.
\<close>

section \<open>The list\<close>

fun nchain :: "'a net_scheme \<Rightarrow> nif option \<Rightarrow> nif list \<Rightarrow> bool" where
  "nchain s p [] \<longleftrightarrow> p = None"
| "nchain s p (x # xs) \<longleftrightarrow> p = Some x \<and> nchain s (nf_next (netifs s x)) xs"

definition netifs_ok :: "'a net_scheme \<Rightarrow> nif list \<Rightarrow> bool" where
  "netifs_ok s xs \<longleftrightarrow> nchain s (netif_list s) xs \<and> distinct xs \<and> distinct (map (\<lambda>n. nf_num (netifs s n)) xs) \<and>
     (\<forall>n \<in> set xs. nf_num (netifs s n) < 255)"

lemma nchain_cong: "(\<And>n. n \<in> set xs \<Longrightarrow> nf_next (netifs t n) = nf_next (netifs s n)) \<Longrightarrow> nchain t p xs = nchain s p xs"
  by (induction xs arbitrary: p) auto

lemma nchain_unique: "nchain s p xs \<Longrightarrow> nchain s p ys \<Longrightarrow> xs = ys"
proof (induction xs arbitrary: p ys)
  case Nil
  then show ?case by (cases ys) auto
next
  case (Cons x xs)
  then show ?case by (cases ys) auto
qed

section \<open>Numbers\<close>

lemma upd_netif_sel [simp]:
  "netifs (upd_netif n f s) k = (if k = n then f (netifs s n) else netifs s k)" "netif_list (upd_netif n f s) = netif_list s"
  "netif_num (upd_netif n f s) = netif_num s" "netif_default (upd_netif n f s) = netif_default s" "octet (upd_netif n f s) = octet s"
  by (simp_all add: upd_netif_def)

lemma num_scan_eq:
  assumes "nchain s p xs" "n \<notin> set xs" "k + length xs \<le> 255"
  shows "num_scan n p k s = Some (if nf_num (netifs s n) \<in> (\<lambda>x. nf_num (netifs s x)) ` set xs
    then (True, upd_netif n (nf_num_update (\<lambda>x. x + 1)) s) else (False, s))"
  using assms
proof (induction xs arbitrary: p k)
  case Nil
  then show ?case by (subst num_scan.simps) simp
next
  case (Cons x xs)
  then show ?case by (subst num_scan.simps) (auto simp: Let_def)
qed

lemma upd_netif_twice: "upd_netif n f (upd_netif n g s) = upd_netif n (f \<circ> g) s"
  by (simp add: upd_netif_def)

lemma upd_num_id: "nf_num (netifs s n) = v \<Longrightarrow> upd_netif n (nf_num_update (\<lambda>_. v)) s = s"
  by (cases s) (auto simp: upd_netif_def fun_eq_iff intro!: netdev.equality)

lemma num_search_step:
  assumes "nchain s (netif_list s) xs" "n \<notin> set xs" "length xs \<le> 255"
  defines "v \<equiv> (if nf_num (netifs s n) = 255 then 0 else nf_num (netifs s n))"
  shows "num_search n s = (if v \<in> (\<lambda>x. nf_num (netifs s x)) ` set xs
    then num_search n (upd_netif n (nf_num_update (\<lambda>_. v + 1)) s) else Some (upd_netif n (nf_num_update (\<lambda>_. v)) s))"
proof -
  define t where "t = upd_netif n (nf_num_update (\<lambda>_. v)) s"
  have e: "(if nf_num (netifs s n) = 255 then upd_netif n (nf_num_update (\<lambda>_. 0)) s else s) = t"
    using upd_num_id [of s n] by (simp add: t_def v_def)
  have "nchain t (netif_list t) xs" using nchain_cong [of xs t s] assms(1,2) by (auto simp: t_def)
  moreover have "(\<lambda>x. nf_num (netifs t x)) ` set xs = (\<lambda>x. nf_num (netifs s x)) ` set xs"
    using assms(2) by (auto simp: t_def intro!: image_cong)
  ultimately have "num_scan n (netif_list t) 0 t = Some (if v \<in> (\<lambda>x. nf_num (netifs s x)) ` set xs
      then (True, upd_netif n (nf_num_update (\<lambda>x. x + 1)) t) else (False, t))"
    using num_scan_eq [of t "netif_list t" xs n 0] assms(2,3) by (simp add: t_def)
  moreover have "upd_netif n (nf_num_update (\<lambda>x. x + 1)) t = upd_netif n (nf_num_update (\<lambda>_. v + 1)) s"
    by (simp add: t_def upd_netif_twice comp_def)
  ultimately show ?thesis by (subst num_search.simps) (simp add: e Let_def t_def)
qed

lemma num_mod: "unat (if w = 255 then 0 else w) = unat w mod 255" "(if w = 255 then 0 else w) < (255 :: u8)"
proof -
  have "unat w < 255" if "w \<noteq> 255"
  proof -
    have "unat w \<noteq> unat (255 :: u8)" using that word_unat_eq_iff by blast
    then have "unat w \<noteq> 255" by simp
    then show ?thesis using unat_u8_less [of w] by linarith
  qed
  then have u: "w = 255 \<or> unat w < 255" by blast
  then show "unat (if w = 255 then 0 else w) = unat w mod 255" by auto
  from u show "(if w = 255 then 0 else w) < 255" by (auto simp: word_less_nat_alt)
qed

lemma num_search_from:
  assumes "nchain s (netif_list s) xs" "n \<notin> set xs" "length xs \<le> 255"
    "(unat (nf_num (netifs s n)) + j) mod 255 \<notin> (\<lambda>x. unat (nf_num (netifs s x))) ` set xs"
  shows "\<exists>v. num_search n s = Some (upd_netif n (nf_num_update (\<lambda>_. v)) s) \<and> v < 255 \<and> v \<notin> (\<lambda>x. nf_num (netifs s x)) ` set xs"
  using assms
proof (induction j arbitrary: s)
  case (0 s)
  define v where "v = (if nf_num (netifs s n) = 255 then 0 else nf_num (netifs s n))"
  note u = num_mod [of "nf_num (netifs s n)", folded v_def]
  have "v \<notin> (\<lambda>x. nf_num (netifs s x)) ` set xs" 
  proof
    assume "v \<in> (\<lambda>x. nf_num (netifs s x)) ` set xs"
    then have "unat v \<in> (\<lambda>x. unat (nf_num (netifs s x))) ` set xs" by blast
    then show False using 0(4) unfolding u(1) by simp
  qed
  then show ?case using num_search_step [OF 0(1-3), folded v_def] u(2) by (intro exI [of _ v]) simp
next
  case (Suc j s)
  define v where "v = (if nf_num (netifs s n) = 255 then 0 else nf_num (netifs s n))"
  note u = num_mod [of "nf_num (netifs s n)", folded v_def]
  show ?case
  proof (cases "v \<in> (\<lambda>x. nf_num (netifs s x)) ` set xs")
    case False
    then show ?thesis using num_search_step [OF Suc(2-4), folded v_def] u(2) by (intro exI [of _ v]) simp
  next
    case True
    define t where "t = upd_netif n (nf_num_update (\<lambda>_. v + 1)) s"
    have i: "(\<lambda>x. nf_num (netifs t x)) ` set xs = (\<lambda>x. nf_num (netifs s x)) ` set xs"
      "(\<lambda>x. unat (nf_num (netifs t x))) ` set xs = (\<lambda>x. unat (nf_num (netifs s x))) ` set xs"
      using Suc.prems(2) by (auto simp: t_def intro!: image_cong)
    have "unat (v + 1) = unat v + 1" using u(2) by (simp add: word_less_nat_alt unat_plus_if' )
    then have "(unat (nf_num (netifs t n)) + j) mod 255 = (unat (nf_num (netifs s n)) + Suc j) mod 255"
      using u(1) mod_add_left_eq [of "unat (nf_num (netifs s n))" 255 "Suc j"] by (simp add: t_def)
    moreover have "nchain t (netif_list t) xs" using nchain_cong [of xs t s] Suc.prems(1,2) by (auto simp: t_def)
    ultimately obtain w where "num_search n t = Some (upd_netif n (nf_num_update (\<lambda>_. w)) t)" "w < 255"
      "w \<notin> (\<lambda>x. nf_num (netifs s x)) ` set xs"
      using Suc.IH [of t] Suc.prems(2-4) unfolding i by auto
    then show ?thesis using num_search_step [OF Suc(2-4), folded v_def t_def] True
      by (intro exI [of _ w]) (simp add: t_def upd_netif_twice comp_def)
  qed
qed

lemma num_search_ok:
  assumes "nchain s (netif_list s) xs" "n \<notin> set xs" "length xs < 255"
  shows "\<exists>v. num_search n s = Some (upd_netif n (nf_num_update (\<lambda>_. v)) s) \<and> v < 255 \<and> v \<notin> (\<lambda>x. nf_num (netifs s x)) ` set xs"
proof -
  let ?F = "(\<lambda>x. unat (nf_num (netifs s x))) ` set xs"
  have "card ?F < card {..<255 :: nat}" using card_length [of xs] card_image_le [of "set xs" "\<lambda>x. unat (nf_num (netifs s x))"] assms(3) by simp
  then obtain w where w: "w < 255" "w \<notin> ?F" by (metis card_mono finite_imageI finite_set leD lessThan_iff subsetI)
  define j where "j = w + 510 - unat (nf_num (netifs s n))"
  have "unat (nf_num (netifs s n)) + j = w + 255 * 2" using unat_u8_less [of "nf_num (netifs s n)"] unfolding j_def by linarith
  then have "(unat (nf_num (netifs s n)) + j) mod 255 = w" using w(1) by (simp only: mod_mult_self2 mod_less)
  then show ?thesis using num_search_from [of s xs n j] assms w(2) by simp
qed


section \<open>Operations that leave the list alone\<close>

definition same_list :: "'a net_scheme \<Rightarrow> 'a net_scheme \<Rightarrow> bool" where
  "same_list s s' \<longleftrightarrow> netif_list s' = netif_list s \<and>
     (\<forall>n. nf_next (netifs s' n) = nf_next (netifs s n) \<and> nf_num (netifs s' n) = nf_num (netifs s n))"

lemma same_list_ok: "same_list s s' \<Longrightarrow> netifs_ok s' xs = netifs_ok s xs"
  using nchain_cong [of xs s' s] by (simp add: same_list_def netifs_ok_def)

definition arp_sound :: "'a arp_scheme \<Rightarrow> bool" where
  "arp_sound s \<longleftrightarrow> (\<exists>R. arp_inv s R)"

text \<open>What is called returns, keeps ARP and packets in order, and leaves the list as it is.\<close>

definition harmless :: "('a arp_scheme \<Rightarrow> 'a arp_scheme option) \<Rightarrow> bool" where
  "harmless f \<longleftrightarrow> (\<forall>s. arp_sound s \<longrightarrow> (\<exists>s'. f s = Some s' \<and> arp_sound s' \<and> same_list s s'))"

definition calls_ok :: "'a arp_scheme netif_calls \<Rightarrow> bool" where
  "calls_ok K \<longleftrightarrow> (\<forall>f n. harmless (\<lambda>s. map_option snd (nc_init K f n s))) \<and> (\<forall>f n. harmless (nc_callback K f n)) \<and>
     (\<forall>a b. harmless (nc_tcp_netif_ip_addr_changed K a b)) \<and> (\<forall>a b. harmless (nc_udp_netif_ip_addr_changed K a b)) \<and>
     (\<forall>a b. harmless (nc_raw_netif_ip_addr_changed K a b)) \<and> (\<forall>n a b. harmless (nc_acd_netif_ip_addr_changed K n a b)) \<and>
     (\<forall>n. harmless (nc_acd_network_changed_link_down K n)) \<and> (\<forall>n. harmless (nc_dhcp_network_changed_link_up K n)) \<and>
     (\<forall>n. harmless (nc_autoip_network_changed_link_up K n)) \<and> (\<forall>n. harmless (nc_autoip_network_changed_link_down K n))"

named_theorems harmless_intros \<open>compositions of harmless operations\<close>

lemma harmless_Some [harmless_intros]: "harmless Some"
  by (simp add: harmless_def same_list_def)

lemma harmless_bind [harmless_intros]:
  assumes "harmless f" "harmless g"
  shows "harmless (\<lambda>s. Option.bind (f s) g)"
  unfolding harmless_def
proof (intro allI impI)
  fix s :: "'a arp_scheme" assume "arp_sound s"
  then obtain t where "f s = Some t" "arp_sound t" "same_list s t" using assms(1) unfolding harmless_def by blast
  moreover then obtain u where "g t = Some u" "arp_sound u" "same_list t u" using assms(2) unfolding harmless_def by blast
  ultimately show "\<exists>s'. Option.bind (f s) g = Some s' \<and> arp_sound s' \<and> same_list s s'" by (simp add: same_list_def)
qed

lemma harmless_if [harmless_intros]: "harmless f \<Longrightarrow> harmless g \<Longrightarrow> harmless (\<lambda>s. if P s then f s else g s)"
  by (simp add: harmless_def)

lemma harmless_id [harmless_intros]: "harmless (\<lambda>s. Some s)"
  by (simp add: harmless_def same_list_def)

lemma harmless_sel:
  assumes "\<And>v. harmless (f v)"
  shows "harmless (\<lambda>s. f (g s) s)"
  using assms by (simp add: harmless_def)


definition tame :: "(netdev \<Rightarrow> netdev) \<Rightarrow> bool" where
  "tame f \<longleftrightarrow> (\<forall>d. nf_linkoutput (f d) = nf_linkoutput d \<and> nf_hwaddr (f d) = nf_hwaddr d \<and> nf_hwaddr_len (f d) = nf_hwaddr_len d)"

lemma arp_inv_netifs:
  assumes "same_mem s' s" "arp_table s' = arp_table s" "etharp_cached_entry s' = etharp_cached_entry s" "\<And>n. netif_ok s' n = netif_ok s n"
  shows "arp_inv s' R = arp_inv s R"
  using same_mem(3,5) [OF assms(1)] pb_cong(5) [of s' s] assms(2-4) by (simp add: arp_inv_def arp_table_ok_def entry_ok_def)

lemma arp_inv_upd_netif [simp]: "tame f \<Longrightarrow> arp_inv (upd_netif n f s) R = arp_inv s R"
  by (rule arp_inv_netifs) (auto simp: same_mem_def upd_netif_def netif_ok_def tame_def)

lemma arp_inv_list [simp]: "arp_inv (s\<lparr>netif_list := l\<rparr>) R = arp_inv s R" "arp_inv (s\<lparr>netif_num := k\<rparr>) R = arp_inv s R"
  "arp_inv (s\<lparr>netif_default := d\<rparr>) R = arp_inv s R" "arp_inv (LWIP_ERROR msg s) R = arp_inv s R"
  by (rule arp_inv_netifs; simp add: same_mem_def netif_ok_def LWIP_ERROR_def)+

lemma arp_sound_upd [simp]:
  "tame f \<Longrightarrow> arp_sound (upd_netif n f s) = arp_sound s" "arp_sound (s\<lparr>netif_list := l\<rparr>) = arp_sound s"
  "arp_sound (s\<lparr>netif_num := k\<rparr>) = arp_sound s" "arp_sound (s\<lparr>netif_default := d\<rparr>) = arp_sound s"
  "arp_sound (LWIP_ERROR msg s) = arp_sound s"
  by (simp_all only: arp_sound_def arp_inv_upd_netif arp_inv_list)

lemma harmless_upd [harmless_intros]:
  assumes "tame f" "\<And>d. nf_next (f d) = nf_next d" "\<And>d. nf_num (f d) = nf_num d"
  shows "harmless (\<lambda>s. Some (upd_netif n f s))"
  using assms by (simp add: harmless_def same_list_def)

lemma harmless_default [harmless_intros]: "harmless (\<lambda>s. Some (netif_set_default d s))"
  by (simp add: harmless_def same_list_def netif_set_default_def)

lemma harmless_error [harmless_intros]: "harmless (\<lambda>s. Some (LWIP_ERROR msg s))"
  by (simp add: harmless_def) (simp add: same_list_def LWIP_ERROR_def)

lemma harmless_flags [harmless_intros]: "harmless (\<lambda>s. Some (netif_set_flags n fl s))" "harmless (\<lambda>s. Some (netif_clear_flags n fl s))"
  unfolding netif_set_flags_def netif_clear_flags_def by (rule harmless_upd; simp add: tame_def)+

lemma harmless_reports [harmless_intros]: "harmless (\<lambda>s. Some (netif_issue_reports n t s))"
  by (simp add: netif_issue_reports_def harmless_id)

lemma calls_harmless [harmless_intros]:
  assumes "calls_ok K"
  shows "harmless (\<lambda>s. map_option snd (nc_init K f n s))" "harmless (nc_callback K f n)"
    "harmless (nc_tcp_netif_ip_addr_changed K a b)" "harmless (nc_udp_netif_ip_addr_changed K a b)"
    "harmless (nc_raw_netif_ip_addr_changed K a b)" "harmless (nc_acd_netif_ip_addr_changed K n a c)"
    "harmless (nc_acd_network_changed_link_down K n)" "harmless (nc_dhcp_network_changed_link_up K n)"
    "harmless (nc_autoip_network_changed_link_up K n)" "harmless (nc_autoip_network_changed_link_down K n)"
  using assms unfolding calls_ok_def by blast+

lemma callbacks_harmless [harmless_intros]:
  assumes "calls_ok K"
  shows "harmless (NETIF_STATUS_CALLBACK K n)" "harmless (NETIF_LINK_CALLBACK K n)"
proof -
  have c: "harmless (case f of None \<Rightarrow> Some | Some f \<Rightarrow> nc_callback K f n)" for f
    using assms by (auto intro: harmless_intros split: option.split)
  have "NETIF_STATUS_CALLBACK K n = (\<lambda>s. (case nf_status_callback (netifs s n) of None \<Rightarrow> Some | Some f \<Rightarrow> nc_callback K f n) s)"
    "NETIF_LINK_CALLBACK K n = (\<lambda>s. (case nf_link_callback (netifs s n) of None \<Rightarrow> Some | Some f \<Rightarrow> nc_callback K f n) s)"
    by (auto simp: NETIF_STATUS_CALLBACK_def NETIF_LINK_CALLBACK_def fun_eq_iff split: option.split)
  then show "harmless (NETIF_STATUS_CALLBACK K n)" "harmless (NETIF_LINK_CALLBACK K n)"
    using harmless_sel [OF c, of "\<lambda>s. nf_status_callback (netifs s n)"] harmless_sel [OF c, of "\<lambda>s. nf_link_callback (netifs s n)"] by simp_all
qed


lemma harmless_let [harmless_intros]: "harmless (\<lambda>s. Some (f s)) \<Longrightarrow> harmless g \<Longrightarrow> harmless (\<lambda>s. Let (f s) g)"
  using harmless_bind [of "\<lambda>s. Some (f s)" g] by simp

lemma map_snd_bind: "map_option f (Option.bind x g) = Option.bind x (\<lambda>y. map_option f (g y))"
  by (cases x) simp_all

lemma addr_changed_harmless [harmless_intros]: "calls_ok K \<Longrightarrow> harmless (netif_do_ip_addr_changed K a b)"
  unfolding netif_do_ip_addr_changed_def by (intro harmless_intros)

lemma do_set_ipaddr_harmless [harmless_intros]:
  assumes "calls_ok K"
  shows "harmless (\<lambda>s. map_option snd (netif_do_set_ipaddr K n a s))"
proof -
  have b: "harmless (\<lambda>s. Option.bind (netif_do_ip_addr_changed K old (Some a) s) (\<lambda>s. Option.bind (nc_acd_netif_ip_addr_changed K n old a s)
    (\<lambda>s. let s = upd_netif n (nf_ip_addr_update (\<lambda>_. a)) s; s = netif_issue_reports n NETIF_REPORT_TYPE_IPV4 s in NETIF_STATUS_CALLBACK K n s)))" for old
    by (intro harmless_intros assms) (simp_all add: tame_def)
  have e: "(\<lambda>s. map_option snd (netif_do_set_ipaddr K n a s)) = (\<lambda>s. if a \<noteq> nf_ip_addr (netifs s n) then
      Option.bind (netif_do_ip_addr_changed K (nf_ip_addr (netifs s n)) (Some a) s) (\<lambda>s'. Option.bind (nc_acd_netif_ip_addr_changed K n (nf_ip_addr (netifs s n)) a s')
    (\<lambda>s. let s = upd_netif n (nf_ip_addr_update (\<lambda>_. a)) s; s = netif_issue_reports n NETIF_REPORT_TYPE_IPV4 s in NETIF_STATUS_CALLBACK K n s)) else Some s)"
    by (simp add: fun_eq_iff netif_do_set_ipaddr_def Let_def map_snd_bind)
  show ?thesis unfolding e by (intro harmless_if harmless_id) (rule harmless_sel [OF b])
qed

lemma do_set_mask_gw_harmless [harmless_intros]:
  "harmless (\<lambda>s. Some (snd (netif_do_set_netmask n a s)))" "harmless (\<lambda>s. Some (snd (netif_do_set_gw n a s)))"
  by (simp_all add: harmless_def netif_do_set_netmask_def netif_do_set_gw_def same_list_def tame_def)

lemma set_addr_harmless [harmless_intros]:
  assumes "calls_ok K"
  shows "harmless (netif_set_addr K n a b c)"
proof -
  define x y z where "x = (case a of None \<Rightarrow> IPADDR_ANY | Some a \<Rightarrow> a)" and "y = (case b of None \<Rightarrow> IPADDR_ANY | Some a \<Rightarrow> a)"
    and "z = (case c of None \<Rightarrow> IPADDR_ANY | Some a \<Rightarrow> a)"
  have e: "netif_set_addr K n a b c = (\<lambda>s. Option.bind (if x = IPADDR_ANY then map_option snd (netif_do_set_ipaddr K n x s) else Some s)
      (\<lambda>s. let s = snd (netif_do_set_netmask n y s); s = snd (netif_do_set_gw n z s) in
        if x \<noteq> IPADDR_ANY then map_option snd (netif_do_set_ipaddr K n x s) else Some s))"
    unfolding x_def [symmetric] y_def [symmetric] z_def [symmetric] netif_set_addr_def Let_def by (simp add: fun_eq_iff)
  show ?thesis unfolding e by (intro harmless_intros assms)
qed


lemma set_up_harmless [harmless_intros]:
  assumes "calls_ok K"
  shows "harmless (netif_set_up K (Some n))" "harmless (netif_set_link_up K (Some n))" "harmless (netif_set_link_down K (Some n))"
  unfolding netif_set_up_def netif_set_link_up_def netif_set_link_down_def option.case by (intro harmless_intros assms)+


lemma free_entry_list:
  assumes "arp_inv s R" "i < ARP_TABLE_SIZE" "etharp_free_entry H i s = Some s'"
  shows "netif_list s' = netif_list s"
proof (cases "e_q (arp_table s ! i)")
  case None
  then show ?thesis using assms(3) by (auto simp: etharp_free_entry_def upd_entry_def)
next
  case (Some q)
  let ?Q = "arp_queues (arp_table s) @ R"
  have "arp_table s ! i \<in> set (arp_table s)" using assms(1,2) by (simp add: arp_inv_def arp_table_ok_def)
  moreover have "q \<in> set (queue_of (arp_table s ! i))" using Some by (simp add: queue_of_def)
  ultimately have "q \<in> set ?Q" by (auto simp: arp_queues_def)
  then have "owned s (q # remove1 q ?Q)"
    using owned_cong [of "q # remove1 q ?Q" ?Q s] count_remove1 [of q ?Q] assms(1) by (simp add: arp_inv_def)
  then obtain n t where t: "pbuf_free (lk_free H) (Some q) s = Some (n, t)" "stack.more t = stack.more s"
    using pbuf_free_owned by blast
  have "netif_list t = netif_list s" using t(2) by (cases s; cases t) simp
  then show ?thesis using assms(3) Some t(1) by (auto simp: etharp_free_entry_def upd_entry_def)
qed

lemma cleanup_list:
  assumes "arp_inv s R" "\<forall>i \<in> set is. i < ARP_TABLE_SIZE" "cleanup_loop H n is s = Some s'"
  shows "netif_list s' = netif_list s"
  using assms
proof (induction "is" arbitrary: s)
  case (Cons i "is")
  define hit where "hit \<longleftrightarrow> e_state (arp_table s ! i) \<noteq> ETHARP_STATE_EMPTY \<and> e_netif (arp_table s ! i) = Some n"
  obtain t where t: "(if hit then etharp_free_entry H i s else Some s) = Some t" "cleanup_loop H n is t = Some s'"
    using Cons.prems(3) by (auto simp: hit_def bind_eq_Some_conv)
  have "arp_inv t R \<and> netif_list t = netif_list s"
  proof (cases hit)
    case True
    obtain u where "etharp_free_entry H i s = Some u" "arp_to R s u"
      using free_entry_ok [OF Cons.prems(1), of i H] Cons.prems(2) by auto
    then show ?thesis using t(1) True free_entry_list [OF Cons.prems(1), of i H t] Cons.prems(2) arp_toD(1) by auto
  qed (use t(1) Cons.prems(1) in simp)
  then show ?case using Cons.IH [OF _ _ t(2)] Cons.prems(2) by simp
qed simp

lemma cleanup_harmless [harmless_intros]: "harmless (etharp_cleanup_netif H n)"
  unfolding harmless_def
proof (intro allI impI)
  fix s :: "'a arp_scheme" assume "arp_sound s"
  then obtain R where inv: "arp_inv s R" by (auto simp: arp_sound_def)
  then obtain s' where s': "cleanup_loop H n [0..<ARP_TABLE_SIZE] s = Some s'" "arp_to R s s'"
    using cleanup_ok [OF inv, of "[0..<ARP_TABLE_SIZE]" H n] by auto
  then show "\<exists>s'. etharp_cleanup_netif H n s = Some s' \<and> arp_sound s' \<and> same_list s s'"
    using cleanup_list [OF inv _ s'(1)] arp_toD [OF s'(2)] by (auto simp: etharp_cleanup_netif_def same_list_def arp_sound_def)
qed

lemma set_down_harmless [harmless_intros]:
  assumes "calls_ok K"
  shows "harmless (netif_set_down H K (Some n))"
  unfolding netif_set_down_def option.case by (intro harmless_intros assms)

section \<open>Removing\<close>

lemma netif_unlink_eq:
  assumes "nchain s p xs" "p \<noteq> Some n" "n \<in> set xs" "distinct xs"
  shows "\<exists>t. netif_unlink n p s = Some (upd_netif t (nf_next_update (\<lambda>_. nf_next (netifs s n))) s) \<and> t \<in> set xs \<and> t \<noteq> n \<and>
    nchain (upd_netif t (nf_next_update (\<lambda>_. nf_next (netifs s n))) s) p (remove1 n xs)"
  using assms
proof (induction xs arbitrary: p)
  case (Cons x xs)
  show ?case
  proof (cases "nf_next (netifs s x) = Some n")
    case True
    then obtain ys where ys: "xs = n # ys" using Cons.prems by (cases xs) auto
    let ?s = "upd_netif x (nf_next_update (\<lambda>_. nf_next (netifs s n))) s"
    have "nchain ?s q ys = nchain s q ys" for q using Cons.prems(4) by (intro nchain_cong) (auto simp: ys)
    then show ?thesis using Cons.prems True ys by (intro exI [of _ x]) (subst netif_unlink.simps, simp)
  next
    case False
    then obtain t where t: "netif_unlink n (nf_next (netifs s x)) s = Some (upd_netif t (nf_next_update (\<lambda>_. nf_next (netifs s n))) s)"
      "t \<in> set xs" "t \<noteq> n" "nchain (upd_netif t (nf_next_update (\<lambda>_. nf_next (netifs s n))) s) (nf_next (netifs s x)) (remove1 n xs)"
      using Cons.IH [of "nf_next (netifs s x)"] Cons.prems by auto
    then show ?thesis using False Cons.prems by (intro exI [of _ t]) (subst netif_unlink.simps, auto)
  qed
qed simp

lemma netif_unlink_none:
  assumes "nchain s p xs" "p \<noteq> Some n" "n \<notin> set xs"
  shows "netif_unlink n p s = Some s"
  using assms
proof (induction xs arbitrary: p)
  case Nil
  then show ?case by (subst netif_unlink.simps) simp
next
  case (Cons x xs)
  have "nf_next (netifs s x) \<noteq> Some n" using Cons.prems by (cases xs) auto
  then show ?case using Cons by (subst netif_unlink.simps) simp
qed


lemma harmlessD: "harmless f \<Longrightarrow> arp_sound s \<Longrightarrow> netifs_ok s xs \<Longrightarrow> \<exists>s'. f s = Some s' \<and> arp_sound s' \<and> netifs_ok s' xs"
  unfolding harmless_def using same_list_ok by blast

lemma tame_links [simp]: "tame (nf_next_update h)" "tame (nf_num_update g)" "tame (netif_reset st k i)"
  by (simp_all add: tame_def netif_reset_def)

lemma remove1_image: "distinct (map f xs) \<Longrightarrow> distinct (map f (remove1 n xs))"
proof (induction xs)
  case (Cons x xs)
  then show ?case using set_remove1_subset [of n xs] by auto
qed simp

lemma netif_remove_ok:
  assumes "calls_ok K" "arp_sound s" "netifs_ok s xs"
  shows "\<exists>s'. netif_remove H K (Some n) s = Some s' \<and> arp_sound s' \<and> netifs_ok s' (remove1 n xs)"
proof -
  have "harmless (\<lambda>s. Option.bind (if nf_ip_addr (netifs s n) \<noteq> IPADDR_ANY then netif_do_ip_addr_changed K (nf_ip_addr (netifs s n)) None s else Some s)
      (\<lambda>s. Option.bind (if netif_is_up n s then netif_set_down H K (Some n) s else Some s)
        (\<lambda>s. if netif_default s = Some n then Some (netif_set_default None s) else Some s)))" (is "harmless ?f")
    by (intro harmless_intros assms(1) harmless_sel [where g = "\<lambda>s. nf_ip_addr (netifs s n)" and f = "\<lambda>a. netif_do_ip_addr_changed K a None"])
  then obtain t where t: "?f s = Some t" "arp_sound t" "netifs_ok t xs" using harmlessD assms(2,3) by blast
  have e: "netif_remove H K (Some n) s = Option.bind (?f s) (\<lambda>s. if netif_list s = Some n then Some (s\<lparr>netif_list := nf_next (netifs s n)\<rparr>)
      else netif_unlink n (netif_list s) s)"
    by (simp add: netif_remove_def bind_assoc if_distrib [of Some, symmetric] Let_def)
  note k = t(3) [unfolded netifs_ok_def]
  show ?thesis
  proof (cases "netif_list t = Some n")
    case True
    then obtain ys where ys: "xs = n # ys" "nchain t (nf_next (netifs t n)) ys" using k by (cases xs) auto
    have "nchain (t\<lparr>netif_list := l\<rparr>) q zs = nchain t q zs" for l q zs by (rule nchain_cong) simp
    then show ?thesis using e t(1,2) True k ys by (simp add: netifs_ok_def)
  next
    case False
    have rest: "distinct (remove1 n xs)" "distinct (map (\<lambda>n. nf_num (netifs t n)) (remove1 n xs))" "\<forall>x \<in> set (remove1 n xs). nf_num (netifs t x) < 255"
      using k remove1_image set_remove1_subset [of n xs] by auto
    show ?thesis
    proof (cases "n \<in> set xs")
      case True
      then obtain u where u: "netif_unlink n (netif_list t) t = Some (upd_netif u (nf_next_update (\<lambda>_. nf_next (netifs t n))) t)"
        "nchain (upd_netif u (nf_next_update (\<lambda>_. nf_next (netifs t n))) t) (netif_list t) (remove1 n xs)"
        using netif_unlink_eq [of t "netif_list t" xs n] k False by blast
      have "nf_num (netifs (upd_netif u (nf_next_update (\<lambda>_. nf_next (netifs t n))) t) x) = nf_num (netifs t x)" for x by simp
      then show ?thesis using e t(1,2) False u rest by (simp add: netifs_ok_def)
    next
      case out: False
      then show ?thesis using e t False netif_unlink_none [of t "netif_list t" xs n] k by (simp add: remove1_idem)
    qed
  qed
qed

section \<open>Adding\<close>

lemma netif_add_ok:
  assumes "calls_ok K" "arp_sound s" "netifs_ok s xs" "n \<notin> set xs" "length xs < 255"
  shows "\<exists>r s'. netif_add K (Some n) a b c st (Some f) i s = Some (r, s') \<and> arp_sound s' \<and>
    (r = None \<and> netifs_ok s' xs \<or> r = Some n \<and> netifs_ok s' (n # xs))"
proof -
  define s1 where "s1 = upd_netif n (netif_reset st (netif_num s) i) s"
  have "nchain s1 p xs = nchain s p xs" for p using assms(4) by (intro nchain_cong) (auto simp: s1_def)
  moreover have "nf_num (netifs s1 x) = nf_num (netifs s x)" if "x \<in> set xs" for x using that assms(4) by (auto simp: s1_def)
  ultimately have s1: "netifs_ok s1 xs" "arp_sound s1" using assms(2,3) by (simp_all add: netifs_ok_def s1_def cong: map_cong)
  define A B C where "A = Some (case a of None \<Rightarrow> IPADDR_ANY | Some x \<Rightarrow> x)" and "B = Some (case b of None \<Rightarrow> IPADDR_ANY | Some x \<Rightarrow> x)"
    and "C = Some (case c of None \<Rightarrow> IPADDR_ANY | Some x \<Rightarrow> x)"
  obtain s2 where s2: "netif_set_addr K n A B C s1 = Some s2" "arp_sound s2" "netifs_ok s2 xs"
    using harmlessD [OF set_addr_harmless s1(2,1)] assms(1) by blast
  obtain e s3 where s3: "nc_init K f n s2 = Some (e, s3)" "arp_sound s3" "netifs_ok s3 xs"
    using harmlessD [OF calls_harmless(1) [OF assms(1), of f n] s2(2,3)] by auto
  have run: "netif_add K (Some n) a b c st (Some f) i s = (if e \<noteq> ERR_OK then Some (None, s3) else do {
      s \<leftarrow> num_search n s3;
      let s = s\<lparr>netif_num := (if nf_num (netifs s n) = 254 then 0 else nf_num (netifs s n) + 1)\<rparr>;
      let s = upd_netif n (nf_next_update (\<lambda>_. netif_list s)) s;
      Some (Some n, s\<lparr>netif_list := Some n\<rparr>) })"
    unfolding netif_add_def option.case A_def [symmetric] B_def [symmetric] C_def [symmetric] Let_def s1_def [symmetric]
    using s2(1) s3(1) by simp
  show ?thesis
  proof (cases "e = ERR_OK")
    case False
    then show ?thesis using run s3 by simp
  next
    case True
    note k = s3(3) [unfolded netifs_ok_def]
    obtain v where v: "num_search n s3 = Some (upd_netif n (nf_num_update (\<lambda>_. v)) s3)" "v < 255" "v \<notin> (\<lambda>x. nf_num (netifs s3 x)) ` set xs"
      using num_search_ok [of s3 xs n] k assms(4,5) by blast
    define s4 where "s4 = (upd_netif n (nf_num_update (\<lambda>_. v)) s3)\<lparr>netif_num := (if v = 254 then 0 else v + 1)\<rparr>"
    define s5 where "s5 = (upd_netif n (nf_next_update (\<lambda>_. netif_list s4)) s4)\<lparr>netif_list := Some n\<rparr>"
    have o: "netifs s5 x = netifs s3 x" if "x \<in> set xs" for x using that assms(4) by (auto simp: s5_def s4_def)
    have d: "nf_next (netifs s5 n) = netif_list s3" "nf_num (netifs s5 n) = v" "netif_list s5 = Some n" by (simp_all add: s5_def s4_def)
    have "nchain s5 p xs = nchain s3 p xs" for p using o by (intro nchain_cong) simp
    then have "netifs_ok s5 (n # xs)" using k v(2,3) assms(4) o d by (auto simp: netifs_ok_def cong: map_cong)
    moreover have "arp_sound s5" using s3(2) by (simp add: s5_def s4_def)
    moreover have "netif_add K (Some n) a b c st (Some f) i s = Some (Some n, s5)"
      using run True v(1) by (simp add: s5_def s4_def Let_def)
    ultimately show ?thesis by blast
  qed
qed


section \<open>Sequences of operations\<close>

datatype netif_op =
  Add nif "u32 option" "u32 option" "u32 option" "ptr option" fnptr "fnptr option"
| Remove nif
| Set_Addr nif "u32 option" "u32 option" "u32 option"
| Set_Up nif
| Set_Down nif
| Link_Up nif
| Link_Down nif

text \<open>An interface is added once, and there is room for 255 of them.\<close>

fun netif_can :: "netif_op \<Rightarrow> 'a arp_scheme \<Rightarrow> bool" where
  "netif_can (Add n a b c st f i) s \<longleftrightarrow> (\<exists>xs. nchain s (netif_list s) xs \<and> n \<notin> set xs \<and> length xs < 255)"
| "netif_can _ s \<longleftrightarrow> True"

fun netif_do :: "'a arp_scheme link \<Rightarrow> 'a arp_scheme netif_calls \<Rightarrow> netif_op \<Rightarrow> 'a arp_scheme \<Rightarrow> 'a arp_scheme option" where
  "netif_do H K (Add n a b c st f i) s = map_option snd (netif_add K (Some n) a b c st (Some f) i s)"
| "netif_do H K (Remove n) s = netif_remove H K (Some n) s"
| "netif_do H K (Set_Addr n a b c) s = netif_set_addr K n a b c s"
| "netif_do H K (Set_Up n) s = netif_set_up K (Some n) s"
| "netif_do H K (Set_Down n) s = netif_set_down H K (Some n) s"
| "netif_do H K (Link_Up n) s = netif_set_link_up K (Some n) s"
| "netif_do H K (Link_Down n) s = netif_set_link_down K (Some n) s"

inductive netif_run :: "'a arp_scheme link \<Rightarrow> 'a arp_scheme netif_calls \<Rightarrow> 'a arp_scheme \<Rightarrow> netif_op list \<Rightarrow> 'a arp_scheme \<Rightarrow> bool" for H K where
  stop: "netif_run H K s [] s"
| step: "netif_can op s \<Longrightarrow> netif_do H K op s = Some s' \<Longrightarrow> netif_run H K s' ops s'' \<Longrightarrow> netif_run H K s (op # ops) s''"

lemma netif_do_ok:
  assumes K: "calls_ok K" and s: "arp_sound s" "netifs_ok s xs" and can: "netif_can op s"
  shows "\<exists>s' ys. netif_do H K op s = Some s' \<and> arp_sound s' \<and> netifs_ok s' ys"
proof (cases op)
  case (Add n a b c st f i)
  then obtain ys where "nchain s (netif_list s) ys" "n \<notin> set ys" "length ys < 255" using can by auto
  moreover have "ys = xs" using nchain_unique calculation(1) s(2) by (auto simp: netifs_ok_def)
  ultimately show ?thesis using netif_add_ok [OF K s, of n a b c st f i] Add by fastforce
next
  case (Remove n)
  then show ?thesis using netif_remove_ok [OF K s, of H n] by fastforce
next
  case (Set_Addr n a b c)
  then show ?thesis using harmlessD [OF set_addr_harmless [OF K] s] by fastforce
next
  case (Set_Up n)
  then show ?thesis using harmlessD [OF set_up_harmless(1) [OF K] s] by fastforce
next
  case (Set_Down n)
  then show ?thesis using harmlessD [OF set_down_harmless [OF K] s] by fastforce
next
  case (Link_Up n)
  then show ?thesis using harmlessD [OF set_up_harmless(2) [OF K] s] by fastforce
next
  case (Link_Down n)
  then show ?thesis using harmlessD [OF set_up_harmless(3) [OF K] s] by fastforce
qed

lemma netif_run_ok:
  assumes "netif_run H K s ops s'" "calls_ok K" "arp_sound s" "netifs_ok s xs"
  shows "arp_sound s' \<and> (\<exists>ys. netifs_ok s' ys)"
  using assms(1,3,4)
proof (induction arbitrary: xs rule: netif_run.induct)
  case (step op s s' ops s'')
  then show ?case using netif_do_ok [OF assms(2) step.prems step.hyps(1), of H] by auto
qed auto



section \<open>Names\<close>

lemma netif_foreach_eq: "nchain s p xs \<Longrightarrow> netif_foreach P p s = Some (find (\<lambda>x. P (netifs s x)) xs)"
proof (induction xs arbitrary: p)
  case Nil
  then show ?case by (subst netif_foreach.simps) simp
next
  case (Cons x xs)
  then show ?case by (subst netif_foreach.simps) simp
qed

lemma find_only:
  assumes "n \<in> set xs" "P n" "\<And>x. x \<in> set xs \<Longrightarrow> P x \<Longrightarrow> x = n"
  shows "find P xs = Some n"
proof -
  have "find P xs \<noteq> None" using assms(1,2) by (auto simp: find_None_iff)
  then obtain x where x: "find P xs = Some x" by blast
  then have "P x" "x \<in> set xs" by (auto simp: find_Some_iff)
  then show ?thesis using x assms(3) by simp
qed

lemma get_by_index:
  assumes "netifs_ok s xs" "n \<in> set xs"
  shows "netif_get_by_index (netif_get_index (netifs s n)) s = Some (Some n)"
proof -
  note k = assms(1) [unfolded netifs_ok_def]
  have "nf_num (netifs s n) < 255" using k assms(2) by blast
  then have "nf_num (netifs s n) + 1 \<noteq> 0" by (metis add_diff_cancel_right' diff_0 linorder_not_less word_order.extremum)
  moreover have "x = n" if "x \<in> set xs" "netif_get_index (netifs s n) = netif_get_index (netifs s x)" for x
    using that k assms(2) by (simp add: netif_get_index_def distinct_map inj_on_def)
  ultimately show ?thesis using k netif_foreach_eq [of s "netif_list s" xs] find_only [OF assms(2)]
    by (simp add: netif_get_by_index_def NETIF_NO_INDEX_def netif_get_index_def)
qed

definition digits_value :: "int \<Rightarrow> u8 list \<Rightarrow> int" where
  "digits_value acc ds = foldl (\<lambda>a d. a * 10 + (uint d - 48)) acc ds"

definition is_digit :: "u8 \<Rightarrow> bool" where
  "is_digit d \<longleftrightarrow> 48 \<le> d \<and> d \<le> 57"

lemma uint_digit: "is_digit d \<Longrightarrow> 48 \<le> uint d"
  by (simp add: is_digit_def word_le_def)

lemma digits_value_mono: "\<forall>d \<in> set ds. is_digit d \<Longrightarrow> 0 \<le> acc \<Longrightarrow> acc \<le> digits_value acc ds"
proof (induction ds arbitrary: acc)
  case (Cons d ds)
  then have "acc * 10 + (uint d - 48) \<le> digits_value (acc * 10 + (uint d - 48)) ds" using uint_digit [of d] by simp
  then show ?case using Cons.prems uint_digit [of d] by (simp add: digits_value_def)
qed (simp add: digits_value_def)

lemma atoi_digits_str:
  assumes "str_at m p ds" "\<forall>d \<in> set ds. is_digit d" "0 \<le> acc" "digits_value acc ds < 2 ^ 31"
  shows "atoi_digits p acc m = Some (digits_value acc ds)"
  using assms
proof (induction ds arbitrary: p acc)
  case Nil
  then show ?case by (subst atoi_digits.simps) (simp add: digits_value_def)
next
  case (Cons d ds)
  let ?a = "acc * 10 + (uint d - 48)"
  have d: "48 \<le> d" "d \<le> 57" "48 \<le> uint d" "m p = d" using Cons.prems uint_digit [of d] by (simp_all add: is_digit_def)
  have "digits_value acc (d # ds) = digits_value ?a ds" by (simp add: digits_value_def)
  moreover have "?a \<le> digits_value ?a ds" using Cons.prems(2,3) d(3) by (intro digits_value_mono) simp_all
  ultimately show ?case using Cons.IH [of "ptr_add p 1" ?a] Cons.prems d by (subst atoi_digits.simps) simp
qed

lemma digit_of: "n < 10 \<Longrightarrow> is_digit (of_nat (48 + n)) \<and> uint (of_nat (48 + n) :: u8) = 48 + int n"
  using unat_of_nat8 [of "48 + n"] by (simp add: is_digit_def word_le_nat_alt uint_nat del: of_nat_add)

lemma atoi_decimal_value: "(\<forall>d \<in> set (decimal n). is_digit d) \<and> digits_value 0 (decimal n) = int n"
proof (induction n rule: decimal.induct)
  case (1 n)
  show ?case
  proof (cases "n < 10")
    case True
    then show ?thesis using digit_of [of n] by (simp add: decimal.simps digits_value_def)
  next
    case False
    then have "decimal n = decimal (n div 10) @ [of_nat (48 + n mod 10)]" by (simp add: decimal.simps)
    moreover have "int (n div 10) * 10 + int (n mod 10) = int n" using div_mult_mod_eq [of n 10] by linarith
    ultimately show ?thesis using 1 False digit_of [of "n mod 10"] by (simp add: digits_value_def)
  qed
qed

lemma atoi_decimal:
  assumes "str_at m p (decimal n)" "n < 2 ^ 31"
  shows "atoi p m = Some (int n)"
proof -
  obtain d ds where d: "decimal n = d # ds" using decimal_ne by (cases "decimal n") auto
  then have "is_digit (m p)" using atoi_decimal_value [of n] assms(1) by simp
  then have "m p \<notin> {9, 10, 11, 12, 13, 32, 43, 45}" by (auto simp: is_digit_def)
  then show ?thesis using atoi_digits_str [OF assms(1), of 0] atoi_decimal_value [of n] assms(2)
    by (simp add: atoi_def atoi_space.simps [of p])
qed


text \<open>
  C37. Names lead back to their interface: the name that \<^verbatim>\<open>netif_index_to_name\<close> writes for an
  interface of the list (two letters, then its number in decimal) is the one with which
  \<^verbatim>\<open>netif_find\<close> finds this interface and \<^verbatim>\<open>netif_name_to_index\<close> its index, and only
  the six octets of the buffer are written.
\<close>

theorem netif_name_roundtrip:
  assumes "netifs_ok s xs" "n \<in> set xs"
  shows "\<exists>s'. netif_index_to_name (netif_get_index (netifs s n)) q s = Some (Some q, s') \<and>
    netif_find (Some q) s' = Some (Some n) \<and> netif_name_to_index (Some q) s' = Some (netif_get_index (netifs s n)) \<and>
    (\<forall>a. apart q 6 a 1 \<longrightarrow> octet s' a = octet s a)"
proof -
  note k = assms(1) [unfolded netifs_ok_def]
  define d v where "d = netifs s n" and "v = unat (nf_num (netifs s n))"
  have v: "v < 255" using k assms(2) by (simp add: v_def word_less_nat_alt)
  have idx: "netif_index_to_num (netif_get_index d) = int v"
  proof -
    have "unat (nf_num d + 1) = v + 1" using v by (simp add: d_def v_def unat_plus_if')
    then show ?thesis by (simp add: netif_index_to_num_def netif_get_index_def uint_nat)
  qed
  have len: "length (decimal v) < 4"
    using v decimal.simps [of v] decimal.simps [of "v div 10"] decimal.simps [of "v div 100"] by (simp add: div_mult2_eq [symmetric])
  define m0 where "m0 = (octet s)(q := fst (nf_name d), ptr_add q 1 := snd (nf_name d))"
  obtain m where m: "lwip_itoa (ptr_add q 2) 4 (int v) m0 = Some m" "str_at m (ptr_add q 2) (decimal v)"
    "\<forall>a. off_buf (ptr_add q 2) 0 4 a \<longrightarrow> m a = m0 a"
    using itoa_string [of "int v" 4 "ptr_add q 2" m0] len by auto
  define s' where "s' = s\<lparr>octet := m\<rparr>"
  have "netif_index_to_name (netif_get_index d) q s = Some (Some q, s')"
    unfolding netif_index_to_name_def d_def get_by_index [OF assms]
    by (simp add: NETIF_NAMESIZE_def d_def [symmetric] idx m0_def [symmetric] m(1) s'_def)
  moreover have f: "netif_find (Some q) s' = Some (Some n)"
  proof -
    have o: "m q = fst (nf_name d)" "m (ptr_add q 1) = snd (nf_name d)"
      using m(3) by (simp_all add: off_buf_def m0_def prod_eq_iff)
    have a: "atoi (ptr_add q 2) m = Some (int v)" using atoi_decimal [OF m(2)] v by simp
    have z: "nf_num d = 0 \<Longrightarrow> m (ptr_add q 2) = 48" using m(2) by (simp add: decimal.simps v_def d_def)
    have num: "(of_int (int v) :: u8) = nf_num d" by (simp add: v_def d_def)
    have "nchain s' (netif_list s') xs" using k nchain_cong [of xs s' s] by (simp add: s'_def)
    moreover have "x = n" if "x \<in> set xs" "nf_num d = nf_num (netifs s x)" for x
      using that k assms(2) by (simp add: d_def distinct_map inj_on_def)
    ultimately show ?thesis using a z num o netif_foreach_eq [of s' "netif_list s'" xs] 
        find_only [OF assms(2), of "\<lambda>x. nf_num d = nf_num (netifs s x) \<and> m q = fst (nf_name (netifs s x)) \<and> m (ptr_add q 1) = snd (nf_name (netifs s x))"]
      by (simp add: netif_find_def s'_def d_def v_def Let_def)
  qed
  moreover have "netif_name_to_index (Some q) s' = Some (netif_get_index d)" using f by (simp add: netif_name_to_index_def s'_def d_def)
  moreover have "octet s' a = octet s a" if "apart q 6 a 1" for a
    using that m(3) by (auto simp: s'_def m0_def off_buf_def apart_def)
  ultimately show ?thesis by (auto simp: d_def)
qed


section \<open>Example\<close>

text \<open>Protocols that have nothing to do when an interface changes, and a driver that is always ready.\<close>

definition plain_calls :: "arp netif_calls" where
  "plain_calls = \<lparr>nc_init = (\<lambda>_ _ s. Some (ERR_OK, s)), nc_callback = (\<lambda>_ _. Some), nc_tcp_netif_ip_addr_changed = (\<lambda>_ _. Some),
     nc_udp_netif_ip_addr_changed = (\<lambda>_ _. Some), nc_raw_netif_ip_addr_changed = (\<lambda>_ _. Some),
     nc_acd_netif_ip_addr_changed = (\<lambda>_ _ _. Some), nc_acd_network_changed_link_down = (\<lambda>_. Some),
     nc_dhcp_network_changed_link_up = (\<lambda>_. Some), nc_autoip_network_changed_link_up = (\<lambda>_. Some),
     nc_autoip_network_changed_link_down = (\<lambda>_. Some)\<rparr>"

lemma plain_calls_ok: "calls_ok plain_calls"
  by (simp add: calls_ok_def plain_calls_def harmless_Some)

lemma boot_netifs: "netifs_ok arp_boot [0]" "arp_sound arp_boot" "netif_list arp_boot = Some 0"
proof -
  show l: "netif_list arp_boot = Some 0" by (simp add: arp_boot_def net.defs arp.defs timers.defs stack.defs)
  then show "netifs_ok arp_boot [0]" by (simp add: netifs_ok_def eth0_def)
  show "arp_sound arp_boot" using arp_boot_inv by (auto simp: arp_sound_def)
qed


theorem netif_name_roundtrip_witness:
  "\<exists>s'. netif_index_to_name 1 (Ext 7, 0) arp_boot = Some (Some (Ext 7, 0), s') \<and> netif_find (Some (Ext 7, 0)) s' = Some (Some 0)"
  using netif_name_roundtrip [OF boot_netifs(1), of 0 "(Ext 7, 0)"] by (auto simp: netif_get_index_def eth0_def)

end
