(* ===== verification/App.thy ===== *)
theory App
  imports Lan91c111_Frames Netif_List
begin

text \<open>
  The application, \<^verbatim>\<open>app/app.c\<close>: the glue between the driver and the stack in both directions,
  the set-up of the interface, and the main loop. DHCP, AutoIP, SNTP and the initialisation of the
  other modules are parameters; debug output is left out.
\<close>

section \<open>Frames\<close>

text \<open>The functions that are stored in the interface.\<close>

definition FN_ethernet_input :: fnptr where "FN_ethernet_input = 1"

definition FN_etharp_output :: fnptr where "FN_etharp_output = 2"

definition FN_netif_output :: fnptr where "FN_netif_output = 3"

definition FN_mynetif_init :: fnptr where "FN_mynetif_init = 4"

definition FN_netif_status_callback :: fnptr where "FN_netif_status_callback = 5"

definition FN_link_callback :: fnptr where "FN_link_callback = 6"

definition e0netif :: nif where "e0netif = 0"

definition call_input ::
  "'a arp_scheme link \<Rightarrow> fnptr option \<Rightarrow> ptr \<Rightarrow> nif \<Rightarrow> 'a arp_scheme \<Rightarrow> (err_t \<times> 'a arp_scheme) option" where
  "call_input H f p n s = (if f = Some FN_ethernet_input then ethernet_input H p n s else None)"

definition process_frames ::
  "'a arp_scheme link \<Rightarrow> ptr \<Rightarrow> int \<Rightarrow> 'a arp_scheme \<Rightarrow> (int \<times> 'a arp_scheme) option" where
  "process_frames H frame frame_len s = do {
     (p, s) \<leftarrow> pbuf_alloc (lk_free H) PBUF_RAW (of_int frame_len) PBUF_POOL s;
     s \<leftarrow> (case p of None \<Rightarrow> Some (LINK_STATS_INC st_drop_update (LINK_STATS_INC st_memerr_update s))
       | Some a \<Rightarrow> do {
           (e, s) \<leftarrow> pbuf_take (Some a) (Some frame) (of_int frame_len) s;
           if e \<noteq> ERR_OK then do {
             (_, s) \<leftarrow> pbuf_free (lk_free H) (Some a) s;
             Some (LINK_STATS_INC st_drop_update s)
           } else do {
             (e, s) \<leftarrow> call_input H (nf_input (netifs s e0netif)) a e0netif s;
             if e \<noteq> ERR_OK then do {
               (_, s) \<leftarrow> pbuf_free (lk_free H) (Some a) s;
               Some (LINK_STATS_INC st_drop_update s)
             } else Some s
           }
         });
     Some (0, s)
   }"

text \<open>The frame is put together in an array on the stack.\<close>

definition mac_send_buffer :: ptr where "mac_send_buffer = (Ext 1, 0)"

definition netif_output ::
  "'h chip \<Rightarrow> nif \<Rightarrow> ptr \<Rightarrow> ('h, 'z) adapter_scheme \<Rightarrow> (err_t \<times> ('h, 'z) adapter_scheme) option" where
  "netif_output C netif p s = do {
     b \<leftarrow> pb s p;
     let leng = unat (p_tot_len b);
     let s = LINK_STATS_INC st_xmit_update s;
     (_, s) \<leftarrow> pbuf_copy_partial (Some p) (Some mac_send_buffer) (of_nat leng) 0 s;
     let (_, s) = nr_lan91c111_tx_frame C mac_send_buffer (int leng) s;
     Some (ERR_OK, s)
   }"

text \<open>The layers above on the one link of the program.\<close>

definition app_link :: "'h chip \<Rightarrow> ('h, 'z) adapter_scheme link \<Rightarrow> ('h, 'z) adapter_scheme link" where
  "app_link C H = H\<lparr>lk_linkoutput := (\<lambda>_. netif_output C)\<rparr>"

section \<open>Configuration\<close>

record net_config =
  ntp_mode :: u32
  ntp1 :: u32
  ntp2 :: u32
  ntp3 :: u32

record netdev_config_t =
  cfg_hwaddr :: "u8 list"
  cfg_mode :: u32
  cfg_ipaddr :: u32
  cfg_netmask :: u32
  cfg_gw :: u32
  cfg_mtu :: u32
  cfg_default_netif :: u32

text \<open>The variables of the application, on top of those of the driver.\<close>

record 'h app = "'h adapter" +
  e0 :: netdev_config_t
  mynet_config :: net_config

definition e0_addr :: ptr where "e0_addr = (Ext 2, 0)"

definition e0netif_dhcp :: ptr where "e0netif_dhcp = (Ext 3, 0)"

definition e0netif_autoip :: ptr where "e0netif_autoip = (Ext 4, 0)"

definition NET_NONE :: u32 where "NET_NONE = 0"

definition NET_STATIC :: u32 where "NET_STATIC = 1"

definition NET_DHCP_AUTOIP :: u32 where "NET_DHCP_AUTOIP = 2"

definition NET_DHCP :: u32 where "NET_DHCP = 3"

definition NET_AUTOIP :: u32 where "NET_AUTOIP = 4"

definition MODE_DHCP :: "u32 \<Rightarrow> bool" where
  "MODE_DHCP mode \<longleftrightarrow> mode = NET_DHCP \<or> mode = NET_DHCP_AUTOIP"

text \<open>The protocols the application starts and stops.\<close>

record 's app_calls =
  ac_lwip_init :: "'s \<Rightarrow> 's option"
  ac_dhcp_set_struct :: "nif \<Rightarrow> ptr \<Rightarrow> 's \<Rightarrow> 's option"
  ac_dhcp_start :: "nif \<Rightarrow> 's \<Rightarrow> (err_t \<times> 's) option"
  ac_dhcp_cleanup :: "nif \<Rightarrow> 's \<Rightarrow> 's option"
  ac_autoip_set_struct :: "nif \<Rightarrow> ptr \<Rightarrow> 's \<Rightarrow> 's option"
  ac_autoip_start :: "nif \<Rightarrow> 's \<Rightarrow> (err_t \<times> 's) option"
  ac_autoip_remove_struct :: "nif \<Rightarrow> 's \<Rightarrow> 's option"
  ac_sntp_servermode_dhcp :: "bool \<Rightarrow> 's \<Rightarrow> 's option"
  ac_sntp_setserver :: "u8 \<Rightarrow> u32 \<Rightarrow> 's \<Rightarrow> 's option"
  ac_sntp_init :: "'s \<Rightarrow> 's option"

definition net_config_init :: "'s app_calls \<Rightarrow> net_config \<Rightarrow> 's \<Rightarrow> 's option" where
  "net_config_init A net_config s =
     (if ntp_mode net_config \<noteq> 2 then
        (if ntp_mode net_config = 0 then ac_sntp_servermode_dhcp A True s
         else do {
           s \<leftarrow> ac_sntp_setserver A 0 (ntp1 net_config) s;
           s \<leftarrow> ac_sntp_setserver A 1 (ntp2 net_config) s;
           ac_sntp_setserver A 2 (ntp3 net_config) s
         })
      else Some s)"

definition get_mode :: "netdev_config_t \<Rightarrow> u32" where
  "get_mode d = cfg_mode d"

text \<open>The driver's part of adding an interface; the only configuration that interfaces point to is \<open>e0\<close>.\<close>

definition mynetif_init :: "nif \<Rightarrow> ('h, 'z) app_scheme \<Rightarrow> (err_t \<times> ('h, 'z) app_scheme) option" where
  "mynetif_init netif s = do {
     d \<leftarrow> (if nf_state (netifs s netif) = Some e0_addr then Some (e0 s) else None);
     let s = upd_netif netif (\<lambda>n. n\<lparr>nf_linkoutput := Some FN_netif_output, nf_output := Some FN_etharp_output, nf_mtu := 1500\<rparr>) s;
     let s = (if cfg_mtu d \<noteq> 0 then upd_netif netif (nf_mtu_update (\<lambda>_. ucast (cfg_mtu d))) s else s);
     let s = upd_netif netif (nf_flags_update (\<lambda>_. NETIF_FLAG_BROADCAST OR NETIF_FLAG_ETHARP OR NETIF_FLAG_ETHERNET)) s;
     let s = (if cfg_hwaddr d \<noteq> ethzero
              then upd_netif netif (\<lambda>n. n\<lparr>nf_hwaddr := cfg_hwaddr d, nf_hwaddr_len := 6\<rparr>) s else s);
     Some (ERR_OK, s)
   }"

text \<open>The callbacks of the application only print.\<close>

definition app_netif_calls :: "('h, 'z) app_scheme netif_calls \<Rightarrow> ('h, 'z) app_scheme netif_calls" where
  "app_netif_calls K = K\<lparr>nc_init := (\<lambda>f n s. if f = FN_mynetif_init then mynetif_init n s else None), nc_callback := (\<lambda>_ _. Some)\<rparr>"

text \<open>An interface structure filled with zeros.\<close>

definition netif_zero :: netdev where
  "netif_zero = \<lparr>nf_next = None, nf_ip_addr = 0, nf_netmask = 0, nf_gw = 0, nf_mtu = 0, nf_hwaddr = replicate 6 0, nf_hwaddr_len = 0,
     nf_flags = 0, nf_name = (0, 0), nf_num = 0, nf_input = None, nf_output = None, nf_linkoutput = None, nf_status_callback = None,
     nf_link_callback = None, nf_state = None, nf_dhcp = None, nf_autoip = None, nf_acd_list = None\<rparr>"

text \<open>The first part of \<^verbatim>\<open>netdev_config\<close>: what the modes do before the interface is added.\<close>

definition netdev_config_mode ::
  "('h, 'z) app_scheme app_calls \<Rightarrow> u32 \<Rightarrow> nif \<Rightarrow> ptr \<Rightarrow> ptr \<Rightarrow> ('h, 'z) app_scheme \<Rightarrow> ('h, 'z) app_scheme option" where
  "netdev_config_mode A mode netif netif_dhcp netif_autoip s =
     (if mode = NET_STATIC then Some s
      else if MODE_DHCP mode then
        ac_dhcp_set_struct A netif netif_dhcp
          (s\<lparr>e0 := (e0 s)\<lparr>cfg_ipaddr := 0, cfg_netmask := 0, cfg_gw := 0\<rparr>\<rparr>)
      else if mode = NET_AUTOIP then ac_autoip_set_struct A netif netif_autoip s
      else Some s)"

definition netdev_config ::
  "('h, 'z) app_scheme app_calls \<Rightarrow> ('h, 'z) app_scheme netif_calls \<Rightarrow> nif \<Rightarrow> ptr \<Rightarrow> ptr \<Rightarrow> ('h, 'z) app_scheme \<Rightarrow> ('h, 'z) app_scheme option" where
  "netdev_config A K netif netif_dhcp netif_autoip s = do {
     let s = upd_netif netif (\<lambda>_. netif_zero) s;
     let mode = get_mode (e0 s);
     if mode = NET_NONE then Some s
     else do {
       s \<leftarrow> netdev_config_mode A mode netif netif_dhcp netif_autoip s;
       let s = upd_netif netif (nf_name_update (\<lambda>_. (101, 48))) s;
       (_, s) \<leftarrow> netif_add K (Some netif) (Some (cfg_ipaddr (e0 s))) (Some (cfg_netmask (e0 s))) (Some (cfg_gw (e0 s)))
                  (Some e0_addr) (Some FN_mynetif_init) (Some FN_ethernet_input) s;
       let s = netif_set_status_callback (Some netif) (Some FN_netif_status_callback) s;
       let s = netif_set_link_callback (Some netif) (Some FN_link_callback) s;
       let s = (if cfg_default_netif (e0 s) \<noteq> 0 then netif_set_default (Some netif) s else s);
       s \<leftarrow> netif_set_link_up K (Some netif) s;
       s \<leftarrow> netif_set_up K (Some netif) s;
       s \<leftarrow> (if MODE_DHCP mode then do {
               (err, s) \<leftarrow> ac_dhcp_start A netif s;
               Some (LWIP_ASSERT ''dhcp_start failed'' (err = ERR_OK) s)
             } else Some s);
       (if mode = NET_AUTOIP then do {
          (err, s) \<leftarrow> ac_autoip_start A netif s;
          Some (LWIP_ASSERT ''autoip_start failed'' (err = ERR_OK) s)
        } else Some s)
     }
   }"

text \<open>The contents of the structures of DHCP and AutoIP, which are cleared here, are not part of the model.\<close>

definition netdev_config_remove ::
  "('h, 'z) app_scheme link \<Rightarrow> ('h, 'z) app_scheme app_calls \<Rightarrow> ('h, 'z) app_scheme netif_calls \<Rightarrow> nif \<Rightarrow> ('h, 'z) app_scheme \<Rightarrow> ('h, 'z) app_scheme option" where
  "netdev_config_remove H A K netif s = do {
     let mode = get_mode (e0 s);
     if mode = NET_NONE then Some s
     else do {
       s \<leftarrow> (if mode = NET_STATIC then Some s
             else if MODE_DHCP mode then ac_dhcp_cleanup A netif s
             else if mode = NET_AUTOIP then ac_autoip_remove_struct A netif s
             else Some s);
       s \<leftarrow> netif_remove H K (Some netif) s;
       Some (upd_netif netif (\<lambda>_. netif_zero) s)
     }
   }"

definition mynet_config_init :: net_config where
  "mynet_config_init = \<lparr>ntp_mode = 0, ntp1 = 0, ntp2 = 0, ntp3 = 0\<rparr>"

definition e0_init :: netdev_config_t where
  "e0_init = \<lparr>cfg_hwaddr = [0x00, 0x23, 0xC1, 0xDE, 0xD0, 0x0D], cfg_mode = NET_DHCP_AUTOIP, cfg_ipaddr = 0, cfg_netmask = 0,
     cfg_gw = 0, cfg_mtu = 0, cfg_default_netif = 1\<rparr>"

definition lwip_config_init ::
  "'h chip \<Rightarrow> ('h, 'z) app_scheme app_calls \<Rightarrow> ('h, 'z) app_scheme netif_calls \<Rightarrow> ('h, 'z) app_scheme \<Rightarrow> ('h, 'z) app_scheme option" where
  "lwip_config_init C A K s = do {
     let (_, s) = nr_lan91c111_reset C s;
     let (_, s) = nr_lan91c111_set_promiscuous C 1 s;
     s \<leftarrow> net_config_init A (mynet_config s) s;
     s \<leftarrow> netdev_config A K e0netif e0netif_dhcp e0netif_autoip s;
     (if ntp_mode (mynet_config s) \<noteq> 2 then ac_sntp_init A s else Some s)
   }"

section \<open>The main loop\<close>

text \<open>
  \<^verbatim>\<open>keep_running\<close> is changed from outside: its value each time it is read is a parameter.
\<close>

partial_function (option) main_loop ::
  "'h chip \<Rightarrow> ('h, 'z) app_scheme link \<Rightarrow> ('h, 'z) app_scheme hooks \<Rightarrow> (nat \<Rightarrow> bool) \<Rightarrow> nat \<Rightarrow> ('h, 'z) app_scheme \<Rightarrow> ('h, 'z) app_scheme option" where
  "main_loop C H T keep_running i s =
     (if keep_running i then do {
        (_, s) \<leftarrow> nr_lan91c111_check_for_events C (process_frames H) s;
        s \<leftarrow> sys_check_timeouts T s;
        main_loop C H T keep_running (i + 1) s
      } else Some s)"

definition start_lwip ::
  "'h chip \<Rightarrow> ('h, 'z) app_scheme link \<Rightarrow> ('h, 'z) app_scheme app_calls \<Rightarrow> ('h, 'z) app_scheme netif_calls \<Rightarrow> ('h, 'z) app_scheme hooks \<Rightarrow> (nat \<Rightarrow> bool) \<Rightarrow>
   ('h, 'z) app_scheme \<Rightarrow> ('h, 'z) app_scheme option" where
  "start_lwip C H A K T keep_running s = do {
     s \<leftarrow> ac_lwip_init A s;
     s \<leftarrow> lwip_config_init C A K s;
     s \<leftarrow> main_loop C H T keep_running 0 s;
     netdev_config_remove H A K e0netif s
   }"

end
