(* ===== verification/App_Frames.thy ===== *)
theory App_Frames
  imports App
begin

text \<open>
  Frames through the application: what is received arrives as one packet at the Ethernet layer,
  what is sent arrives octet by octet in the chip, and the driver is a link the layers above may
  rely on.
\<close>

section \<open>Packets from the pool\<close>

text \<open>Every pbuf the loop adds has data left to hold, and later rounds do not change its total length.\<close>

lemma pool_loop_pos:
  assumes "mem_ok s" "part s (unat rem_len) p xs" "lst = (if xs = [] then None else Some (last xs))" "unat offset < 592" "0 < unat rem_len"
    "pbuf_alloc_pool_loop cf offset rem_len p lst s = Some (r, s')"
  shows "pb s' y = Some b \<longrightarrow> (case pb s y of None \<Rightarrow> 0 < unat (p_tot_len b) | Some c \<Rightarrow> p_tot_len b = p_tot_len c)"
  using assms
proof (induction "unat rem_len" arbitrary: rem_len p xs lst s offset rule: less_induct)
  case less
  obtain q s1 where m: "memp_malloc MEMP_PBUF_POOL s = (q, s1)" by (cases "memp_malloc MEMP_PBUF_POOL s")
  note f = memp_malloc_fields [OF m]
  have xp: "p = None \<longleftrightarrow> xs = []" using less.prems(2) by (cases xs) auto
  show ?case
  proof (cases q)
    case None
    have "pb s' = (pb s) |` (- set xs)"
      using pool_loop_empty [OF less.prems(1,2), of s1 cf offset rem_len lst] m None less.prems(6) by (auto simp: pool_result_def)
    then show ?thesis by (auto simp: restrict_map_def split: if_splits option.splits)
  next
    case (Some x)
    define ql where "ql = min rem_len (of_nat (PBUF_POOL_BUFSIZE_ALIGNED - LWIP_MEM_ALIGN_SIZE (unat offset)))"
    have ql: "unat ql = min (unat rem_len) (592 - unat offset)"
      unfolding ql_def using less.prems(4) by (intro qlen_le) simp
    define g where "g = grown x offset rem_len ql xs s1"
    let ?p = "if p = None then Some x else p"
    note g = grown_ok [OF less.prems(1) m [unfolded Some] less.prems(4) less.prems(2) ql, folded g_def]
    have rl: "unat (rem_len - ql) = unat rem_len - unat ql" by (rule unat_sub) (simp add: word_le_nat_alt ql)
    have new: "map_option p_tot_len (pb g z) = (if z = x then Some rem_len else map_option p_tot_len (pb s z))" for z
      using f(7) by (auto simp: g_def grown_def Let_def pbuf_init_alloced_pbuf_def upd_pbuf_def option.map_comp comp_def)
    have step: "pbuf_alloc_pool_loop cf offset rem_len p lst s =
      (if rem_len - ql > 0 then pbuf_alloc_pool_loop cf 0 (rem_len - ql) ?p (Some x) g else Some (?p, g))"
      using m Some xp less.prems(3,4)
      by (subst pbuf_alloc_pool_loop.simps) (simp add: g_def ql_def grown_def Let_def pool_consts)
    show ?thesis
    proof (cases "rem_len - ql > 0")
      case False
      then have "s' = g" using step less.prems(6) by simp
      then show ?thesis using new [of y] g(11) less.prems(5) by (auto split: option.splits if_splits)
    next
      case True
      then have pos: "0 < unat (rem_len - ql)" by (simp add: word_less_nat_alt)
      then have lt: "unat (rem_len - ql) < unat rem_len" using rl ql less.prems(4) by simp
      have pt: "part g (unat (rem_len - ql)) ?p (xs @ [x])" using g(2) rl by simp
      have "pb s' y = Some b \<longrightarrow> (case pb g y of None \<Rightarrow> 0 < unat (p_tot_len b) | Some c \<Rightarrow> p_tot_len b = p_tot_len c)"
        using less.hyps [OF lt g(1) pt, of "Some x" 0] step True pos less.prems(6) by simp
      then show ?thesis using new [of y] g(11) less.prems(5) by (auto split: option.splits if_splits)
    qed
  qed
qed

lemma part_solid:
  assumes "part s 0 p xs" "\<And>y b. y \<in> set (tl xs) \<Longrightarrow> pb s y = Some b \<Longrightarrow> 0 < unat (p_tot_len b)"
  shows "solid s xs"
  using assms
proof (induction xs arbitrary: p)
  case (Cons x xs)
  have "0 < pkt_len s xs" if ne: "xs \<noteq> []"
  proof -
    obtain y ys where y: "xs = y # ys" using ne by (cases xs) auto
    obtain c where c: "pb s y = Some c" "unat (p_tot_len c) = unat (p_len c) + pkt_len s ys" using Cons.prems(1) y by auto
    then show ?thesis using Cons.prems(2) [of y c] y by (simp add: plen_def)
  qed
  moreover obtain b :: pbuf where "part s 0 (p_next b) xs" using Cons.prems(1) by auto
  then have "solid s xs" by (rule Cons.IH) (use Cons.prems(2) in \<open>cases xs; auto\<close>)
  ultimately show ?case by simp
qed simp

lemma alloc_pool_packet:
  assumes o: "owned s Q" and n: "0 < unat n" and e: "pbuf_alloc cf l n PBUF_POOL s = Some (Some p, s')"
  shows "\<exists>xs. packet s' p xs \<and> pkt_len s' xs = unat n \<and> owned s' (p # Q) \<and> fresh s s' xs \<and> part s' 0 (Some p) xs \<and>
    octet s' = octet s \<and> diag s' = diag s \<and> stack.more s' = stack.more s"
proof -
  note A = alloc_ownedD [OF o _ e, simplified]
  obtain xs where xs: "part s' 0 (Some p) xs" "pkt_len s' xs = unat n" "fresh s s' xs" using alloc_fresh [OF o _ e] by auto
  have off: "unat (layer_offset l) < 592" by (cases l) simp_all
  have lp: "pbuf_alloc_pool_loop cf (layer_offset l) n None None s = Some (Some p, s')" using e by (simp add: pbuf_alloc_def)
  have pos: "0 < unat (p_tot_len b)" if "y \<in> set xs" "pb s' y = Some b" for y b
    using pool_loop_pos [OF ownedD(1) [OF o] _ _ off n lp, of "[]" y b] that xs(3) by (auto simp: fresh_def)
  have "solid s' xs" by (rule part_solid [OF xs(1)]) (use pos in \<open>cases xs; auto\<close>)
  moreover have "grounded s' y" if "y \<in> set xs" for y using xs(3) that by (auto simp: grounded_def fresh_def)
  moreover have "preds s' p = {}"
  proof -
    have "p \<in> set xs" using xs(1) by (cases xs) auto
    then have "refs s' p = 1" using part_refs [OF xs(1)] by blast
    then have "card (preds s' p) = 0" using ownedD(4) [OF A(5) [OF refl], of p] by simp
    then show ?thesis using finite_preds [OF ownedD(2) [OF A(5) [OF refl]], of p] by simp
  qed
  ultimately have "packet s' p xs" using part_pkt [OF xs(1)] by (auto simp: packet_def)
  then show ?thesis using xs A by blast
qed


section \<open>Sending\<close>

text \<open>Whatever packet is copied out, only the destination's region changes.\<close>

lemma copy_loop_region:
  assumes "pkt s p xs"
  shows "\<exists>k m. pbuf_copy_partial_loop p (Some d) len off left ct s = Some (k, s\<lparr>octet := m\<rparr>) \<and> (\<forall>a. fst a \<noteq> fst d \<longrightarrow> m a = octet s a)"
  using assms
proof (induction xs arbitrary: p s len off left ct)
  case Nil
  then show ?case by (subst pbuf_copy_partial_loop.simps) (intro exI [of _ ct] exI [of _ "octet s"], simp)
next
  case (Cons x xs)
  then obtain b where b: "p = Some x" "pb s x = Some b" "pkt s (p_next b) xs" "p_payload b = None \<longrightarrow> p_len b = 0" by auto
  show ?case
  proof (cases "len = 0")
    case True
    then show ?thesis by (subst pbuf_copy_partial_loop.simps) (intro exI [of _ ct] exI [of _ "octet s"], simp)
  next
    case len0: False
    show ?thesis
    proof (cases "off \<noteq> 0 \<and> off \<ge> p_len b")
      case True
      then show ?thesis using Cons.IH [OF b(3), of len "off - p_len b" left ct] len0 b
        by (subst pbuf_copy_partial_loop.simps) (simp add: deref_def)
    next
      case False
      define n1 where "n1 = (if p_len b - off > len then len else p_len b - off)"
      have "\<exists>m. MEMCPY (offset_ptr (Some d) (unat left)) (offset_ptr (p_payload b) (unat off)) (unat n1) s = Some (s\<lparr>octet := m\<rparr>) \<and>
        (\<forall>a. fst a \<noteq> fst d \<longrightarrow> m a = octet s a)"
      proof (cases "unat n1 = 0")
        case True
        then show ?thesis by (intro exI [of _ "octet s"]) (simp add: MEMCPY_def)
      next
        case nz: False
        have "p_len b \<noteq> 0"
        proof
          assume "p_len b = 0"
          then have "n1 = 0" using False by (auto simp: n1_def)
          then show False using nz by simp
        qed
        then obtain q where q: "p_payload b = Some q" using b(4) by auto
        then show ?thesis using nz
          by (intro exI [of _ "mem_write (octet s) (ptr_add d (int (unat left))) (mem_read (octet s) (ptr_add q (int (unat off))) (unat n1))"])
            (simp add: MEMCPY_def offset_ptr_def mem_write_def)
      qed
      then obtain m where m: "MEMCPY (offset_ptr (Some d) (unat left)) (offset_ptr (p_payload b) (unat off)) (unat n1) s = Some (s\<lparr>octet := m\<rparr>)"
        "\<forall>a. fst a \<noteq> fst d \<longrightarrow> m a = octet s a" by blast
      obtain k m' where m': "pbuf_copy_partial_loop (p_next b) (Some d) (len - n1) 0 (left + n1) (ct + n1) (s\<lparr>octet := m\<rparr>) = Some (k, s\<lparr>octet := m'\<rparr>)"
        "\<forall>a. fst a \<noteq> fst d \<longrightarrow> m' a = m a" using Cons.IH [of "s\<lparr>octet := m\<rparr>" "p_next b" "len - n1" 0 "left + n1" "ct + n1"] b(3) by auto
      have "pbuf_copy_partial_loop p (Some d) len off left ct s = Some (k, s\<lparr>octet := m'\<rparr>)"
        using len0 b(1,2) False m(1) m'(1) by (subst pbuf_copy_partial_loop.simps) (auto simp: deref_def Let_def n1_def [symmetric])
      then show ?thesis using m(2) m'(2) by (intro exI [of _ k] exI [of _ m']) simp
    qed
  qed
qed

lemma tx_previous_state: "\<exists>b h. tx_previous C s = (b, s\<lparr>dev := h\<rparr>)"
proof -
  have "s\<lparr>dev := dev s\<rparr> = s" by simp
  then have "\<exists>h. s = s\<lparr>dev := h\<rparr>" by metis
  then show ?thesis by (auto simp: tx_previous_def wr_def rd_def Let_def split: prod.splits)
qed

lemma tx_frame_state:
  "\<exists>r h. nr_lan91c111_tx_frame C w (int n) s = (r, s\<lparr>dev := h, irq_onoff := irq_onoff s\<rparr>)"
proof -
  let ?s = "snd (nr_lan91c111_set_irq C 0 s)"
  obtain b h where bh: "tx_previous C ?s = (b, ?s\<lparr>dev := h\<rparr>)" using tx_previous_state [of C ?s] by blast
  then show ?thesis
    by (auto simp: nr_lan91c111_tx_frame_def nr_lan91c111_set_irq_def tx_send_eq Let_def wr_def wr8_def split: prod.splits)
qed

lemma netif_output_frame:
  assumes "packet s p xs"
  shows "\<exists>s'. netif_output C n p s = Some (ERR_OK, s') \<and> link_frame s s'"
proof -
  obtain b where b: "pb s p = Some b" using assms by (cases xs) (auto simp: packet_def)
  define s1 where "s1 = LINK_STATS_INC st_xmit_update s"
  have pk: "packet s1 p xs" using assms by (simp add: s1_def)
  obtain k m where m: "pbuf_copy_partial (Some p) (Some mac_send_buffer) (of_nat (unat (p_tot_len b))) 0 s1 = Some (k, s1\<lparr>octet := m\<rparr>)"
    "\<forall>a. fst a \<noteq> fst mac_send_buffer \<longrightarrow> m a = octet s1 a"
    using copy_loop_region [of s1 "Some p" xs mac_send_buffer "of_nat (unat (p_tot_len b))" 0 0 0] pk
    unfolding packet_def pbuf_copy_partial_def by auto
  obtain r h where h: "nr_lan91c111_tx_frame C mac_send_buffer (int (unat (p_tot_len b))) (s1\<lparr>octet := m\<rparr>) =
      (r, s1\<lparr>octet := m\<rparr>\<lparr>dev := h, irq_onoff := irq_onoff (s1\<lparr>octet := m\<rparr>)\<rparr>)"
    using tx_frame_state [of C mac_send_buffer "unat (p_tot_len b)" "s1\<lparr>octet := m\<rparr>"] by blast
  then show ?thesis using b m by (simp add: netif_output_def s1_def [symmetric])
      (simp add: link_frame_def s1_def LINK_STATS_INC_def same_mem_def mac_send_buffer_def)
qed


text \<open>The driver keeps the contract of a link, whatever the chip does.\<close>

lemma app_output_ok: "output_ok (app_link C H)"
  unfolding output_ok_def app_link_def using netif_output_frame by fastforce

lemma app_link_ok: "hooks_ok H \<Longrightarrow> hooks_ok (app_link C H)"
  using app_output_ok [of C H] by (simp add: hooks_ok_def) (simp add: app_link_def)

lemma netif_output_sends:
  assumes p: "packet s p xs" and z: "0 < pkt_len s xs" and c: "clear_of s xs mac_send_buffer (pkt_len s xs)" and e: "ever_sent_packet s = 0"
  shows "\<exists>s'. netif_output C n p s = Some (ERR_OK, s') \<and> dev s' = play C (tx_script (tx_packet s) (irq_onoff s) (contents s xs)) (dev s)"
proof -
  obtain b xs' where b: "pb s p = Some b" "xs = p # xs'" "unat (p_tot_len b) = unat (p_len b) + pkt_len s xs'"
    using packet_head [OF p] by blast
  have tot: "unat (p_tot_len b) = pkt_len s xs" using b by (simp add: plen_def)
  define s1 where "s1 = LINK_STATS_INC st_xmit_update s"
  have pb1: "pb s1 = pb s" "octet s1 = octet s" by (simp_all add: s1_def LINK_STATS_INC_def)
  have k: "pkt s (Some p) xs" "pkt s1 (Some p) xs" using p pb_cong(1) [OF pb1(1), of "Some p" xs] by (simp_all add: packet_def)
  have ct: "contents s1 xs = contents s xs" "pkt_len s1 xs = pkt_len s xs" "clear_of s1 xs mac_send_buffer (pkt_len s xs)"
    using c contents_cong [of xs s1 s] pkt_cong(2) [of xs s1 s] pb1 by (simp_all add: clear_of_def)
  have len: "length (contents s xs) = pkt_len s xs" using length_contents [OF k(1)] .
  have ne: "xs \<noteq> []" using b(2) by simp
  let ?s2 = "s1\<lparr>octet := mem_write (octet s) mac_send_buffer (contents s xs)\<rparr>"
  have "pbuf_copy_partial (Some p) (Some mac_send_buffer) (p_tot_len b) 0 s1 = Some (of_nat (pkt_len s xs), ?s2)"
    using copy_partial_pkt [OF k(2) ne, of mac_send_buffer "p_tot_len b" 0] unfolding tot ct pb1 using ct(3) len by simp
  moreover have "nr_lan91c111_tx_frame C mac_send_buffer (int (unat (p_tot_len b))) ?s2 =
      (0, ?s2\<lparr>dev := play C (tx_script (tx_packet s) (irq_onoff s) (contents s xs)) (dev s)\<rparr>)"
    using tx_frame_writes [of ?s2 "unat (p_tot_len b)" C mac_send_buffer] e z len
    unfolding tot by (simp add: mem_read_write_same) (simp add: s1_def LINK_STATS_INC_def)
  ultimately show ?thesis using b(1) by (simp add: netif_output_def s1_def [symmetric])
qed


text \<open>
  C38. What the Ethernet layer sends is what goes into the chip: for a packet with room for the
  header whose data is not in the send buffer, sending it through the application's link makes the
  driver write one frame that consists of the destination's and the interface's hardware address,
  the type, and the octets of the packet, and nothing else.
\<close>

theorem frame_on_wire:
  assumes "owned s Q" "packet s p xs" "room s p 14" "netif_ok s n" "length m = 6" "ever_sent_packet s = 0"
    "\<forall>x \<in> set xs. \<forall>b q. pb s x = Some b \<longrightarrow> p_payload b = Some q \<longrightarrow> fst q \<noteq> fst mac_send_buffer"
  shows "\<exists>s'. ethernet_output (app_link C H) n p (netif_hwaddr n) (\<lambda>_. m) ty s = Some (ERR_OK, s') \<and>
    dev s' = play C (tx_script (tx_packet s) (irq_onoff s)
      (m @ netif_hwaddr n s @ [ucast (drop_bit 8 ty), ucast ty] @ contents s xs)) (dev s)"
proof -
  obtain f where f: "nf_linkoutput (netifs s n) = Some f" using assms(4) by (auto simp: netif_ok_def)
  have hl: "unat (nf_hwaddr_len (netifs s n)) = ETH_HWADDR_LEN" using assms(4) by (simp add: netif_ok_def)
  have hw: "hw6 s (netif_hwaddr n)" "hw6 s (\<lambda>_. m)" using assms(4,5) by (simp_all add: hw6_def) (simp add: hw6_simps(4) [unfolded hw6_def])
  define s1 where "s1 = upd_pbuf p (grow_front 14) s"
  obtain h m0 m1 mm where E: "ethernet_output (app_link C H) n p (netif_hwaddr n) (\<lambda>_. m) ty s = netif_output C n p (s1\<lparr>octet := mm\<rparr>)"
    "contents (s1\<lparr>octet := mm\<rparr>) xs = m @ netif_hwaddr n (s1\<lparr>octet := m1\<rparr>) @ [ucast (drop_bit 8 ty), ucast ty] @ contents s xs"
    using ethernet_output_eq(2) [OF assms(1,2) f hl hw assms(3), of "app_link C H" ty, folded s1_def] unfolding Let_def app_link_def by auto
  note hu = header_up [OF assms(1,2,3), folded s1_def]
  have p1: "packet (s1\<lparr>octet := mm\<rparr>) p xs" using hu assms(2) by simp
  have nh: "netif_hwaddr n (s1\<lparr>octet := m1\<rparr>) = netif_hwaddr n s" by (simp add: netif_hwaddr_def s1_def upd_pbuf_def)
  have l6: "length (netif_hwaddr n s) = 6" using assms(4) by (simp add: netif_hwaddr_def netif_ok_def ETH_HWADDR_LEN_def)
  note E2 = E(2) [unfolded nh]
  have "pkt (s1\<lparr>octet := mm\<rparr>) (Some p) xs" using p1 unfolding packet_def by blast
  from length_contents [OF this] have len: "pkt_len (s1\<lparr>octet := mm\<rparr>) xs = 14 + length (contents s xs)"
    unfolding E2 using l6 assms(5) by simp
  have "fst q \<noteq> fst mac_send_buffer" if x: "x \<in> set xs" "pb (s1\<lparr>octet := mm\<rparr>) x = Some b" "p_payload b = Some q" for x b q
  proof (cases "x = p")
    case True
    then obtain c r where "pb s x = Some c" "p_payload c = Some r" "q = ptr_add r (- 14)" using x(2,3) by (auto simp: s1_def upd_pbuf_def)
    then show ?thesis using assms(7) x(1) by (metis fst_ptr_add)
  next
    case False
    then have "pb s x = Some b" using x(2) by (simp add: s1_def upd_pbuf_def)
    then show ?thesis using assms(7) x(1,3) by blast
  qed
  then have "clear_of (s1\<lparr>octet := mm\<rparr>) xs mac_send_buffer (pkt_len (s1\<lparr>octet := mm\<rparr>) xs)"
    unfolding clear_of_def apart_def by auto
  from netif_output_sends [OF p1 _ this, of C n] show ?thesis using E(1) E2 len assms(6) by (simp add: s1_def upd_pbuf_def)
qed

section \<open>Receiving\<close>

lemma stack_more_net:
  fixes s s' :: "'a net_scheme"
  assumes "stack.more s' = stack.more s"
  shows "netifs s' = netifs s" "stats_link s' = stats_link s"
  using assms by (cases s; cases s'; simp)+

lemma adapter_more:
  fixes s s' :: "('h, 'z) adapter_scheme"
  assumes "stack.more s' = stack.more s"
  shows "dev s' = dev s" "ever_sent_packet s' = ever_sent_packet s" "tx_packet s' = tx_packet s" "irq_onoff s' = irq_onoff s"
  using assms by (cases s; cases s'; simp)+

lemma pool_arp:
  assumes inv: "arp_inv s R" and n: "0 < unat n"
  shows "\<exists>r s'. pbuf_alloc cf l n PBUF_POOL s = Some (r, s') \<and> octet s' = octet s \<and> diag s' = diag s \<and> stack.more s' = stack.more s \<and>
    (r = None \<longrightarrow> arp_inv s' R) \<and>
    (\<forall>q \<in> set R. \<forall>ys. packet s q ys \<longrightarrow> packet s' q ys) \<and>
    (\<forall>p. r = Some p \<longrightarrow> arp_inv s' (p # R) \<and> (\<exists>xs. packet s' p xs \<and> pkt_len s' xs = unat n \<and> fresh s s' xs))"
proof -
  note o = arp_invD(4) [OF inv]
  obtain r s' where e: "pbuf_alloc cf l n PBUF_POOL s = Some (r, s')" using pbuf_alloc_owned [OF o, of PBUF_POOL cf l n] by blast
  note A = alloc_ownedD [OF o _ e, simplified]
  note m = more_fields [OF A(3)]
  show ?thesis
  proof (cases r)
    case None
    have "packet s' q ys = packet s q ys" for q ys using A(4) [OF None] by (intro pb_cong(5)) simp
    moreover from this have "arp_inv s' R" using A(4) [OF None] m by (intro arp_inv_via [OF inv]) simp_all
    ultimately show ?thesis using e A None by simp
  next
    case (Some p)
    obtain xs where xs: "packet s' p xs" "pkt_len s' xs = unat n" "owned s' (p # arp_queues (arp_table s) @ R)" "fresh s s' xs" "part s' 0 (Some p) xs"
      using alloc_pool_packet [OF o n e [unfolded Some]] by blast
    have k: "packet s' q ys" if "packet s q ys" for q ys using fresh_packet [OF xs(4,5) that] .
    have "owned s' (arp_queues (arp_table s) @ p # R)" using xs(3) owned_cong [of "arp_queues (arp_table s) @ p # R" "p # arp_queues (arp_table s) @ R" s'] by simp
    then have "arp_inv s' (p # R)" using m k by (intro arp_inv_via [OF inv]) simp_all
    then show ?thesis using e A Some xs k by auto
  qed
qed


lemma ext_outside:
  assumes "fresh s s' xs" "fst a = Ext e"
  shows "clear_of s' xs a n"
  unfolding clear_of_def
proof (intro ballI allI impI)
  fix x b q assume x: "x \<in> set xs" "pb s' x = Some b" "p_payload b = Some q"
  have ok: "mem_ok s'" using assms(1) by (simp add: fresh_def)
  obtain k where "mlive s' x = Some k" "within x k q (unat (p_len b))"
    using contiguous_at [OF ok x(2) _ _ x(3)] assms(1) x(1,2) by (auto simp: fresh_def)
  then show "apart q (unat (p_len b)) a n" using fst_Ext_apart [OF assms(2)] apart_sym by metis
qed

text \<open>A frame of any length becomes a packet for the Ethernet layer, or is counted as dropped.\<close>

lemma process_frames_ok:
  assumes H: "hooks_ok H" and inv: "arp_inv s R" and n: "netif_ok s e0netif" and i: "nf_input (netifs s e0netif) = Some FN_ethernet_input"
    and k: "(of_int k :: u16) \<noteq> 0" and fr: "fst frame = Ext e"
  shows "\<exists>u. process_frames H frame k s = Some (0, u) \<and> arp_safe R s u \<and>
    (st_memerr (stats_link u) = st_memerr (stats_link s) + 1 \<and> st_drop (stats_link u) = st_drop (stats_link s) + 1 \<or>
     (\<exists>p xs t. packet t p xs \<and> contents t xs = mem_read (octet s) frame (unat (of_int k :: u16)) \<and>
        ethernet_input H p e0netif t = Some (ERR_OK, u)))"
proof -
  define l where "l = (of_int k :: u16)"
  have l: "0 < unat l" using k by (simp add: l_def unat_gt_0)
  obtain r s1 where s1: "pbuf_alloc (lk_free H) PBUF_RAW l PBUF_POOL s = Some (r, s1)" "octet s1 = octet s" "diag s1 = diag s"
    "stack.more s1 = stack.more s" "r = None \<longrightarrow> arp_inv s1 R" "\<forall>q \<in> set R. \<forall>ys. packet s q ys \<longrightarrow> packet s1 q ys"
    "\<forall>p. r = Some p \<longrightarrow> arp_inv s1 (p # R) \<and> (\<exists>xs. packet s1 p xs \<and> pkt_len s1 xs = unat l \<and> fresh s s1 xs)"
    using pool_arp [OF inv l, of "lk_free H" PBUF_RAW] by blast
  note m = stack_more_net [OF s1(4)]
  have nk: "netif_ok s1 a = netif_ok s a" for a by (simp add: netif_ok_def m)
  show ?thesis
  proof (cases r)
    case None
    define u where "u = LINK_STATS_INC st_drop_update (LINK_STATS_INC st_memerr_update s1)"
    have "process_frames H frame k s = Some (0, u)" using s1(1) None by (simp add: process_frames_def l_def [symmetric] u_def)
    moreover have "arp_inv u R" using s1(5) None arp_inv_netifs [of u s1 R] by (simp add: u_def same_mem_def netif_ok_def LINK_STATS_INC_def)
    then have "arp_safe R s u" using s1(3,6) nk by (simp add: arp_safe_def u_def) (simp add: netif_ok_def LINK_STATS_INC_def)
    moreover have "st_memerr (stats_link u) = st_memerr (stats_link s) + 1" "st_drop (stats_link u) = st_drop (stats_link s) + 1"
      using m by (simp_all add: u_def LINK_STATS_INC_def)
    ultimately show ?thesis by blast
  next
    case (Some p)
    obtain xs where xs: "packet s1 p xs" "pkt_len s1 xs = unat l" "fresh s s1 xs" and i1: "arp_inv s1 (p # R)" using s1(7) Some by blast
    have pk: "pkt s1 (Some p) xs" using xs(1) unfolding packet_def by blast
    have ne: "xs \<noteq> []" using pk by (cases xs) auto
    obtain mm where mm: "pbuf_take (Some p) (Some frame) l s1 = Some (ERR_OK, s1\<lparr>octet := mm\<rparr>)"
      "contents (s1\<lparr>octet := mm\<rparr>) xs = mem_read (octet s1) frame (unat l) @ drop (unat l) (contents s1 xs)"
      by (rule take_pkt [OF pk ne fresh_disjoint [OF xs(3)] ext_outside [OF xs(3) fr], of l]) (use xs(2) in simp, blast)
    define t where "t = s1\<lparr>octet := mm\<rparr>"
    have c: "contents t xs = mem_read (octet s) frame (unat l)"
      using mm(2) length_contents [OF pk] xs(2) s1(2) by (simp add: t_def)
    have i2: "arp_inv t (p # R)" using i1 arp_inv_netifs [of t s1 "p # R"] by (simp add: t_def same_mem_def netif_ok_def)
    have p2: "packet t p xs" using xs(1) by (simp add: t_def)
    obtain u where u: "ethernet_input H p e0netif t = Some (ERR_OK, u)" "arp_safe R t u"
      using ethernet_input_ok [OF H i2 p2, of e0netif] n nk by (auto simp: t_def netif_ok_def)
    have "process_frames H frame k s = Some (0, u)"
      using s1(1) Some mm(1) u(1) i m by (simp add: process_frames_def l_def [symmetric] t_def [symmetric] call_input_def) (simp add: t_def m)
    moreover have "arp_safe R s u" using u(2) s1(3,6) nk by (simp add: arp_safe_def t_def) (simp add: netif_ok_def)
    ultimately show ?thesis using p2 c u(1) unfolding l_def by blast
  qed
qed


text \<open>Reading a frame changes the chip and the contents of memory only.\<close>

definition data_only :: "('h, 'z) adapter_scheme \<Rightarrow> ('h, 'z) adapter_scheme \<Rightarrow> bool" where
  "data_only s s' \<longleftrightarrow> s' = s\<lparr>dev := dev s', octet := octet s'\<rparr>"

lemma data_only_refl: "data_only s s"
  by (simp add: data_only_def)

lemma data_only_trans:
  assumes "data_only s t" "data_only t u"
  shows "data_only s u"
proof -
  have "u = t\<lparr>dev := dev u, octet := octet u\<rparr>" using assms(2) by (simp only: data_only_def)
  also have "\<dots> = s\<lparr>dev := dev t, octet := octet t\<rparr>\<lparr>dev := dev u, octet := octet u\<rparr>" using assms(1) by (simp only: data_only_def)
  also have "\<dots> = s\<lparr>dev := dev u, octet := octet u\<rparr>" by simp
  finally show ?thesis by (simp only: data_only_def)
qed

lemma data_only_io: "data_only s (snd (rd C r s))" "data_only s (wr C r v s)" "put_frame w xs s = Some s' \<Longrightarrow> data_only s s'"
  by (auto simp: data_only_def rd_def wr_def split_beta put_frame_def split: if_splits)

lemma rx_word_data: "rx_word C ws = Some ws' \<Longrightarrow> data_only (snd ws) (snd ws')"
  using data_only_io(1) [of "snd ws" C np_data] data_only_io(3) data_only_trans
  by (fastforce simp: rx_word_def split_beta Let_def bind_eq_Some_conv)

lemma rx_words_data: "rx_words C n ws = Some ws' \<Longrightarrow> data_only (snd ws) (snd ws')"
proof (induction n arbitrary: ws)
  case 0
  then show ?case by (simp add: data_only_refl)
next
  case (Suc n)
  then obtain w where w: "rx_word C ws = Some w" "rx_words C n w = Some ws'" by (auto simp: bind_eq_Some_conv)
  then show ?case using data_only_trans [OF rx_word_data [OF w(1)] Suc.IH [OF w(2)]] by simp
qed


lemma rx_frame_state:
  fixes C :: "'h chip" and s :: "('h, 'z) adapter_scheme"
  assumes "rx_frame C s = Some (l, s')"
  shows "data_only s s' \<and> - 6 \<le> l \<and> l \<le> 2042"
proof -
  let ?s1 = "wr C np_pointer (PTR_READ OR PTR_RCV OR PTR_AUTOINC) s"
  obtain st s2 where s2: "rd C np_data ?s1 = (st, s2)" by (cases "rd C np_data ?s1")
  obtain fl s3 where s3: "rd C np_data s2 = (fl, s3)" by (cases "rd C np_data s2")
  define k where "k = (if st AND RS_ERRORS \<noteq> 0 then 0 else uint (fl AND 0x07ff) - 4)"
  have d3: "data_only s s3"
    using data_only_trans [OF data_only_trans [OF data_only_io(2) data_only_io(1)] data_only_io(1)] s2 s3 by (metis snd_conv)
  have "uint (fl AND 0x07ff) \<le> 2047" using word_and_le1 [of fl "0x07ff"] by (simp add: word_le_def)
  then have k: "- 4 \<le> k" "k \<le> 2043" by (simp_all add: k_def)
  define mop where "mop = (\<lambda>w (s :: ('h, 'z) adapter_scheme). if k - k sdiv 2 * 2 \<noteq> 0 then
      (case rd C np_data s of (v, s) \<Rightarrow> put_frame w (map (\<lambda>i. ucast (drop_bit (8 * i) v)) [0..<nat (k - k sdiv 2 * 2)]) s) else Some s)"
  define len where "len = (\<lambda>m :: octets. if m (ptr_add g_frame_buffer (k - 1)) AND 0x20 \<noteq> 0 then k - 1 else k - 2)"
  have run: "rx_frame C s = Option.bind (rx_big_loops C (nat (k sdiv 2 sdiv 8)) (g_frame_buffer, s3)) (\<lambda>ws.
      Option.bind (rx_words C (nat (k sdiv 2 - k sdiv 2 sdiv 8 * 8)) ws) (\<lambda>ws. Option.bind (mop (fst ws) (snd ws)) (\<lambda>s. Some (len (octet s), s))))"
    unfolding rx_frame_def Let_def s2 s3 prod.case k_def [symmetric] by (simp add: mop_def len_def case_prod_beta')
  obtain a where a: "rx_big_loops C (nat (k sdiv 2 sdiv 8)) (g_frame_buffer, s3) = Some a"
    "Option.bind (rx_words C (nat (k sdiv 2 - k sdiv 2 sdiv 8 * 8)) a) (\<lambda>ws. Option.bind (mop (fst ws) (snd ws)) (\<lambda>s. Some (len (octet s), s))) = Some (l, s')"
    using assms unfolding run bind_eq_Some_conv by blast
  obtain b where b: "rx_words C (nat (k sdiv 2 - k sdiv 2 sdiv 8 * 8)) a = Some b" "Option.bind (mop (fst b) (snd b)) (\<lambda>s. Some (len (octet s), s)) = Some (l, s')"
    using a(2) unfolding bind_eq_Some_conv by blast
  have c: "mop (fst b) (snd b) = Some s'" "l = len (octet s')" using b(2) by (auto simp: bind_eq_Some_conv)
  have "data_only s3 (snd b)" using data_only_trans [OF rx_words_data [OF a(1) [unfolded rx_big]] rx_words_data [OF b(1)]] by simp
  moreover have "data_only (snd b) s'"
  proof (cases "k - k sdiv 2 * 2 \<noteq> 0")
    case True
    then show ?thesis using c(1) data_only_trans [OF data_only_io(1) data_only_io(3)] by (simp add: mop_def split_beta)
  qed (use c(1) in \<open>simp add: mop_def data_only_refl\<close>)
  ultimately have "data_only s s'" using d3 data_only_trans by blast
  then show ?thesis using k c(2) by (simp add: len_def split: if_splits)
qed


lemma data_arp: "arp_inv (s\<lparr>dev := h, octet := m\<rparr>) R = arp_inv s R" "packet (s\<lparr>dev := h, octet := m\<rparr>) p ys = packet s p ys"
  "netif_ok (s\<lparr>dev := h, octet := m\<rparr>) n = netif_ok s n"
proof -
  let ?t = "s\<lparr>dev := h, octet := m\<rparr>"
  show n: "netif_ok ?t n = netif_ok s n" for n by (simp add: netif_ok_def)
  show "arp_inv ?t R = arp_inv s R" by (rule arp_inv_netifs) (simp_all add: same_mem_def n)
  show "packet ?t p ys = packet s p ys" by (rule pb_cong(5)) simp
qed



section \<open>Examples\<close>

lemma pool_packet:
  assumes o: "owned s []" and l: "free_list s MEMP_PBUF_POOL \<noteq> []"
  shows "\<exists>p s1. pbuf_alloc cf PBUF_LINK 46 PBUF_POOL s = Some (Some p, s1) \<and> owned s1 [p] \<and> packet s1 p [p] \<and> room s1 p 14 \<and>
    (\<forall>b q. pb s1 p = Some b \<longrightarrow> p_payload b = Some q \<longrightarrow> fst q = Pool MEMP_PBUF_POOL) \<and> stack.more s1 = stack.more s"
proof -
  obtain r s0 where m: "memp_malloc MEMP_PBUF_POOL s = (r, s0)" by (meson surj_pair)
  then obtain q where q: "r = Some q" "fst q = Pool MEMP_PBUF_POOL"
    using memp_malloc_ok [OF mem_okD(2) [OF ownedD(1) [OF o]] m] l by (auto simp: elems_def split: option.splits)
  define s1 where "s1 = LWIP_ASSERT ''PBUF_POOL_BUFSIZE must be bigger than MEM_ALIGNMENT''
    (PBUF_POOL_BUFSIZE_ALIGNED - LWIP_MEM_ALIGN_SIZE 16 > 0)
    (pbuf_init_alloced_pbuf q (Some (ptr_add q 32)) 46 46 PBUF_POOL 0 s0)"
  have e: "pbuf_alloc cf PBUF_LINK 46 PBUF_POOL s = Some (Some q, s1)"
    using m q by (simp add: pbuf_alloc_def pbuf_alloc_pool_loop.simps s1_def pool_consts)
  have b: "\<exists>b. pb s1 q = Some b \<and> p_next b = None \<and> p_payload b = Some (ptr_add q 32) \<and> contiguous b \<and> p_tot_len b = 46"
    by (simp add: s1_def pbuf_init_alloced_pbuf_def pool_consts contiguous_def PBUF_TYPE_FLAG_STRUCT_DATA_CONTIGUOUS_def)
  obtain xs where xs: "packet s1 q xs" "owned s1 [q]" "stack.more s1 = stack.more s" "part s1 0 (Some q) xs"
    using alloc_pool_packet [OF o _ e] by auto
  obtain ys where "xs = q # ys" "part s1 0 None ys" using xs(4) b by (cases xs) auto
  then have "xs = [q]" by (cases ys) auto
  moreover have "ptr_add q 32 = (Pool MEMP_PBUF_POOL, snd q + 32)" using q(2) by (cases q) (simp add: ptr_add_def)
  ultimately show ?thesis using e xs b by (auto simp: room_def pool_consts)
qed

lemma adapter_boot_inv:
  "arp_inv (adapter_boot h) []" "owned (adapter_boot h) []" "netif_ok (adapter_boot h) n" "nf_input (netifs (adapter_boot h) n) = Some FN_ethernet_input"
  "free_list (adapter_boot h) MEMP_PBUF_POOL \<noteq> []"
proof -
  show i: "arp_inv (adapter_boot h) []" and "netif_ok (adapter_boot h) n" unfolding adapter_boot_def by (rule extend_boot)+
  show "nf_input (netifs (adapter_boot h) n) = Some FN_ethernet_input" by (simp add: adapter_boot_def eth0_def FN_ethernet_input_def)
  show "owned (adapter_boot h) []" unfolding adapter_boot_def by (rule boot_owned) (simp_all add: extend_boot_mem)
  have "free_list (adapter_boot h) MEMP_PBUF_POOL = free_list (stack_boot desc_two) MEMP_PBUF_POOL"
    by (simp add: free_list_def adapter_boot_def arp_boot_def net.defs arp.defs timers.defs stack.defs)
  then show "free_list (adapter_boot h) MEMP_PBUF_POOL \<noteq> []" using boot_two(4) [of MEMP_PBUF_POOL] by auto
qed

theorem frame_on_wire_witness:
  "\<exists>p s s'. pbuf_alloc (\<lambda>_. Some) PBUF_LINK 46 PBUF_POOL (adapter_boot []) = Some (Some p, s) \<and>
    ethernet_output (app_link log_chip plain_link) 0 p (netif_hwaddr 0) (\<lambda>_. [1, 2, 3, 4, 5, 6]) 0x0800 s = Some (ERR_OK, s') \<and>
    dev s' = play log_chip (tx_script 0 0 ([1, 2, 3, 4, 5, 6] @ netif_hwaddr 0 s @ [8, 0] @ contents s [p])) []"
proof -
  obtain p s where s: "pbuf_alloc (\<lambda>_. Some) PBUF_LINK 46 PBUF_POOL (adapter_boot [] :: access list adapter) = Some (Some p, s)" "owned s [p]"
    "packet s p [p]" "room s p 14" "\<forall>b q. pb s p = Some b \<longrightarrow> p_payload b = Some q \<longrightarrow> fst q = Pool MEMP_PBUF_POOL"
    "stack.more s = stack.more (adapter_boot [])"
    using pool_packet [OF adapter_boot_inv(2,5)] by metis
  note n = stack_more_net [OF s(6)]
  have m: "netif_ok s 0" "ever_sent_packet s = 0" "tx_packet s = 0" "irq_onoff s = 0" "dev s = []"
    using adapter_boot_inv(3) [of "[] :: access list" 0] adapter_boot_sel(1-4) [of "[] :: access list"] s(6)
    by (simp_all add: netif_ok_def n adapter_more [OF s(6)])
  have "\<forall>x \<in> set [p]. \<forall>b q. pb s x = Some b \<longrightarrow> p_payload b = Some q \<longrightarrow> fst q \<noteq> fst mac_send_buffer"
    using s(5) by (auto simp: mac_send_buffer_def)
  moreover have z: "(2048 :: u8) = 0" by (simp add: word_unat_eq_iff unat_numeral)
  ultimately show ?thesis using frame_on_wire [OF s(2-4) m(1) _ m(2), of "[1, 2, 3, 4, 5, 6]" log_chip plain_link "0x0800"] s(1) m(3-5)
    by (auto simp: z)
qed



end
