(* ===== verification/Spec2Isabelle.thy ===== *)
theory Spec2Isabelle
  imports Ip4_Addr Timeout_Queue App_Frames
begin

text \<open>
  A verification of the IPv4 stack of \<^verbatim>\<open>baremetal-lwip\<close>: the lwIP core as this
  repository configures and builds it (one thread, no operating system, IPv4 over Ethernet).

  \<^item> \<^verbatim>\<open>Lwip_Prelude\<close>: integers, error codes, memory, the console of failed assertions.
  \<^item> \<^verbatim>\<open>Allocator\<close>: the interface of the two allocators and what its clients may rely on.
  \<^item> \<^verbatim>\<open>Mem\<close>: the heap of \<^verbatim>\<open>lwip/src/core/mem.c\<close>.
\<close>

end
